(* ===== verification/Aik_Prelude.thy ===== *)
theory Aik_Prelude
  imports Main "HOL-Library.Word" "HOL-Library.AList" "HOL-Library.List_Lexorder"
    "HOL-Library.Char_ord" "HOL-Library.Product_Lexorder" "HOL-Library.Multiset"
begin

text \<open>
  Shared vocabulary of the development: machine integers with Rust's saturating operations,
  the kernel's error type (src/crates/core/src/error.rs), the operations of \<^verbatim>\<open>str\<close> the
  sources use (on UTF-8 bytes), and the two dictionary types of the standard library, a
  \<^verbatim>\<open>HashMap\<close> as an association list with distinct keys and a \<^verbatim>\<open>BTreeMap\<close> as one
  sorted by key.
\<close>

section \<open>Machine integers, instants and durations\<close>

type_synonym u32 = "32 word"
type_synonym u64 = "64 word"

text \<open>A \<^verbatim>\<open>Duration\<close> is a number of nanoseconds; it is never negative.\<close>

type_synonym duration = nat

text \<open>A \<^verbatim>\<open>Timestamp\<close> is a number of milliseconds since the epoch, a \<^verbatim>\<open>u64\<close>.\<close>

type_synonym timestamp = u64

named_theorems unat_sat \<open>saturating operations read as natural numbers\<close>

definition sat_add :: "'a::len word \<Rightarrow> 'a word \<Rightarrow> 'a word" where
  "sat_add a b = (if unat a + unat b < 2 ^ LENGTH('a) then a + b else - 1)"

definition sat_sub :: "'a::len word \<Rightarrow> 'a word \<Rightarrow> 'a word" where
  "sat_sub a b = (if b \<le> a then a - b else 0)"

definition sat_mul :: "'a::len word \<Rightarrow> 'a word \<Rightarrow> 'a word" where
  "sat_mul a b = (if unat a * unat b < 2 ^ LENGTH('a) then a * b else - 1)"

lemma unat_max_word: "unat (- 1 :: 'a::len word) = 2 ^ LENGTH('a) - 1"
  by (simp add: unsigned_minus_1_eq_mask mask_eq_exp_minus_1)

lemma unat_less_pow: "unat (a :: 'a::len word) < 2 ^ LENGTH('a)"
  by (rule unsigned_less)

lemma unat_le_max: "unat (a :: 'a::len word) \<le> 2 ^ LENGTH('a) - Suc 0"
  using unat_less_pow [of a] by linarith

lemma unat_sat_add [unat_sat]:
  "unat (sat_add a b) = min (unat a + unat b) (2 ^ LENGTH('a) - 1)" for a b :: "'a::len word"
  by (auto simp: sat_add_def unat_max_word unat_word_ariths min_def)

lemma unat_sat_sub [unat_sat]: "unat (sat_sub a b) = unat a - unat b"
  by (auto simp: sat_sub_def unat_sub word_le_nat_alt)

lemma unat_sat_mul [unat_sat]:
  "unat (sat_mul a b) = min (unat a * unat b) (2 ^ LENGTH('a) - 1)" for a b :: "'a::len word"
proof (cases "unat a * unat b < 2 ^ LENGTH('a)")
  case True
  then show ?thesis by (simp add: sat_mul_def unat_word_ariths)
next
  case False
  then have "2 ^ LENGTH('a) - 1 \<le> unat a * unat b" by linarith
  with False show ?thesis by (simp add: sat_mul_def unat_max_word)
qed

lemma sat_add_ge: "a \<le> sat_add a b"
  using unat_le_max [of a] by (auto simp: word_le_nat_alt unat_sat)

lemma sat_add_commute: "sat_add a b = sat_add b a"
  by (simp add: sat_add_def add.commute)

lemma sat_add_assoc: "sat_add (sat_add a b) c = sat_add a (sat_add b c)"
proof -
  have "unat (sat_add (sat_add a b) c) = unat (sat_add a (sat_add b c))"
    by (auto simp: unat_sat min_def)
  then show ?thesis by (rule unsigned_word_eqI)
qed

lemma sat_add_zero [simp]: "sat_add a 0 = a" "sat_add 0 a = a"
  using unat_less_pow [of a] by (auto simp: sat_add_def)

lemma sat_add_mono: "a \<le> b \<Longrightarrow> sat_add a c \<le> sat_add b c"
  by (auto simp: word_le_nat_alt unat_sat)

lemma unat_plus_one: "b \<noteq> - 1 \<Longrightarrow> unat (b + 1) = unat b + 1" for b :: u64
  using unatSuc [of b] by (simp add: add.commute add_eq_0_iff)

text \<open>\<^verbatim>\<open>Duration::as_millis\<close> and \<^verbatim>\<open>Duration::from_millis\<close>; the first is a
  \<^verbatim>\<open>u128\<close>, which every duration fits.\<close>

definition as_millis :: "duration \<Rightarrow> nat" where
  "as_millis d = d div 1000000"

definition from_millis :: "u64 \<Rightarrow> duration" where
  "from_millis ms = unat ms * 1000000"

lemma as_millis_from_millis [simp]: "as_millis (from_millis ms) = unat ms"
  by (simp add: as_millis_def from_millis_def)

text \<open>\<^verbatim>\<open>u64::try_from(millis).unwrap_or(u64::MAX)\<close>.\<close>

definition u64_try_from :: "nat \<Rightarrow> u64" where
  "u64_try_from n = (if n < 2 ^ 64 then word_of_nat n else - 1)"

lemma unat_u64_try_from [unat_sat]: "unat (u64_try_from n) = min n (2 ^ 64 - 1)"
  by (auto simp: u64_try_from_def unat_max_word unat_of_nat min_def)

text \<open>\<^verbatim>\<open>Timestamp::saturating_add\<close> and \<^verbatim>\<open>Timestamp::saturating_since\<close>
  (src/crates/core/src/clock.rs); the first casts the milliseconds \<^verbatim>\<open>as u64\<close>, which keeps
  the low 64 bits.\<close>

definition ts_add :: "timestamp \<Rightarrow> duration \<Rightarrow> timestamp" where
  "ts_add t d = sat_add t (word_of_nat (as_millis d))"

definition ts_since :: "timestamp \<Rightarrow> timestamp \<Rightarrow> duration" where
  "ts_since t earlier = from_millis (sat_sub t earlier)"

lemma ts_add_from_millis [simp]: "ts_add t (from_millis ms) = sat_add t ms"
  by (simp add: ts_add_def)

lemma ts_since_zero_iff: "ts_since t s = 0 \<longleftrightarrow> t \<le> s"
  by (auto simp: ts_since_def from_millis_def unat_sat word_le_nat_alt)

lemma ts_since_mono: "t \<le> t' \<Longrightarrow> ts_since t s \<le> ts_since t' s"
  by (simp add: ts_since_def from_millis_def unat_sat word_le_nat_alt diff_le_mono)

lemma ts_since_ts_add: "ts_since (ts_add t d) t \<le> d"
proof -
  have "unat (word_of_nat (as_millis d) :: u64) \<le> as_millis d"
    by (simp add: unsigned_of_nat take_bit_nat_less_eq_self)
  then have "unat (sat_sub (ts_add t d) t) \<le> as_millis d"
    by (auto simp: ts_add_def unat_sat)
  then have "from_millis (sat_sub (ts_add t d) t) \<le> as_millis d * 1000000"
    by (simp add: from_millis_def)
  also have "\<dots> \<le> d" by (simp add: as_millis_def)
  finally show ?thesis by (simp add: ts_since_def)
qed

text \<open>\<^verbatim>\<open>i64::try_from\<close> of a 64-bit count of milliseconds.\<close>

definition i64_of :: "timestamp \<Rightarrow> int option" where
  "i64_of at = (if unat at < 2 ^ 63 then Some (int (unat at)) else None)"

section \<open>Operations of \<^verbatim>\<open>str\<close>\<close>

text \<open>A \<^verbatim>\<open>str\<close> is its list of UTF-8 bytes, so its length is \<^verbatim>\<open>str::len\<close> and
  the order of lists is the byte order Rust compares strings by.\<close>

fun strip_prefix :: "string \<Rightarrow> string \<Rightarrow> string option" where
  "strip_prefix [] s = Some s"
| "strip_prefix (p # ps) [] = None"
| "strip_prefix (p # ps) (c # cs) = (if p = c then strip_prefix ps cs else None)"

definition strip_suffix :: "string \<Rightarrow> string \<Rightarrow> string option" where
  "strip_suffix p s = map_option rev (strip_prefix (rev p) (rev s))"

definition starts_with :: "string \<Rightarrow> string \<Rightarrow> bool" where
  "starts_with s p \<longleftrightarrow> strip_prefix p s \<noteq> None"

definition ends_with :: "string \<Rightarrow> string \<Rightarrow> bool" where
  "ends_with s p \<longleftrightarrow> strip_suffix p s \<noteq> None"

lemma strip_prefix_iff: "strip_prefix p s = Some r \<longleftrightarrow> s = p @ r"
  by (induction p s rule: strip_prefix.induct) auto

lemma strip_prefix_None_iff: "strip_prefix p s = None \<longleftrightarrow> (\<nexists>r. s = p @ r)"
  by (metis not_Some_eq strip_prefix_iff)

lemma strip_suffix_iff: "strip_suffix p s = Some r \<longleftrightarrow> s = r @ p"
proof -
  have "strip_suffix p s = Some r \<longleftrightarrow> strip_prefix (rev p) (rev s) = Some (rev r)"
    by (auto simp: strip_suffix_def)
  also have "\<dots> \<longleftrightarrow> rev s = rev (r @ p)" by (simp add: strip_prefix_iff)
  also have "\<dots> \<longleftrightarrow> s = r @ p" by (rule rev_is_rev_conv)
  finally show ?thesis .
qed

lemma strip_suffix_None_iff: "strip_suffix p s = None \<longleftrightarrow> (\<nexists>r. s = r @ p)"
  by (metis not_Some_eq strip_suffix_iff)

lemma starts_with_iff: "starts_with s p \<longleftrightarrow> (\<exists>r. s = p @ r)"
  by (simp add: starts_with_def strip_prefix_None_iff)

lemma ends_with_iff: "ends_with s p \<longleftrightarrow> (\<exists>r. s = r @ p)"
  by (simp add: ends_with_def strip_suffix_None_iff)

text \<open>\<^verbatim>\<open>str::split(char)\<close>: at least one piece, empty pieces kept.\<close>

fun split_on :: "char \<Rightarrow> string \<Rightarrow> string list" where
  "split_on d [] = [[]]"
| "split_on d (c # cs) =
     (if c = d then [] # split_on d cs
      else (case split_on d cs of [] \<Rightarrow> [[c]] | p # ps \<Rightarrow> (c # p) # ps))"

lemma split_on_nonempty [simp]: "split_on d s \<noteq> []"
  by (induction s) (auto split: list.splits)

fun join_with :: "string \<Rightarrow> string list \<Rightarrow> string" where
  "join_with sep [] = []"
| "join_with sep [p] = p"
| "join_with sep (p # q # ps) = p @ sep @ join_with sep (q # ps)"

lemma join_split: "join_with [d] (split_on d s) = s"
proof (induction s)
  case (Cons c cs)
  then show ?case
    by (cases "split_on d cs"; cases "tl (split_on d cs)") (auto split: list.splits)
qed simp

text \<open>\<^verbatim>\<open>str::to_ascii_lowercase\<close>, byte by byte.\<close>

definition ascii_lower :: "char \<Rightarrow> char" where
  "ascii_lower c = (let n = of_char c :: nat in if 65 \<le> n \<and> n \<le> 90 then char_of (n + 32) else c)"

definition to_ascii_lowercase :: "string \<Rightarrow> string" where
  "to_ascii_lowercase = map ascii_lower"

text \<open>\<^verbatim>\<open>str::trim\<close>: the Unicode white space, as UTF-8 byte sequences, cut from both ends.\<close>

definition white_space :: "nat list list" where
  "white_space = map (\<lambda>b. [b]) [9, 10, 11, 12, 13, 32] @ [[194, 133], [194, 160], [225, 154, 128]]
     @ map (\<lambda>b. [226, 128, b]) [128, 129, 130, 131, 132, 133, 134, 135, 136, 137, 138, 168, 169, 175]
     @ [[226, 129, 159], [227, 128, 128]]"

definition skip_white :: "string list \<Rightarrow> string \<Rightarrow> string option" where
  "skip_white ws s = map_option (\<lambda>w. drop (length w) s) (find (\<lambda>w. starts_with s w) ws)"

lemma skip_white_shorter:
  "skip_white ws s = Some r \<Longrightarrow> [] \<notin> set ws \<Longrightarrow> length r < length s"
  by (auto simp: skip_white_def find_Some_iff starts_with_iff length_greater_0_conv) 
    (metis length_greater_0_conv nth_mem trans_less_add1)

function trim_with :: "string list \<Rightarrow> string \<Rightarrow> string" where
  "trim_with ws s =
     (if [] \<in> set ws then s
      else case skip_white ws s of None \<Rightarrow> s | Some r \<Rightarrow> trim_with ws r)"
  by pat_completeness auto
termination
  by (relation "measure (\<lambda>(ws, s). length s)") (auto dest: skip_white_shorter)

declare trim_with.simps [simp del]

definition trim :: "string \<Rightarrow> string" where
  "trim s =
     (let ws = map (map char_of) white_space
      in rev (trim_with (map rev ws) (rev (trim_with ws s))))"

text \<open>The decimal form a number is formatted with, and \<^verbatim>\<open>str::parse\<close> of an unsigned
  integer of the given width: an optional plus sign, at least one digit, no overflow.\<close>

fun dec :: "nat \<Rightarrow> string" where
  "dec n = (if n < 10 then [char_of (48 + n)] else dec (n div 10) @ [char_of (48 + n mod 10)])"

declare dec.simps [simp del]

definition digit_value :: "char \<Rightarrow> nat option" where
  "digit_value c =
     (let n = of_char c :: nat in if 48 \<le> n \<and> n \<le> 57 then Some (n - 48) else None)"

fun digits_value :: "string \<Rightarrow> nat \<Rightarrow> nat option" where
  "digits_value [] acc = Some acc"
| "digits_value (c # cs) acc =
     (case digit_value c of None \<Rightarrow> None | Some d \<Rightarrow> digits_value cs (10 * acc + d))"

definition parse_unsigned :: "nat \<Rightarrow> string \<Rightarrow> nat option" where
  "parse_unsigned width s =
     (let body = (case s of c # cs \<Rightarrow> if c = CHR ''+'' then cs else s | [] \<Rightarrow> s)
      in if body = [] then None
         else case digits_value body 0 of
             None \<Rightarrow> None
           | Some n \<Rightarrow> if n < 2 ^ width then Some n else None)"

lemma digits_value_append:
  "digits_value (s @ t) acc = Option.bind (digits_value s acc) (digits_value t)"
  by (induction s arbitrary: acc) (auto split: option.splits)

lemma digit_value_digit: "n < 10 \<Longrightarrow> digit_value (char_of (48 + n)) = Some n"
  by (simp add: digit_value_def Let_def)

lemma digits_value_dec: "digits_value (dec n) 0 = Some n"
proof (induction n rule: dec.induct)
  case (1 n)
  show ?case
  proof (cases "n < 10")
    case True
    then show ?thesis by (simp add: dec.simps [of n] digit_value_digit)
  next
    case False
    with 1 show ?thesis
      by (simp add: dec.simps [of n] digits_value_append digit_value_digit)
  qed
qed

lemma dec_nonempty [simp]: "dec n \<noteq> []"
  by (subst dec.simps) simp

section \<open>Searching\<close>

lemma find_split:
  "find P xs = Some x \<Longrightarrow> \<exists>ys zs. xs = ys @ x # zs \<and> P x \<and> (\<forall>y \<in> set ys. \<not> P y)"
proof (induction xs)
  case (Cons a xs)
  show ?case
  proof (cases "P a")
    case True
    with Cons.prems show ?thesis by (intro exI [of _ "[]"] exI [of _ xs]) simp
  next
    case False
    with Cons obtain ys zs where "xs = ys @ x # zs" "P x" "\<forall>y \<in> set ys. \<not> P y" by auto
    with False show ?thesis by (intro exI [of _ "a # ys"] exI [of _ zs]) simp
  qed
qed simp

section \<open>Dictionaries\<close>

text \<open>The interface both dictionary types of the standard library offer: \<open>get\<close>,
  \<open>insert\<close> and \<open>remove\<close>, over an invariant of the representation.\<close>

locale dictionary =
  fixes get :: "'m \<Rightarrow> 'k \<Rightarrow> 'v option"
    and put :: "'k \<Rightarrow> 'v \<Rightarrow> 'm \<Rightarrow> 'm"
    and del :: "'k \<Rightarrow> 'm \<Rightarrow> 'm"
    and inv :: "'m \<Rightarrow> bool"
  assumes get_put: "inv m \<Longrightarrow> get (put k v m) = (get m)(k \<mapsto> v)"
    and get_del: "inv m \<Longrightarrow> get (del k m) = (get m)(k := None)"
    and inv_put: "inv m \<Longrightarrow> inv (put k v m)"
    and inv_del: "inv m \<Longrightarrow> inv (del k m)"
begin

lemma dom_put: "inv m \<Longrightarrow> dom (get (put k v m)) = insert k (dom (get m))"
  by (simp add: get_put)

lemma dom_del: "inv m \<Longrightarrow> dom (get (del k m)) = dom (get m) - {k}"
  by (simp add: get_del)

lemma put_overwrites: "inv m \<Longrightarrow> get (put k v (put k w m)) = get (put k v m)"
  by (simp add: get_put inv_put)

lemma del_put: "inv m \<Longrightarrow> get (del k (put k v m)) = get (del k m)"
  by (simp add: get_put get_del inv_put)

lemma put_commute:
  "inv m \<Longrightarrow> j \<noteq> k \<Longrightarrow> get (put j v (put k w m)) = get (put k w (put j v m))"
  by (simp add: get_put inv_put fun_upd_twist)

end

text \<open>\<^verbatim>\<open>HashMap\<close>: an association list with distinct keys. Its order carries no meaning;
  where the sources iterate one, they sort what they collect.\<close>

type_synonym ('k, 'v) hash_map = "('k \<times> 'v) list"

abbreviation hm_inv :: "('k, 'v) hash_map \<Rightarrow> bool" where
  "hm_inv m \<equiv> distinct (map fst m)"

interpretation hash_map: dictionary map_of AList.update AList.delete hm_inv
  by unfold_locales (auto simp: update_conv' delete_conv' distinct_update distinct_delete)

lemma hm_delete_dom: "hm_inv m \<Longrightarrow> fst ` set (AList.delete k m) = fst ` set m - {k}"
  using hash_map.dom_del [of m k] by (simp add: dom_map_of_conv_image_fst)

text \<open>\<^verbatim>\<open>BTreeMap\<close>: an association list sorted by strictly increasing keys.\<close>

type_synonym ('k, 'v) btree_map = "('k \<times> 'v) list"

abbreviation bt_inv :: "('k::linorder, 'v) btree_map \<Rightarrow> bool" where
  "bt_inv m \<equiv> sorted_wrt (<) (map fst m)"

fun bt_insert :: "'k::linorder \<Rightarrow> 'v \<Rightarrow> ('k, 'v) btree_map \<Rightarrow> ('k, 'v) btree_map" where
  "bt_insert k v [] = [(k, v)]"
| "bt_insert k v (e # m) =
     (if fst e < k then e # bt_insert k v m
      else if fst e = k then (k, v) # m else (k, v) # e # m)"

definition bt_remove :: "'k \<Rightarrow> ('k, 'v) btree_map \<Rightarrow> ('k, 'v) btree_map" where
  "bt_remove k m = filter (\<lambda>e. fst e \<noteq> k) m"

lemma bt_inv_distinct: "bt_inv m \<Longrightarrow> distinct (map fst m)"
  using strict_sorted_iff by blast

lemma bt_inv_sorted: "bt_inv m \<Longrightarrow> sorted (map fst m)"
  using strict_sorted_iff by blast

lemma bt_insert_keys: "set (map fst (bt_insert k v m)) = insert k (set (map fst m))"
  by (induction m) auto

lemma set_bt_insert: "set (bt_insert k v m) \<subseteq> insert (k, v) (set m)"
  by (induction m) auto

lemma bt_insert_inv: "bt_inv m \<Longrightarrow> bt_inv (bt_insert k v m)"
proof (induction m)
  case (Cons e m)
  then show ?case using bt_insert_keys [of k v m] by (auto simp del: set_map)
qed simp

lemma bt_insert_get: "bt_inv m \<Longrightarrow> map_of (bt_insert k v m) = (map_of m)(k \<mapsto> v)"
  by (induction m) (auto simp: fun_eq_iff)

lemma bt_remove_get: "map_of (bt_remove k m) = (map_of m)(k := None)"
  unfolding bt_remove_def by (induction m) (auto simp: fun_eq_iff)

lemma bt_remove_inv: "bt_inv m \<Longrightarrow> bt_inv (bt_remove k m)"
  unfolding bt_remove_def by (induction m) auto

interpretation btree_map: dictionary map_of bt_insert bt_remove bt_inv
  by unfold_locales (simp_all add: bt_insert_get bt_remove_get bt_insert_inv bt_remove_inv)

lemma bt_remove_keys: "map fst (bt_remove k m) = filter (\<lambda>j. j \<noteq> k) (map fst m)"
  by (simp add: bt_remove_def filter_map comp_def)

text \<open>Two sorted maps with the same lookups are the same list.\<close>

lemma bt_ext: "bt_inv m \<Longrightarrow> bt_inv n \<Longrightarrow> map_of m = map_of n \<Longrightarrow> m = n"
proof -
  assume m: "bt_inv m" and n: "bt_inv n" and eq: "map_of m = map_of n"
  have dm: "distinct (map fst m)" and dn: "distinct (map fst n)"
    using m n by (simp_all add: bt_inv_distinct)
  have "set m = set n"
    using map_of_inject_set [OF dm dn] eq by simp
  moreover from this have "inj_on fst (set m \<union> set n)"
    using dm by (simp add: distinct_map)
  moreover have "map fst m = map fst n"
    using sorted_distinct_set_unique [OF bt_inv_sorted [OF m] dm bt_inv_sorted [OF n] dn]
      \<open>set m = set n\<close> by simp
  ultimately show "m = n" by (simp add: inj_on_map_eq_map)
qed

end
