(* ===== verification/Aik_Error.thy ===== *)
theory Aik_Error
  imports Aik_Prelude
begin

text \<open>
  The kernel's error type and its classification (src/crates/core/src/error.rs) and the
  transient-failure marker that model providers put into an error's source chain
  (src/crates/api/src/resilience.rs). A fallible operation returns \<open>error + 'a\<close>, \<open>Inl\<close>
  the error.
\<close>

section \<open>The error type\<close>

datatype lifecycle_phase = Init | Start | Stop

datatype error_kind =
    KConfig | KNotFound | KConflict | KWiring | KLifecycle | KInvalidArgument | KUnsupported
  | KPermission | KConfinement | KTimeout | KCancelled | KSerialization | KOther

text \<open>A boxed source is another kernel error, a transient failure (its detail, the wait it asks
  for and its own source) or an error of a library, of which only the chain matters.\<close>

datatype error =
    Config string string
  | NotFound string string
  | AlreadyExists string string
  | Ambiguous string "string list"
  | MissingDependency string string
  | DependencyCycle "string list"
  | Lifecycle string
  | Component string lifecycle_phase box_error
  | InvalidArgument string
  | Unsupported string
  | PermissionDenied string
  | Confinement string
  | Timeout duration
  | Cancelled
  | Serialization box_error
  | Other string "box_error option"
and box_error =
    BoxError error
  | BoxTransient string "duration option" "box_error option"
  | BoxForeign string "box_error option"

type_synonym 'a result = "error + 'a"

fun kind :: "error \<Rightarrow> error_kind" where
  "kind (Config _ _) = KConfig"
| "kind (NotFound _ _) = KNotFound"
| "kind (AlreadyExists _ _) = KConflict"
| "kind (Ambiguous _ _) = KWiring"
| "kind (MissingDependency _ _) = KWiring"
| "kind (DependencyCycle _) = KWiring"
| "kind (Lifecycle _) = KLifecycle"
| "kind (Component _ _ _) = KLifecycle"
| "kind (InvalidArgument _) = KInvalidArgument"
| "kind (Unsupported _) = KUnsupported"
| "kind (PermissionDenied _) = KPermission"
| "kind (Confinement _) = KConfinement"
| "kind (Timeout _) = KTimeout"
| "kind Cancelled = KCancelled"
| "kind (Serialization _) = KSerialization"
| "kind (Other _ _) = KOther"

text \<open>The lower-cased \<^verbatim>\<open>Debug\<close> name of a kind, which the audit trail and the agent record
  in place of a message.\<close>

fun classify :: "error_kind \<Rightarrow> string" where
  "classify KConfig = ''config''"
| "classify KNotFound = ''notfound''"
| "classify KConflict = ''conflict''"
| "classify KWiring = ''wiring''"
| "classify KLifecycle = ''lifecycle''"
| "classify KInvalidArgument = ''invalidargument''"
| "classify KUnsupported = ''unsupported''"
| "classify KPermission = ''permission''"
| "classify KConfinement = ''confinement''"
| "classify KTimeout = ''timeout''"
| "classify KCancelled = ''cancelled''"
| "classify KSerialization = ''serialization''"
| "classify KOther = ''other''"

definition other :: "string \<Rightarrow> error" where
  "other context = Other context None"

definition wrap :: "string \<Rightarrow> box_error \<Rightarrow> error" where
  "wrap context source = Other context (Some source)"

text \<open>\<^verbatim>\<open>std::error::Error::source\<close>, as the derive of the error type gives it: the marked
  fields of \<open>Component\<close>, \<open>Serialization\<close> and \<open>Other\<close>.\<close>

fun error_source :: "error \<Rightarrow> box_error option" where
  "error_source (Component _ _ source) = Some source"
| "error_source (Serialization source) = Some source"
| "error_source (Other _ source) = source"
| "error_source _ = None"

fun box_source :: "box_error \<Rightarrow> box_error option" where
  "box_source (BoxError e) = error_source e"
| "box_source (BoxTransient _ _ source) = source"
| "box_source (BoxForeign _ source) = source"

section \<open>Transient failures\<close>

record transient_mark =
  tf_detail :: string
  tf_retry_after :: "duration option"

lemma error_source_smaller: "error_source e = Some b \<Longrightarrow> size b < size e"
  by (cases e) auto

text \<open>The walk down the source chain of \<^verbatim>\<open>transient_failure\<close>; it ends because a source is
  part of the error that holds it.\<close>

function find_transient :: "box_error option \<Rightarrow> transient_mark option" where
  "find_transient None = None"
| "find_transient (Some (BoxTransient detail after source)) =
     Some \<lparr>tf_detail = detail, tf_retry_after = after\<rparr>"
| "find_transient (Some (BoxForeign text source)) = find_transient source"
| "find_transient (Some (BoxError e)) = find_transient (error_source e)"
  by pat_completeness auto

termination
proof (relation "measure (\<lambda>b. case b of None \<Rightarrow> 0 | Some x \<Rightarrow> Suc (size x))")
  fix e
  show "(error_source e, Some (BoxError e))
    \<in> measure (\<lambda>b. case b of None \<Rightarrow> 0 | Some x \<Rightarrow> Suc (size x))"
    by (auto split: option.splits dest: error_source_smaller)
qed (auto split: option.splits)

definition transient_failure :: "error \<Rightarrow> transient_mark option" where
  "transient_failure e =
     (case e of
        Cancelled \<Rightarrow> None
      | Timeout _ \<Rightarrow> None
      | _ \<Rightarrow> find_transient (error_source e))"

text \<open>\<^verbatim>\<open>TransientFailure::new(detail).after(delay).wrapped(context)\<close>.\<close>

definition transient_wrapped :: "string \<Rightarrow> duration option \<Rightarrow> string \<Rightarrow> error" where
  "transient_wrapped detail after context = wrap context (BoxTransient detail after None)"

text \<open>The HTTP statuses a provider marks transient.\<close>

definition transient_status :: "nat \<Rightarrow> bool" where
  "transient_status status \<longleftrightarrow> status \<in> set [408, 409, 429, 500, 502, 503, 504, 529]"

lemma transient_wrapped_found [simp]:
  "transient_failure (transient_wrapped d a c) = Some \<lparr>tf_detail = d, tf_retry_after = a\<rparr>"
  by (simp add: transient_failure_def transient_wrapped_def wrap_def)

lemma wrap_keeps_transient:
  "transient_failure e \<noteq> None \<Longrightarrow> transient_failure (wrap c (BoxError e)) = transient_failure e"
  by (cases e) (auto simp: transient_failure_def wrap_def)

lemma transient_not_stopped: "transient_failure e \<noteq> None \<Longrightarrow> kind e \<notin> {KCancelled, KTimeout}"
  by (cases e) (auto simp: transient_failure_def)

end
