(* ===== verification/Aik_Graph.thy ===== *)
theory Aik_Graph
  imports Aik_Error
begin

text \<open>
  Component descriptors (src/crates/core/src/component.rs) and the dependency resolution that
  orders them for startup (src/crates/core/src/graph.rs). The worklist algorithm of the code,
  with its counters, is shown to compute the greedy order of an abstract specification, and
  the soundness, completeness and determinism of that order are proved there.
\<close>

section \<open>Descriptors\<close>

record dependency =
  dep_id :: string
  dep_optional :: bool

record component_descriptor =
  cd_id :: string
  cd_description :: "string option"
  cd_dependencies :: "dependency list"
  cd_metadata :: "(string, string) btree_map"

definition descriptor_new :: "string \<Rightarrow> component_descriptor" where
  "descriptor_new i =
     \<lparr>cd_id = i, cd_description = None, cd_dependencies = [], cd_metadata = []\<rparr>"

definition requires :: "component_descriptor \<Rightarrow> string \<Rightarrow> component_descriptor" where
  "requires d i =
     d\<lparr>cd_dependencies := cd_dependencies d @ [\<lparr>dep_id = i, dep_optional = False\<rparr>]\<rparr>"

definition optionally_requires :: "component_descriptor \<Rightarrow> string \<Rightarrow> component_descriptor" where
  "optionally_requires d i =
     d\<lparr>cd_dependencies := cd_dependencies d @ [\<lparr>dep_id = i, dep_optional = True\<rparr>]\<rparr>"

section \<open>resolve\_order\<close>

text \<open>The inner loop over one descriptor's dependencies: it counts the registered ones and
  records the reverse edges.\<close>

fun count_deps ::
  "string list \<Rightarrow> string \<Rightarrow> dependency list \<Rightarrow> nat \<Rightarrow> (string, string list) hash_map
   \<Rightarrow> (nat \<times> (string, string list) hash_map) result" where
  "count_deps known self [] n dependents = Inr (n, dependents)"
| "count_deps known self (x # xs) n dependents =
     (if dep_id x \<notin> set known
      then (if dep_optional x then count_deps known self xs n dependents
            else Inl (MissingDependency self (dep_id x)))
      else if dep_id x = self then Inl (DependencyCycle [self])
      else count_deps known self xs (Suc n)
             (AList.update (dep_id x)
               ((case map_of dependents (dep_id x) of None \<Rightarrow> [] | Some ds \<Rightarrow> ds) @ [self])
               dependents))"

fun build_edges ::
  "string list \<Rightarrow> component_descriptor list \<Rightarrow> (string, string list) hash_map
   \<Rightarrow> (string, nat) btree_map
   \<Rightarrow> ((string, string list) hash_map \<times> (string, nat) btree_map) result" where
  "build_edges known [] dependents remaining = Inr (dependents, remaining)"
| "build_edges known (d # ds) dependents remaining =
     (case count_deps known (cd_id d) (cd_dependencies d) 0 dependents of
        Inl e \<Rightarrow> Inl e
      | Inr (n, dependents') \<Rightarrow>
          build_edges known ds dependents' (bt_insert (cd_id d) n remaining))"

text \<open>\<^verbatim>\<open>get_mut\<close> on a map and an assignment through it.\<close>

definition bt_modify :: "'k \<Rightarrow> ('v \<Rightarrow> 'v) \<Rightarrow> ('k, 'v) btree_map \<Rightarrow> ('k, 'v) btree_map" where
  "bt_modify k f m = map (\<lambda>e. if fst e = k then (k, f (snd e)) else e) m"

text \<open>The loop over the dependents of a component that was placed. A counter is a
  \<^verbatim>\<open>usize\<close>; taking one from zero is the arithmetic panic, \<open>None\<close>.\<close>

fun release ::
  "string list \<Rightarrow> (string, nat) btree_map \<Rightarrow> string list
   \<Rightarrow> ((string, nat) btree_map \<times> string list) option" where
  "release [] remaining ready = Some (remaining, ready)"
| "release (x # xs) remaining ready =
     (case map_of remaining x of
        None \<Rightarrow> release xs remaining ready
      | Some c \<Rightarrow>
          if c = 0 then None
          else release xs (bt_modify x (\<lambda>n. n - 1) remaining)
                 (if c - 1 = 0 then insort_insert x ready else ready))"

lemma sum_bt_modify_le: "sum_list (map snd (bt_modify k (\<lambda>n. n - 1) m)) \<le> sum_list (map snd m)"
  for m :: "('k, nat) btree_map"
  unfolding bt_modify_def by (induction m) auto

lemma sum_bt_modify_less:
  "map_of m k = Some c \<Longrightarrow> c \<noteq> 0 \<Longrightarrow>
   sum_list (map snd (bt_modify k (\<lambda>n. n - 1) m)) < sum_list (map snd m)"
  for m :: "('k, nat) btree_map"
proof (induction m)
  case (Cons e m)
  have "sum_list (map snd (bt_modify k (\<lambda>n. n - 1) m)) \<le> sum_list (map snd m)"
    by (rule sum_bt_modify_le)
  with Cons show ?case by (cases "fst e = k") (auto simp: bt_modify_def)
qed simp

lemma length_insort_insert: "length (insort_insert x xs) \<le> Suc (length xs)"
  by (simp add: insort_insert_key_def)

lemma release_measure:
  "release xs m r = Some (m', r') \<Longrightarrow>
   2 * sum_list (map snd m') + length r' \<le> 2 * sum_list (map snd m) + length r"
proof (induction xs arbitrary: m r)
  case (Cons x xs)
  show ?case
  proof (cases "map_of m x")
    case None
    with Cons show ?thesis by simp
  next
    case (Some c)
    with Cons.prems have c: "c \<noteq> 0"
      and rel: "release xs (bt_modify x (\<lambda>n. n - 1) m)
                  (if c - 1 = 0 then insort_insert x r else r) = Some (m', r')"
      by (auto split: if_splits)
    from Cons.IH [OF rel] sum_bt_modify_less [OF Some c] length_insort_insert [of x r]
    show ?thesis by (auto split: if_splits)
  qed
qed simp

lemma sum_filter_le: "sum_list (map snd (filter P m)) \<le> sum_list (map snd m)"
  for m :: "('k \<times> nat) list"
  by (induction m) auto

function drain ::
  "(string, string list) hash_map \<Rightarrow> (string, nat) btree_map \<Rightarrow> string list \<Rightarrow> string list
   \<Rightarrow> (string list \<times> (string, nat) btree_map) option" where
  "drain dependents remaining [] ordered = Some (ordered, remaining)"
| "drain dependents remaining (next # ready) ordered =
     (case release (case map_of dependents next of None \<Rightarrow> [] | Some ds \<Rightarrow> ds)
             (bt_remove next remaining) ready of
        None \<Rightarrow> None
      | Some (remaining', ready') \<Rightarrow> drain dependents remaining' ready' (ordered @ [next]))"
  by pat_completeness auto
termination
proof (relation "measure (\<lambda>(d, m, r, ord). 2 * sum_list (map snd m) + length r)",
       goal_cases)
  case (2 d m n r ord mr m' r')
  have "2 * sum_list (map snd m') + length r'
      \<le> 2 * sum_list (map snd (bt_remove n m)) + length r"
    using 2 by (intro release_measure) auto
  also have "\<dots> \<le> 2 * sum_list (map snd m) + length r"
    by (simp add: bt_remove_def sum_filter_le)
  finally show ?case by simp
qed simp

definition resolve_order :: "component_descriptor list \<Rightarrow> string list result option" where
  "resolve_order descriptors =
     (case build_edges (map cd_id descriptors) descriptors [] [] of
        Inl e \<Rightarrow> Some (Inl e)
      | Inr (dependents, remaining) \<Rightarrow>
          (case drain dependents remaining
                  (map fst (filter (\<lambda>e. snd e = 0) remaining)) [] of
             None \<Rightarrow> None
           | Some (ordered, left) \<Rightarrow>
               Some (if left \<noteq> [] then Inl (DependencyCycle (map fst left)) else Inr ordered)))"

section \<open>The greedy order\<close>

text \<open>The abstract specification: \<open>D c\<close> are the dependencies of \<open>c\<close> and \<open>R\<close> the
  components not placed yet. A component is ready when none of its dependencies is in \<open>R\<close>;
  the least ready one goes next.\<close>

definition ready_set :: "('k \<Rightarrow> 'k set) \<Rightarrow> 'k set \<Rightarrow> 'k set" where
  "ready_set D R = {c \<in> R. D c \<inter> R = {}}"

lemma ready_set_subset: "ready_set D R \<subseteq> R"
  by (auto simp: ready_set_def)

lemma Min_ready: "finite R \<Longrightarrow> ready_set D R \<noteq> {} \<Longrightarrow> Min (ready_set D R) \<in> ready_set D R"
  by (meson Min_in finite_subset ready_set_subset)

lemma Min_ready_mem: "finite R \<Longrightarrow> ready_set D R \<noteq> {} \<Longrightarrow> Min (ready_set D R) \<in> R"
  by (rule subsetD [OF ready_set_subset Min_ready])

function greedy :: "('k::linorder \<Rightarrow> 'k set) \<Rightarrow> 'k set \<Rightarrow> 'k list" where
  "greedy D R =
     (if finite R \<and> ready_set D R \<noteq> {}
      then Min (ready_set D R) # greedy D (R - {Min (ready_set D R)}) else [])"
  by pat_completeness auto

termination
proof (relation "measure (\<lambda>(D, R). card R)")
  fix D :: "'k::linorder \<Rightarrow> 'k set" and R :: "'k set"
  assume a: "finite R \<and> ready_set D R \<noteq> {}"
  then have "Min (ready_set D R) \<in> R" by (simp add: Min_ready_mem)
  with a show "((D, R - {Min (ready_set D R)}), D, R) \<in> measure (\<lambda>(D, R). card R)"
    by (simp add: card_Diff1_less del: card_Diff_insert)
qed simp

declare greedy.simps [simp del]

lemma greedy_step:
  "finite R \<Longrightarrow> ready_set D R \<noteq> {} \<Longrightarrow> n = Min (ready_set D R) \<Longrightarrow>
   greedy D R = n # greedy D (R - {n})"
  by (simp add: greedy.simps [of D R])

lemma greedy_stop: "ready_set D R = {} \<Longrightarrow> greedy D R = []"
  by (simp add: greedy.simps [of D R])

lemma greedy_subset: "set (greedy D R) \<subseteq> R"
proof (induction D R rule: greedy.induct)
  case (1 D R)
  show ?case
  proof (cases "finite R \<and> ready_set D R \<noteq> {}")
    case True
    then have "Min (ready_set D R) \<in> R" by (simp add: Min_ready_mem)
    moreover have "set (greedy D (R - {Min (ready_set D R)})) \<subseteq> R - {Min (ready_set D R)}"
      by (rule "1.IH" [OF True])
    ultimately show ?thesis using True by (auto simp: greedy_step)
  next
    case False
    then show ?thesis by (subst greedy.simps) auto
  qed
qed

lemma greedy_distinct: "distinct (greedy D R)"
proof (induction D R rule: greedy.induct)
  case (1 D R)
  show ?case
  proof (cases "finite R \<and> ready_set D R \<noteq> {}")
    case True
    have "Min (ready_set D R) \<notin> set (greedy D (R - {Min (ready_set D R)}))"
      using greedy_subset [of D "R - {Min (ready_set D R)}"] by blast
    with True "1.IH" [OF True] show ?thesis by (simp add: greedy_step)
  next
    case False
    then show ?thesis by (subst greedy.simps) auto
  qed
qed

text \<open>Every placed component comes after those of its dependencies that were to be placed.\<close>

lemma greedy_after_deps:
  "greedy D R = xs @ c # ys \<Longrightarrow> D c \<inter> R \<subseteq> set xs"
proof (induction D R arbitrary: xs rule: greedy.induct)
  case (1 D R)
  have step: "finite R \<and> ready_set D R \<noteq> {}"
    using "1.prems" by (auto simp: greedy.simps [of D R] split: if_splits)
  define n where "n = Min (ready_set D R)"
  have n: "n \<in> ready_set D R" using step unfolding n_def by (simp add: Min_ready)
  have eq: "n # greedy D (R - {n}) = xs @ c # ys"
    using "1.prems" step by (simp add: greedy_step n_def)
  show ?case
  proof (cases xs)
    case Nil
    with eq n show ?thesis by (auto simp: ready_set_def)
  next
    case (Cons x xs')
    with eq have "x = n" "greedy D (R - {n}) = xs' @ c # ys" by auto
    with "1.IH" [OF step, folded n_def] Cons show ?thesis by auto
  qed
qed

lemma greedy_least:
  "greedy D R = xs @ c # ys \<Longrightarrow> c = Min (ready_set D (R - set xs))"
proof (induction D R arbitrary: xs rule: greedy.induct)
  case (1 D R)
  have step: "finite R \<and> ready_set D R \<noteq> {}"
    using "1.prems" by (auto simp: greedy.simps [of D R] split: if_splits)
  define n where "n = Min (ready_set D R)"
  have eq: "n # greedy D (R - {n}) = xs @ c # ys"
    using "1.prems" step by (simp add: greedy_step n_def)
  show ?case
  proof (cases xs)
    case Nil
    with eq show ?thesis by (simp add: n_def)
  next
    case (Cons x xs')
    with eq have "x = n" "greedy D (R - {n}) = xs' @ c # ys" by auto
    with "1.IH" [OF step, folded n_def] Cons show ?thesis
      by (simp add: Diff_insert2 [symmetric])
  qed
qed

text \<open>What is left when no component is ready: each has a dependency among the rest.\<close>

lemma greedy_rest:
  "finite R \<Longrightarrow> ready_set D (R - set (greedy D R)) = {}"
proof (induction D R rule: greedy.induct)
  case (1 D R)
  show ?case
  proof (cases "ready_set D R = {}")
    case True
    then show ?thesis by (simp add: greedy_stop)
  next
    case False
    define n where "n = Min (ready_set D R)"
    have "ready_set D (R - {n} - set (greedy D (R - {n}))) = {}"
      using "1.IH" "1.prems" False by (simp add: n_def)
    moreover have "R - set (greedy D R) = R - {n} - set (greedy D (R - {n}))"
      using greedy_step [OF "1.prems" False n_def] by auto
    ultimately show ?thesis by simp
  qed
qed

lemma no_ready_cycle:
  assumes fin: "finite L" and stuck: "ready_set D L = {}" and ne: "L \<noteq> {}"
  shows "\<not> acyclic {(b, c). b \<in> D c}"
proof
  define r where "r = {(b, c). b \<in> L \<and> c \<in> L \<and> b \<in> D c}"
  assume ac: "acyclic {(b, c). b \<in> D c}"
  have "acyclic r" by (rule acyclic_subset [OF ac]) (auto simp: r_def)
  moreover have "finite r"
    by (rule finite_subset [where B = "L \<times> L"]) (auto simp: fin r_def)
  ultimately have "wf r" by (simp add: wf_iff_acyclic_if_finite)
  moreover from ne obtain a where "a \<in> L" by blast
  ultimately obtain c where c: "c \<in> L" and least: "\<And>b. (b, c) \<in> r \<Longrightarrow> b \<notin> L"
    by (rule wfE_min) blast
  have "D c \<inter> L = {}" using least c by (auto simp: r_def)
  with c have "c \<in> ready_set D L" by (simp add: ready_set_def)
  with stuck show False by simp
qed

section \<open>The worklist computes the greedy order\<close>

text \<open>The dependencies of a descriptor that are registered, with their multiplicity.\<close>

definition known_deps :: "string list \<Rightarrow> component_descriptor \<Rightarrow> string list" where
  "known_deps known d = filter (\<lambda>i. i \<in> set known) (map dep_id (cd_dependencies d))"

definition edges_of :: "(string, string list) hash_map \<Rightarrow> string \<Rightarrow> string list" where
  "edges_of m b = (case map_of m b of None \<Rightarrow> [] | Some ds \<Rightarrow> ds)"

definition well_wired :: "string list \<Rightarrow> component_descriptor \<Rightarrow> bool" where
  "well_wired known d \<longleftrightarrow>
     (\<forall>x \<in> set (cd_dependencies d).
        dep_id x \<noteq> cd_id d \<and> (dep_id x \<in> set known \<or> dep_optional x))"

abbreviation known_ids :: "string list \<Rightarrow> dependency list \<Rightarrow> string list" where
  "known_ids known xs \<equiv> filter (\<lambda>i. i \<in> set known) (map dep_id xs)"

lemma count_list_replicate: "count_list (replicate n x) y = (if x = y then n else 0)"
  by (induction n) auto

lemma edges_of_push:
  "edges_of (AList.update a (edges_of m a @ [c]) m) b = edges_of m b @ (if b = a then [c] else [])"
  by (simp add: edges_of_def update_conv')

lemma count_deps_push:
  "dep_id x \<in> set known \<Longrightarrow> dep_id x \<noteq> self \<Longrightarrow>
   count_deps known self (x # xs) n m =
     count_deps known self xs (Suc n)
       (AList.update (dep_id x) (edges_of m (dep_id x) @ [self]) m)"
  by (simp add: edges_of_def)

lemma count_deps_Inr:
  "count_deps known self xs n m = Inr (n', m') \<Longrightarrow>
   n' = n + length (known_ids known xs) \<and>
   (\<forall>b. edges_of m' b = edges_of m b @ replicate (count_list (known_ids known xs) b) self) \<and>
   (self \<in> set known \<longrightarrow>
     (\<forall>x \<in> set xs. dep_id x \<noteq> self \<and> (dep_id x \<in> set known \<or> dep_optional x)))"
proof (induction xs arbitrary: n m)
  case (Cons x xs)
  show ?case
  proof (cases "dep_id x \<in> set known \<and> dep_id x \<noteq> self")
    case True
    with Cons.prems have rest: "count_deps known self xs (Suc n)
        (AList.update (dep_id x) (edges_of m (dep_id x) @ [self]) m) = Inr (n', m')"
      by (simp add: count_deps_push del: count_deps.simps)
    from Cons.IH [OF rest] True show ?thesis
      by (simp add: edges_of_push replicate_app_Cons_same)
  next
    case False
    with Cons.prems have "dep_id x \<notin> set known" "dep_optional x"
      "count_deps known self xs n m = Inr (n', m')"
      by (auto split: if_splits)
    with Cons.IH [of n m] show ?thesis by auto
  qed
qed simp

lemma build_edges_Inr:
  "build_edges known ds m r = Inr (m', r') \<Longrightarrow> distinct (map cd_id ds) \<Longrightarrow> bt_inv r \<Longrightarrow>
   bt_inv r' \<and>
   map_of r' = map_of r ++ map_of (map (\<lambda>d. (cd_id d, length (known_deps known d))) ds) \<and>
   (\<forall>b c. count_list (edges_of m' b) c = count_list (edges_of m b) c +
      (case map_of (map (\<lambda>d. (cd_id d, count_list (known_deps known d) b)) ds) c of
         None \<Rightarrow> 0 | Some n \<Rightarrow> n)) \<and>
   (set (map cd_id ds) \<subseteq> set known \<longrightarrow> (\<forall>d \<in> set ds. well_wired known d))"
proof (induction ds arbitrary: m r)
  case (Cons d ds)
  from Cons.prems(1) obtain n m1 where
    cnt: "count_deps known (cd_id d) (cd_dependencies d) 0 m = Inr (n, m1)"
    and rest: "build_edges known ds m1 (bt_insert (cd_id d) n r) = Inr (m', r')"
    by (auto split: sum.splits)
  note c = count_deps_Inr [OF cnt]
  have nin: "cd_id d \<notin> set (map cd_id ds)" using Cons.prems(2) by simp
  then have none: "map_of (map (\<lambda>d. (cd_id d, f d)) ds) (cd_id d) = None" for f :: "_ \<Rightarrow> nat"
    by (auto simp: map_of_eq_None_iff)
  note ih = Cons.IH [OF rest _ bt_insert_inv [OF Cons.prems(3)]]
  have d: "distinct (map cd_id ds)" using Cons.prems(2) by simp
  have "map_of r' = map_of r ++ map_of (map (\<lambda>d. (cd_id d, length (known_deps known d))) (d # ds))"
    using ih [OF d] c Cons.prems(3) none [of "\<lambda>d. length (known_deps known d)"]
    by (auto simp: fun_eq_iff bt_insert_get known_deps_def map_add_def split: option.splits)
  moreover have "count_list (edges_of m' b) x = count_list (edges_of m b) x +
      (case map_of (map (\<lambda>d. (cd_id d, count_list (known_deps known d) b)) (d # ds)) x of
         None \<Rightarrow> 0 | Some n \<Rightarrow> n)" for b x
    using ih [OF d] c none [of "\<lambda>d. count_list (known_deps known d) b"]
    by (auto simp: known_deps_def count_list_append count_list_replicate split: option.splits)
  moreover have "set (map cd_id (d # ds)) \<subseteq> set known \<longrightarrow> (\<forall>d \<in> set (d # ds). well_wired known d)"
    using ih [OF d] c by (simp add: well_wired_def)
  ultimately show ?case using ih [OF d] by blast
qed (simp add: map_add_def)


lemma bt_modify_keys [simp]: "map fst (bt_modify k f m) = map fst m"
  by (simp add: bt_modify_def)

lemma bt_modify_get: "map_of (bt_modify k f m) = (map_of m)(k := map_option f (map_of m k))"
  unfolding bt_modify_def by (induction m) (auto simp: fun_eq_iff)

text \<open>Releasing the dependents of a placed component: each counter drops by the number of times
  its component is listed, and the components whose counter reaches zero become ready. The
  counters never underflow when they are at least that large.\<close>

lemma release_spec:
  assumes "\<And>c n. map_of m c = Some n \<Longrightarrow> count_list xs c \<le> n" "sorted r" "distinct r"
  shows "\<exists>m' r'. release xs m r = Some (m', r') \<and> map fst m' = map fst m \<and>
     (\<forall>c. map_of m' c = map_option (\<lambda>n. n - count_list xs c) (map_of m c)) \<and>
     sorted r' \<and> distinct r' \<and>
     set r' = set r \<union> {c \<in> set xs. map_of m c = Some (count_list xs c)}"
  using assms
proof (induction xs arbitrary: m r)
  case Nil
  then show ?case by (simp add: option.map_ident)
next
  case (Cons x xs)
  show ?case
  proof (cases "map_of m x")
    case None
    have le: "\<And>c k. map_of m c = Some k \<Longrightarrow> count_list xs c \<le> k"
      using Cons.prems(1) None by (metis count_list.simps(2) option.distinct(1))
    obtain m' r' where "release xs m r = Some (m', r')" "map fst m' = map fst m"
      "\<And>c. map_of m' c = map_option (\<lambda>n. n - count_list xs c) (map_of m c)"
      "sorted r'" "distinct r'"
      "set r' = set r \<union> {c \<in> set xs. map_of m c = Some (count_list xs c)}"
      using Cons.IH [OF le Cons.prems(2,3)] by blast
    with None show ?thesis by auto
  next
    case (Some n)
    define m1 where "m1 = bt_modify x (\<lambda>n. n - 1) m"
    define r1 where "r1 = (if n - 1 = 0 then insort_insert x r else r)"
    have get1: "map_of m1 c = (if c = x then Some (n - 1) else map_of m c)" for c
      using Some by (simp add: m1_def bt_modify_get)
    have n: "n = Suc (n - 1)" "count_list xs x \<le> n - 1"
      using Cons.prems(1) [OF Some] by auto
    have le: "\<And>c k. map_of m1 c = Some k \<Longrightarrow> count_list xs c \<le> k"
      using Cons.prems(1) n by (auto simp: get1 split: if_splits) (metis leD not_less)
    have r1: "sorted r1" "distinct r1" "set r1 = set r \<union> (if n = 1 then {x} else {})"
      using Cons.prems(2,3) n
      by (auto simp: r1_def sorted_insort_insert distinct_insort_insert set_insort_insert)
    obtain m' r' where rel: "release xs m1 r1 = Some (m', r')" and keys: "map fst m' = map fst m1"
      and get': "\<And>c. map_of m' c = map_option (\<lambda>n. n - count_list xs c) (map_of m1 c)"
      and r': "sorted r'" "distinct r'"
        "set r' = set r1 \<union> {c \<in> set xs. map_of m1 c = Some (count_list xs c)}"
      using Cons.IH [OF le r1(1,2)] by blast
    have "release (x # xs) m r = Some (m', r')"
      using rel Some n by (simp add: m1_def r1_def)
    moreover have "map_of m' c = map_option (\<lambda>n. n - count_list (x # xs) c) (map_of m c)" for c
      using Some n by (auto simp: get' get1)
    moreover have "set r' = set r \<union> {c \<in> set (x # xs). map_of m c = Some (count_list (x # xs) c)}"
    proof -
      obtain k where k: "n = Suc k" using n(1) by blast
      have "set r1 = set r \<union> (if k = 0 then {x} else {})" using r1(3) k by simp
      moreover have "map_of m1 c = (if c = x then Some k else map_of m c)" for c using get1 k by simp
      moreover have "count_list xs x \<le> k" using n(2) k by simp
      ultimately show ?thesis using Some k unfolding r'(3)
        by (auto simp: count_list_0_iff split: if_splits intro: ccontr [of "x \<in> set xs"])
    qed
    ultimately show ?thesis
      using keys r' by (auto simp: m1_def)
  qed
qed

text \<open>The state of the outer loop while the components of \<open>R\<close> are still to be placed.\<close>

definition loop_inv ::
  "(string \<Rightarrow> string list) \<Rightarrow> string set \<Rightarrow> (string, nat) btree_map \<Rightarrow> string list \<Rightarrow> bool" where
  "loop_inv D R remaining ready \<longleftrightarrow>
     finite R \<and> bt_inv remaining \<and>
     map_of remaining = (\<lambda>c. if c \<in> R then Some (length (filter (\<lambda>b. b \<in> R) (D c))) else None) \<and>
     sorted ready \<and> distinct ready \<and> set ready = ready_set (\<lambda>c. set (D c)) R"

lemma length_filter_remove:
  "n \<in> R \<Longrightarrow> length (filter (\<lambda>b. b \<in> R) ds) - count_list ds n = length (filter (\<lambda>b. b \<in> R - {n}) ds)"
  "n \<in> R \<Longrightarrow> count_list ds n \<le> length (filter (\<lambda>b. b \<in> R) ds)"
proof -
  assume n: "n \<in> R"
  have "length (filter (\<lambda>b. b \<in> R) ds) = count_list ds n + length (filter (\<lambda>b. b \<in> R - {n}) ds)"
    using n by (induction ds) auto
  then show "length (filter (\<lambda>b. b \<in> R) ds) - count_list ds n = length (filter (\<lambda>b. b \<in> R - {n}) ds)"
    "count_list ds n \<le> length (filter (\<lambda>b. b \<in> R) ds)" by simp_all
qed

lemma loop_inv_step:
  assumes inv: "loop_inv D R m (n # r)"
    and edges: "\<And>c. c \<in> R \<Longrightarrow> count_list es c = count_list (D c) n"
    and self: "n \<notin> set (D n)"
  shows "n \<in> R" "n = Min (ready_set (\<lambda>c. set (D c)) R)"
    "\<exists>m' r'. release es (bt_remove n m) r = Some (m', r') \<and> loop_inv D (R - {n}) m' r'"
proof -
  let ?S = "\<lambda>c. set (D c)"
  from inv have fin: "finite R" and bt: "bt_inv m" and ready: "set (n # r) = ready_set ?S R"
    and get: "map_of m = (\<lambda>c. if c \<in> R then Some (length (filter (\<lambda>b. b \<in> R) (D c))) else None)"
    and srt: "sorted (n # r)" and dst: "distinct (n # r)"
    by (auto simp: loop_inv_def)
  show nR: "n \<in> R" using ready ready_set_subset by fastforce
  show "n = Min (ready_set ?S R)"
    unfolding ready [symmetric] using srt by (intro Min_eqI [symmetric]) auto
  have get1: "map_of (bt_remove n m) = (\<lambda>c. if c \<in> R - {n}
      then Some (length (filter (\<lambda>b. b \<in> R) (D c))) else None)"
    by (auto simp: bt_remove_get get fun_eq_iff)
  have le: "count_list es c \<le> k" if "map_of (bt_remove n m) c = Some k" for c k
    using that edges length_filter_remove(2) [OF nR] by (auto simp: get1 split: if_splits)
  have sr: "sorted r" "distinct r" using srt dst by auto
  obtain m' r' where rel: "release es (bt_remove n m) r = Some (m', r')"
    and keys: "map fst m' = map fst (bt_remove n m)"
    and get': "\<And>c. map_of m' c = map_option (\<lambda>k. k - count_list es c) (map_of (bt_remove n m) c)"
    and r': "sorted r'" "distinct r'"
      "set r' = set r \<union> {c \<in> set es. map_of (bt_remove n m) c = Some (count_list es c)}"
    using release_spec [OF le sr] by blast
  have g': "map_of m' c = (if c \<in> R - {n} then Some (length (filter (\<lambda>b. b \<in> R - {n}) (D c))) else None)"
    for c using edges length_filter_remove(1) [OF nR] by (auto simp: get' get1)
  have zero: "length (filter (\<lambda>b. b \<in> R) (D c)) = count_list (D c) n
      \<longleftrightarrow> set (D c) \<inter> (R - {n}) = {}" for c
  proof -
    have "set (D c) \<inter> (R - {n}) = {} \<longleftrightarrow> length (filter (\<lambda>b. b \<in> R - {n}) (D c)) = 0"
      by (auto simp: filter_empty_conv)
    with length_filter_remove [OF nR, of "D c"] show ?thesis by linarith
  qed
  have "set r = ready_set ?S R - {n}" using ready dst by auto
  moreover have "c \<in> set es \<longleftrightarrow> n \<in> set (D c)" if "c \<in> R" for c
    using edges [OF that] by (metis count_list_0_iff)
  ultimately have "set r' = ready_set ?S (R - {n})"
    using edges zero by (auto simp: r'(3) ready_set_def get1 split: if_splits)
  moreover have "bt_inv m'" using bt keys bt_remove_inv by metis
  ultimately have "loop_inv D (R - {n}) m' r'"
    using fin g' r' by (simp add: loop_inv_def fun_eq_iff)
  with rel show "\<exists>m' r'. release es (bt_remove n m) r = Some (m', r') \<and> loop_inv D (R - {n}) m' r'"
    by blast
qed

lemma drain_greedy:
  assumes "loop_inv D R m r" "\<And>b c. c \<in> R \<Longrightarrow> count_list (edges_of dependents b) c = count_list (D c) b"
    "\<And>c. c \<notin> set (D c)"
  shows "\<exists>left. drain dependents m r ord = Some (ord @ greedy (\<lambda>c. set (D c)) R, left) \<and>
     bt_inv left \<and> set (map fst left) = R - set (greedy (\<lambda>c. set (D c)) R)"
  using assms
proof (induction dependents m r ord arbitrary: R rule: drain.induct)
  case (1 dependents m ord)
  then have "ready_set (\<lambda>c. set (D c)) R = {}" by (simp add: loop_inv_def)
  moreover have "set (map fst m) = R"
    using 1(1) by (auto simp: loop_inv_def dom_map_of_conv_image_fst [symmetric] dom_def)
  ultimately show ?case using 1(1) by (simp add: greedy_stop loop_inv_def)
next
  case (2 dependents m n r ord)
  have edges: "\<And>c. c \<in> R \<Longrightarrow> count_list (edges_of dependents n) c = count_list (D c) n"
    by (rule 2(3))
  note step = loop_inv_step [OF 2(2) edges 2(4)]
  from step(3) obtain m' r' where
    rel: "release (edges_of dependents n) (bt_remove n m) r = Some (m', r')"
    and inv: "loop_inv D (R - {n}) m' r'" by blast
  have "ready_set (\<lambda>c. set (D c)) R \<noteq> {}" "finite R"
    using 2(2) by (auto simp: loop_inv_def)
  then have gr: "greedy (\<lambda>c. set (D c)) R = n # greedy (\<lambda>c. set (D c)) (R - {n})"
    using step(2) by (intro greedy_step) auto
  obtain left where "drain dependents m' r' (ord @ [n]) =
      Some ((ord @ [n]) @ greedy (\<lambda>c. set (D c)) (R - {n}), left)"
    "bt_inv left" "set (map fst left) = R - {n} - set (greedy (\<lambda>c. set (D c)) (R - {n}))"
    using 2(1) [OF rel [unfolded edges_of_def] refl inv _ 2(4)] 2(3) by fastforce
  then show ?case
    using rel gr by (auto simp: edges_of_def)
qed


section \<open>Correctness of resolve\_order\<close>

definition dep_list :: "component_descriptor list \<Rightarrow> string \<Rightarrow> string list" where
  "dep_list ds c =
     (case map_of (map (\<lambda>d. (cd_id d, known_deps (map cd_id ds) d)) ds) c of
        None \<Rightarrow> [] | Some l \<Rightarrow> l)"

text \<open>The registered components a component depends on.\<close>

definition depends_on :: "component_descriptor list \<Rightarrow> string \<Rightarrow> string set" where
  "depends_on ds c =
     {b. b \<in> set (map cd_id ds) \<and>
         (\<exists>d \<in> set ds. cd_id d = c \<and> (\<exists>x \<in> set (cd_dependencies d). dep_id x = b))}"

lemma map_of_by_id:
  "distinct (map cd_id ds) \<Longrightarrow> d \<in> set ds \<Longrightarrow>
   map_of (map (\<lambda>d. (cd_id d, f d)) ds) (cd_id d) = Some (f d)"
  by (rule map_of_is_SomeI) (auto simp: comp_def)

lemma map_of_by_id_None:
  "c \<notin> set (map cd_id ds) \<Longrightarrow> map_of (map (\<lambda>d. (cd_id d, f d)) ds) c = None"
  by (auto simp: map_of_eq_None_iff)

lemma set_dep_list:
  assumes "distinct (map cd_id ds)"
  shows "set (dep_list ds c) = depends_on ds c"
proof (cases "c \<in> set (map cd_id ds)")
  case True
  then obtain d where d: "d \<in> set ds" "c = cd_id d" by auto
  have "d' \<in> set ds \<and> cd_id d' = c \<longleftrightarrow> d' = d" for d'
    using d assms by (auto simp: distinct_map inj_on_def)
  then have "(\<exists>d' \<in> set ds. cd_id d' = c \<and> P d') \<longleftrightarrow> P d" for P by metis
  then have "depends_on ds c = {b \<in> set (map cd_id ds). b \<in> dep_id ` set (cd_dependencies d)}"
    unfolding depends_on_def by (simp add: image_iff Bex_def eq_commute)
  then show ?thesis
    by (auto simp: dep_list_def d(2) map_of_by_id [OF assms d(1)] known_deps_def)
next
  case False
  then show ?thesis by (auto simp: dep_list_def depends_on_def map_of_by_id_None)
qed

lemma count_deps_Inl:
  "count_deps known self xs n m = Inl e \<Longrightarrow>
   \<exists>x \<in> set xs. (e = MissingDependency self (dep_id x) \<and> dep_id x \<notin> set known \<and> \<not> dep_optional x)
     \<or> (e = DependencyCycle [self] \<and> dep_id x = self)"
proof (induction known self xs n m rule: count_deps.induct)
  case (2 known self x xs n m)
  then show ?case by (auto split: if_splits)
qed simp

lemma build_edges_Inl:
  "build_edges known ds m r = Inl e \<Longrightarrow>
   \<exists>d \<in> set ds. \<exists>x \<in> set (cd_dependencies d).
     (e = MissingDependency (cd_id d) (dep_id x) \<and> dep_id x \<notin> set known \<and> \<not> dep_optional x)
     \<or> (e = DependencyCycle [cd_id d] \<and> dep_id x = cd_id d)"
proof (induction known ds m r rule: build_edges.induct)
  case (2 known d ds m r)
  show ?case
  proof (cases "count_deps known (cd_id d) (cd_dependencies d) 0 m")
    case (Inl e')
    with 2(2) count_deps_Inl [OF Inl] show ?thesis by auto
  next
    case (Inr p)
    with 2 show ?thesis by (cases p) auto
  qed
qed simp

lemma build_edges_well_wired:
  "\<forall>d \<in> set ds. well_wired known d \<Longrightarrow> \<exists>m' r'. build_edges known ds m r = Inr (m', r')"
proof (cases "build_edges known ds m r")
  case (Inl e)
  assume "\<forall>d \<in> set ds. well_wired known d"
  with build_edges_Inl [OF Inl] show ?thesis by (auto simp: well_wired_def)
next
  case (Inr p)
  then show ?thesis by (cases p) auto
qed

lemma initial_inv:
  assumes dst: "distinct (map cd_id ds)"
    and edges: "build_edges (map cd_id ds) ds [] [] = Inr (m, r)"
  shows "loop_inv (dep_list ds) (set (map cd_id ds)) r (map fst (filter (\<lambda>e. snd e = 0) r))"
proof -
  note b = build_edges_Inr [OF edges dst]
  let ?R = "set (map cd_id ds)"
  have bt: "bt_inv r" using b by simp
  have len: "filter (\<lambda>b. b \<in> ?R) (dep_list ds c) = dep_list ds c" for c
    by (auto simp: filter_id_conv set_dep_list [OF dst] depends_on_def)
  have get: "map_of r c = (if c \<in> ?R then Some (length (dep_list ds c)) else None)" for c
  proof (cases "c \<in> ?R")
    case True
    then obtain d where "d \<in> set ds" "c = cd_id d" by auto
    then show ?thesis
      using b by (auto simp: dep_list_def map_of_by_id [OF dst] map_add_def)
  next
    case False
    then show ?thesis using b by (auto simp: map_of_by_id_None map_add_def)
  qed
  have dr: "distinct (map fst r)" using bt by (rule bt_inv_distinct)
  have "set (map fst (filter (\<lambda>e. snd e = 0) r)) = {c. map_of r c = Some 0}"
    using dr by (force simp: map_of_eq_Some_iff)
  also have "\<dots> = ready_set (\<lambda>c. set (dep_list ds c)) ?R"
  proof -
    have "dep_list ds c = [] \<longleftrightarrow> set (dep_list ds c) \<inter> ?R = {}" for c
      using len [of c] by (metis filter_id_conv inf.absorb1 set_empty subsetI)
    then show ?thesis by (auto simp: get ready_set_def split: if_splits)
  qed
  finally have "set (map fst (filter (\<lambda>e. snd e = 0) r)) = \<dots>" .
  moreover have "sorted (map fst (filter (\<lambda>e. snd e = 0) r))"
    using bt_inv_sorted [OF bt] by (rule sorted_filter)
  moreover have "distinct (map fst (filter (\<lambda>e. snd e = 0) r))"
    using dr by (rule distinct_map_filter)
  ultimately show ?thesis
    using bt by (simp add: loop_inv_def len [simplified] get fun_eq_iff)
qed

definition startup_order :: "component_descriptor list \<Rightarrow> string list" where
  "startup_order ds = greedy (depends_on ds) (set (map cd_id ds))"

text \<open>What the code computes when every dependency is wired: the greedy order if it places every
  component, else the sorted identifiers of those it cannot place.\<close>

lemma resolve_order_greedy:
  assumes dst: "distinct (map cd_id ds)" and ww: "\<forall>d \<in> set ds. well_wired (map cd_id ds) d"
  shows "resolve_order ds =
     Some (if set (startup_order ds) = set (map cd_id ds) then Inr (startup_order ds)
           else Inl (DependencyCycle
             (sorted_list_of_set (set (map cd_id ds) - set (startup_order ds)))))"
proof -
  let ?R = "set (map cd_id ds)"
  obtain m r where edges: "build_edges (map cd_id ds) ds [] [] = Inr (m, r)"
    using build_edges_well_wired [OF ww] by blast
  have cnt: "count_list (edges_of m b) c = count_list (dep_list ds c) b" if "c \<in> ?R" for b c
  proof -
    from that obtain d where d: "d \<in> set ds" "c = cd_id d" by auto
    show ?thesis
      using build_edges_Inr [OF edges dst]
      by (simp add: d dep_list_def edges_of_def map_of_by_id [OF dst])
  qed
  have self: "c \<notin> set (dep_list ds c)" for c
    using ww by (auto simp: set_dep_list [OF dst] depends_on_def well_wired_def)
  have D: "(\<lambda>c. set (dep_list ds c)) = depends_on ds" by (simp add: fun_eq_iff set_dep_list [OF dst])
  obtain left where dr: "drain m r (map fst (filter (\<lambda>e. snd e = 0) r)) [] =
      Some (startup_order ds, left)"
    and left: "bt_inv left" "set (map fst left) = ?R - set (startup_order ds)"
    using drain_greedy [OF initial_inv [OF dst edges] cnt self, of "[]"]
    by (auto simp: D startup_order_def)
  have sub: "set (startup_order ds) \<subseteq> ?R" by (simp only: startup_order_def greedy_subset)
  have "map fst left = sorted_list_of_set (?R - set (startup_order ds))"
    using bt_inv_sorted [OF left(1)] bt_inv_distinct [OF left(1)] left(2)
    by (metis sorted_list_of_set.idem_if_sorted_distinct)
  moreover have "left \<noteq> [] \<longleftrightarrow> set (startup_order ds) \<noteq> ?R"
    using left(2) sub by (metis Diff_cancel Diff_eq_empty_iff list.map_disc_iff set_empty subset_antisym)
  ultimately show ?thesis
    by (simp add: resolve_order_def edges dr)
qed

lemma resolve_order_Inr_wired:
  assumes dst: "distinct (map cd_id ds)" and ok: "resolve_order ds = Some (Inr order)"
  shows "\<forall>d \<in> set ds. well_wired (map cd_id ds) d"
proof -
  obtain m r where "build_edges (map cd_id ds) ds [] [] = Inr (m, r)"
    using ok by (auto simp: resolve_order_def split: sum.splits)
  from build_edges_Inr [OF this dst] show ?thesis by simp
qed

lemma resolve_order_Inr:
  assumes "distinct (map cd_id ds)" and "resolve_order ds = Some (Inr order)"
  shows "order = startup_order ds" "set order = set (map cd_id ds)"
  using resolve_order_greedy [OF assms(1) resolve_order_Inr_wired [OF assms]] assms(2)
  by (auto split: if_splits)

lemma resolve_order_unwired:
  assumes dst: "distinct (map cd_id ds)" and bad: "\<not> (\<forall>d \<in> set ds. well_wired (map cd_id ds) d)"
  shows "\<exists>e. build_edges (map cd_id ds) ds [] [] = Inl e \<and> resolve_order ds = Some (Inl e)"
proof (cases "build_edges (map cd_id ds) ds [] []")
  case (Inl e)
  then show ?thesis by (simp add: resolve_order_def)
next
  case (Inr p)
  obtain m r where "p = (m, r)" by (cases p)
  with Inr build_edges_Inr [of "map cd_id ds" ds "[]" "[]" m r] dst have
    "\<forall>d \<in> set ds. well_wired (map cd_id ds) d" by simp
  with bad show ?thesis by simp
qed


lemma resolve_order_total: "distinct (map cd_id ds) \<Longrightarrow> resolve_order ds \<noteq> None"
  using resolve_order_greedy [of ds] resolve_order_unwired [of ds] by (auto split: if_splits)

lemma resolve_order_before:
  assumes dst: "distinct (map cd_id ds)" and ok: "resolve_order ds = Some (Inr order)"
    and d: "d \<in> set ds" and x: "x \<in> set (cd_dependencies d)" "dep_id x \<in> set order"
  shows "\<exists>xs ys. order = xs @ cd_id d # ys \<and> dep_id x \<in> set xs"
proof -
  note o = resolve_order_Inr [OF dst ok]
  have "cd_id d \<in> set order" using d o(2) by simp
  then obtain xs ys where split: "order = xs @ cd_id d # ys" by (meson split_list)
  have "depends_on ds (cd_id d) \<inter> set (map cd_id ds) \<subseteq> set xs"
    using greedy_after_deps split o(1) by (metis startup_order_def)
  moreover have "dep_id x \<in> depends_on ds (cd_id d)"
    using d x o(2) by (auto simp: depends_on_def)
  ultimately show ?thesis using split x(2) o(2) by blast
qed

lemma resolve_order_distinct:
  assumes "distinct (map cd_id ds)" and "resolve_order ds = Some (Inr order)"
  shows "distinct order"
  by (simp add: resolve_order_Inr(1) [OF assms] startup_order_def greedy_distinct)

text \<open>The example of the unit tests, for the witnesses below.\<close>

definition demo_components :: "component_descriptor list" where
  "demo_components =
     [requires (requires (descriptor_new ''app'') ''db'') ''cache'',
      requires (descriptor_new ''cache'') ''config'',
      requires (descriptor_new ''db'') ''config'', descriptor_new ''config'']"

lemma demo_distinct: "distinct (map cd_id demo_components)"
  by code_simp

lemma demo_order:
  "resolve_order demo_components = Some (Inr [''config'', ''cache'', ''db'', ''app''])"
  by code_simp

text \<open>C35. Startup order is sound: when the components have distinct identifiers and an order is
  returned, it lists every component exactly once, every required dependency is registered, and
  every registered dependency, required or optional, stands before the component that names it.\<close>

theorem resolve_order_sound:
  assumes dst: "distinct (map cd_id ds)" and ok: "resolve_order ds = Some (Inr order)"
  shows "distinct order \<and> set order = set (map cd_id ds) \<and>
    (\<forall>d \<in> set ds. \<forall>x \<in> set (cd_dependencies d).
       (\<not> dep_optional x \<longrightarrow> dep_id x \<in> set order) \<and>
       (dep_id x \<in> set order \<longrightarrow>
          (\<exists>xs ys. order = xs @ cd_id d # ys \<and> dep_id x \<in> set xs)))"
  using resolve_order_Inr_wired [OF dst ok] resolve_order_Inr(2) [OF dst ok]
    resolve_order_distinct [OF dst ok] resolve_order_before [OF dst ok]
  by (auto simp: well_wired_def)

theorem resolve_order_sound_witness:
  "resolve_order demo_components = Some (Inr [''config'', ''cache'', ''db'', ''app'']) \<and>
   (\<exists>xs ys. [''config'', ''cache'', ''db'', ''app''] = xs @ ''app'' # ys \<and> ''db'' \<in> set xs)"
  using resolve_order_sound [OF demo_distinct demo_order]
  by (simp add: demo_order) (simp add: demo_components_def requires_def descriptor_new_def)

text \<open>Startup order is complete: distinct components whose required dependencies are all
  registered and whose dependency relation has no cycle always get an order.\<close>

theorem resolve_order_complete:
  assumes dst: "distinct (map cd_id ds)"
    and reg: "\<forall>d \<in> set ds. \<forall>x \<in> set (cd_dependencies d).
                dep_optional x \<or> dep_id x \<in> set (map cd_id ds)"
    and acyc: "acyclic {(b, c). b \<in> depends_on ds c}"
  shows "\<exists>order. resolve_order ds = Some (Inr order)"
proof -
  let ?R = "set (map cd_id ds)"
  have "dep_id x \<noteq> cd_id d" if d: "d \<in> set ds" and x: "x \<in> set (cd_dependencies d)" for d x
  proof
    assume "dep_id x = cd_id d"
    with d x have "cd_id d \<in> depends_on ds (cd_id d)" by (auto simp: depends_on_def)
    with acyc show False by (auto simp: acyclic_def)
  qed
  with reg have ww: "\<forall>d \<in> set ds. well_wired (map cd_id ds) d" by (auto simp: well_wired_def)
  have "?R - set (startup_order ds) = {}"
  proof (rule ccontr)
    assume ne: "?R - set (startup_order ds) \<noteq> {}"
    have "ready_set (depends_on ds) (?R - set (startup_order ds)) = {}"
      unfolding startup_order_def by (rule greedy_rest) simp
    from no_ready_cycle [OF _ this ne] acyc show False by simp
  qed
  moreover have "set (startup_order ds) \<subseteq> ?R" by (simp only: startup_order_def greedy_subset)
  ultimately show ?thesis using resolve_order_greedy [OF dst ww] by auto
qed

lemma acyclic_empty_rel: "acyclic {}"
  by (simp add: acyclic_def)

theorem resolve_order_complete_witness:
  "\<exists>order. resolve_order [requires (descriptor_new ''b'') ''a'', descriptor_new ''a''] =
     Some (Inr order)"
proof (rule resolve_order_complete)
  have "{(b, c). b \<in> depends_on [requires (descriptor_new ''b'') ''a'', descriptor_new ''a''] c}
      = {(''a'', ''b'')}"
    by (auto simp: depends_on_def requires_def descriptor_new_def)
  then show "acyclic {(b, c). b \<in> depends_on
      [requires (descriptor_new ''b'') ''a'', descriptor_new ''a''] c}"
    by (simp add: acyclic_empty_rel)
qed (simp_all add: requires_def descriptor_new_def)

text \<open>C36. A refusal is honest: with distinct identifiers the resolution never panics, and each
  error names a required dependency that is not registered, a component that depends on itself,
  or a non-empty set of components each of which depends on another of them.\<close>

theorem resolve_order_errors:
  assumes dst: "distinct (map cd_id ds)"
  shows "resolve_order ds \<noteq> None \<and>
    (\<forall>e. resolve_order ds = Some (Inl e) \<longrightarrow>
       (\<exists>d \<in> set ds. \<exists>x \<in> set (cd_dependencies d).
          e = MissingDependency (cd_id d) (dep_id x) \<and> \<not> dep_optional x \<and>
          dep_id x \<notin> set (map cd_id ds)) \<or>
       (\<exists>d \<in> set ds. \<exists>x \<in> set (cd_dependencies d).
          e = DependencyCycle [cd_id d] \<and> dep_id x = cd_id d) \<or>
       (\<exists>members. e = DependencyCycle members \<and> members \<noteq> [] \<and> sorted members \<and>
          set members \<subseteq> set (map cd_id ds) \<and>
          (\<forall>c \<in> set members. depends_on ds c \<inter> set members \<noteq> {})))"
proof (cases "\<forall>d \<in> set ds. well_wired (map cd_id ds) d")
  case True
  let ?L = "set (map cd_id ds) - set (startup_order ds)"
  have "ready_set (depends_on ds) ?L = {}"
    unfolding startup_order_def by (rule greedy_rest) simp
  then have "\<forall>c \<in> ?L. depends_on ds c \<inter> ?L \<noteq> {}" by (auto simp: ready_set_def)
  moreover have "set (startup_order ds) \<subseteq> set (map cd_id ds)"
    by (simp only: startup_order_def greedy_subset)
  ultimately show ?thesis
    using resolve_order_greedy [OF dst True] by (auto split: if_splits)
next
  case False
  then obtain e where "build_edges (map cd_id ds) ds [] [] = Inl e"
    and "resolve_order ds = Some (Inl e)"
    using resolve_order_unwired [OF dst] by blast
  with build_edges_Inl show ?thesis by (fastforce simp del: set_map)
qed

theorem resolve_order_errors_witness:
  "resolve_order [requires (descriptor_new ''a'') ''b'', requires (descriptor_new ''b'') ''a'']
     = Some (Inl (DependencyCycle [''a'', ''b''])) \<and>
   resolve_order [requires (descriptor_new ''a'') ''b'', requires (descriptor_new ''b'') ''a'']
     \<noteq> None" (is "?err \<and> ?some")
proof
  show ?err by code_simp
  show ?some by (rule conjunct1 [OF resolve_order_errors]) (simp add: requires_def descriptor_new_def)
qed

text \<open>C9. Startup order is deterministic: it does not depend on the order components are registered
  in, and at each position stands the least identifier among the components whose dependencies
  have all been placed.\<close>

theorem resolve_order_deterministic:
  assumes dst: "distinct (map cd_id ds)" and perm: "mset ds' = mset ds"
    and ok: "resolve_order ds = Some (Inr order)"
  shows "resolve_order ds' = Some (Inr order) \<and>
    (\<forall>xs c ys. order = xs @ c # ys \<longrightarrow>
       c = Min {a \<in> set (map cd_id ds) - set xs. depends_on ds a \<subseteq> set xs})"
proof -
  have set_eq: "set ds' = set ds" using perm by (rule mset_eq_setD)
  have dst': "distinct (map cd_id ds')"
    using dst perm by (metis mset_eq_imp_distinct_iff mset_map)
  have "depends_on ds' = depends_on ds" by (simp add: depends_on_def set_eq fun_eq_iff)
  then have same: "startup_order ds' = startup_order ds"
    by (simp add: startup_order_def set_eq)
  have ww: "\<forall>d \<in> set ds'. well_wired (map cd_id ds') d"
    using resolve_order_Inr_wired [OF dst ok] by (simp add: well_wired_def set_eq)
  note o = resolve_order_Inr [OF dst ok]
  have "resolve_order ds' = Some (Inr order)"
    using resolve_order_greedy [OF dst' ww] o by (simp add: same set_eq)
  moreover have "c = Min {a \<in> set (map cd_id ds) - set xs. depends_on ds a \<subseteq> set xs}"
    if split: "order = xs @ c # ys" for xs c ys
  proof -
    have "c = Min (ready_set (depends_on ds) (set (map cd_id ds) - set xs))"
      using greedy_least o(1) split by (metis startup_order_def)
    moreover have "ready_set (depends_on ds) (set (map cd_id ds) - set xs)
        = {a \<in> set (map cd_id ds) - set xs. depends_on ds a \<subseteq> set xs}"
      by (auto simp: ready_set_def depends_on_def)
    ultimately show ?thesis by simp
  qed
  ultimately show ?thesis by blast
qed

theorem resolve_order_deterministic_witness:
  "resolve_order (rev demo_components) = resolve_order demo_components"
  using resolve_order_deterministic [OF demo_distinct _ demo_order, of "rev demo_components"]
  by (simp add: demo_order)

end
