(* ===== verification/Aik_Kernel.thy ===== *)
theory Aik_Kernel
  imports Aik_Graph
begin

text \<open>
  The kernel's lifecycle (src/crates/core/src/kernel.rs): building a kernel from components and
  plugins (src/crates/core/src/plugin.rs), starting it in dependency order, rolling a failed
  start back and shutting it down. Every call into a component, every published state change
  and every cancelled task group is appended to a log, so that orderings are statements about
  the log. What the components and their background tasks do is a parameter, the world, which
  may answer differently each time because it sees the log so far.
\<close>

section \<open>State\<close>

datatype component_state = Registered | Initialized | CompRunning | CompStopped | CompFailed

datatype kernel_state = Created | Starting | KernelRunning | ShuttingDown | KernelStopped | KernelFailed

fun kernel_state_debug :: "kernel_state \<Rightarrow> string" where
  "kernel_state_debug Created = ''Created''"
| "kernel_state_debug Starting = ''Starting''"
| "kernel_state_debug KernelRunning = ''Running''"
| "kernel_state_debug ShuttingDown = ''ShuttingDown''"
| "kernel_state_debug KernelStopped = ''Stopped''"
| "kernel_state_debug KernelFailed = ''Failed''"

datatype kernel_event =
    StateChanged kernel_state
  | ComponentChanged string component_state
  | Called lifecycle_phase string
  | TasksCancelled string
  | TasksShutdown

record world =
  w_outcome :: "kernel_event list \<Rightarrow> lifecycle_phase \<Rightarrow> string \<Rightarrow> error option"
  w_tasks_done :: "kernel_event list \<Rightarrow> bool"

record managed =
  m_descriptor :: component_descriptor
  m_state :: component_state

text \<open>ABI version and metadata of a plugin.\<close>

record plugin_metadata =
  pm_id :: string
  pm_version :: string
  pm_abi_version :: u32

record kernel =
  k_components :: "managed list"
  k_plugins :: "plugin_metadata list"
  k_event_capacity :: nat
  k_shutdown_timeout :: duration
  k_state :: kernel_state
  k_log :: "kernel_event list"

section \<open>Building\<close>

definition kernel_abi_version :: u32 where
  "kernel_abi_version = 1"

text \<open>A plugin's \<^verbatim>\<open>register\<close> can only push components on the registrar or fail.\<close>

record plugin =
  pl_metadata :: plugin_metadata
  pl_register :: "component_descriptor list result"

record kernel_settings =
  ks_event_capacity :: nat
  ks_shutdown_timeout_ms :: u64

record kernel_builder =
  kb_components :: "component_descriptor list"
  kb_plugins :: "plugin list"
  kb_event_capacity :: "nat option"
  kb_shutdown_timeout :: "duration option"

fun collect_plugins ::
  "plugin list \<Rightarrow> string list \<Rightarrow> plugin_metadata list \<Rightarrow> component_descriptor list
   \<Rightarrow> (plugin_metadata list \<times> component_descriptor list) result" where
  "collect_plugins [] seen collected components = Inr (collected, components)"
| "collect_plugins (p # ps) seen collected components =
     (let metadata = pl_metadata p in
      if pm_abi_version metadata \<noteq> kernel_abi_version
      then Inl (Unsupported (''plugin `'' @ pm_id metadata @ ''` was built against kernel ABI ''
             @ dec (unat (pm_abi_version metadata)) @ '', but this kernel is ABI ''
             @ dec (unat kernel_abi_version)))
      else if pm_id metadata \<in> set seen then Inl (AlreadyExists ''plugin'' (pm_id metadata))
      else (case pl_register p of
              Inl e \<Rightarrow> Inl e
            | Inr pushed \<Rightarrow>
                collect_plugins ps (pm_id metadata # seen) (collected @ [metadata])
                  (components @ pushed)))"

fun reject_duplicate_components :: "component_descriptor list \<Rightarrow> string list \<Rightarrow> unit result" where
  "reject_duplicate_components [] seen = Inr ()"
| "reject_duplicate_components (d # ds) seen =
     (if cd_id d \<in> set seen then Inl (AlreadyExists ''component'' (cd_id d))
      else reject_duplicate_components ds (cd_id d # seen))"

text \<open>\<^verbatim>\<open>positions[&id]\<close> and \<^verbatim>\<open>by_id[index].take().expect(..)\<close>: a missing id or a second
  take is a panic, \<open>None\<close>. The slots are indexed by id, which the duplicate check makes the
  same as by position.\<close>

fun take_components ::
  "string list \<Rightarrow> (string, component_descriptor) hash_map \<Rightarrow> managed list option" where
  "take_components [] slots = Some []"
| "take_components (i # order) slots =
     (case map_of slots i of
        None \<Rightarrow> None
      | Some d \<Rightarrow>
          map_option (Cons \<lparr>m_descriptor = d, m_state = Registered\<rparr>)
            (take_components order (AList.delete i slots)))"

text \<open>\<open>settings\<close> is what \<^verbatim>\<open>get_or_default::<KernelSettings>("kernel")\<close> returned.\<close>

definition build :: "kernel_builder \<Rightarrow> kernel_settings result \<Rightarrow> kernel result option" where
  "build b settings =
     (case settings of
        Inl e \<Rightarrow> Some (Inl e)
      | Inr s \<Rightarrow>
     (case collect_plugins (kb_plugins b) [] [] (kb_components b) of
        Inl e \<Rightarrow> Some (Inl e)
      | Inr (plugins, descriptors) \<Rightarrow>
     (case reject_duplicate_components descriptors [] of
        Inl e \<Rightarrow> Some (Inl e)
      | Inr _ \<Rightarrow>
     (case resolve_order descriptors of
        None \<Rightarrow> None
      | Some (Inl e) \<Rightarrow> Some (Inl e)
      | Some (Inr order) \<Rightarrow>
          (let capacity = (case kb_event_capacity b of
                             None \<Rightarrow> ks_event_capacity s | Some c \<Rightarrow> c) in
           if capacity = 0
           then Some (Inl (Config ''kernel.event_capacity'' ''must be greater than zero''))
           else map_option (\<lambda>components. Inr
                  \<lparr>k_components = components, k_plugins = plugins,
                   k_event_capacity = capacity,
                   k_shutdown_timeout =
                     (case kb_shutdown_timeout b of
                        None \<Rightarrow> from_millis (ks_shutdown_timeout_ms s) | Some t \<Rightarrow> t),
                   k_state = Created, k_log = []\<rparr>)
                (take_components order (map (\<lambda>d. (cd_id d, d)) descriptors)))))))"

section \<open>Lifecycle operations\<close>

definition emit :: "kernel_event \<Rightarrow> kernel \<Rightarrow> kernel" where
  "emit e k = k\<lparr>k_log := k_log k @ [e]\<rparr>"

definition cid :: "kernel \<Rightarrow> nat \<Rightarrow> string" where
  "cid k i = cd_id (m_descriptor (k_components k ! i))"

definition state_of :: "kernel \<Rightarrow> nat \<Rightarrow> component_state" where
  "state_of k i = m_state (k_components k ! i)"

definition set_state :: "nat \<Rightarrow> component_state \<Rightarrow> kernel \<Rightarrow> kernel" where
  "set_state i s k =
     emit (ComponentChanged (cid k i) s)
       (k\<lparr>k_components := (k_components k)[i := (k_components k ! i)\<lparr>m_state := s\<rparr>]\<rparr>)"

definition transition :: "kernel_state \<Rightarrow> kernel \<Rightarrow> kernel" where
  "transition s k = emit (StateChanged s) (k\<lparr>k_state := s\<rparr>)"

definition run_phase ::
  "world \<Rightarrow> lifecycle_phase \<Rightarrow> nat \<Rightarrow> kernel \<Rightarrow> error option \<times> kernel" where
  "run_phase w phase i k =
     (let k' = emit (Called phase (cid k i)) k in
      case w_outcome w (k_log k) phase (cid k i) of
        None \<Rightarrow> (None, k')
      | Some e \<Rightarrow>
          (Some (Component (cid k i) phase (BoxError e)), set_state i CompFailed k'))"

fun stop_loop ::
  "world \<Rightarrow> nat list \<Rightarrow> error option \<Rightarrow> kernel \<Rightarrow> error option \<times> kernel" where
  "stop_loop w [] first_error k = (first_error, k)"
| "stop_loop w (i # is) first_error k =
     (if state_of k i \<in> {Registered, CompStopped, CompFailed}
      then stop_loop w is first_error (emit (TasksCancelled (cid k i)) k)
      else (case run_phase w Stop i k of
              (None, k') \<Rightarrow>
                stop_loop w is first_error
                  (emit (TasksCancelled (cid k i)) (set_state i CompStopped k'))
            | (Some e, k') \<Rightarrow>
                stop_loop w is (case first_error of None \<Rightarrow> Some e | Some f \<Rightarrow> Some f)
                  (emit (TasksCancelled (cid k i)) k')))"

definition stop_range :: "world \<Rightarrow> nat \<Rightarrow> kernel \<Rightarrow> error option \<times> kernel" where
  "stop_range w n k = stop_loop w (rev [0..<n]) None k"

definition tasks_shutdown :: "world \<Rightarrow> kernel \<Rightarrow> error option \<times> kernel" where
  "tasks_shutdown w k =
     (if w_tasks_done w (k_log k) then None else Some (Timeout (k_shutdown_timeout k)),
      emit TasksShutdown k)"

definition rollback :: "world \<Rightarrow> nat \<Rightarrow> kernel \<Rightarrow> kernel" where
  "rollback w n k =
     (if n = 0 then k else snd (tasks_shutdown w (snd (stop_range w n k))))"

text \<open>The two loops of \<^verbatim>\<open>start\<close>; the first carries \<^verbatim>\<open>reached\<close>.\<close>

fun init_loop ::
  "world \<Rightarrow> nat list \<Rightarrow> nat \<Rightarrow> kernel \<Rightarrow> error option \<times> nat \<times> kernel" where
  "init_loop w [] reached k = (None, reached, k)"
| "init_loop w (i # is) reached k =
     (case run_phase w Init i k of
        (Some e, k') \<Rightarrow> (Some e, reached, k')
      | (None, k') \<Rightarrow> init_loop w is (i + 1) (set_state i Initialized k'))"

fun start_loop :: "world \<Rightarrow> nat list \<Rightarrow> kernel \<Rightarrow> error option \<times> kernel" where
  "start_loop w [] k = (None, k)"
| "start_loop w (i # is) k =
     (case run_phase w Start i k of
        (Some e, k') \<Rightarrow> (Some e, k')
      | (None, k') \<Rightarrow> start_loop w is (set_state i CompRunning k'))"

definition start :: "world \<Rightarrow> kernel \<Rightarrow> unit result \<times> kernel" where
  "start w k =
     (if k_state k \<noteq> Created
      then (Inl (Lifecycle (''cannot start a kernel in state `''
              @ kernel_state_debug (k_state k) @ ''`'')), k)
      else
       (case init_loop w [0..<length (k_components k)] 0 (transition Starting k) of
          (Some e, reached, k') \<Rightarrow> (Inl e, transition KernelFailed (rollback w reached k'))
        | (None, reached, k') \<Rightarrow>
           (case start_loop w [0..<length (k_components k)] k' of
              (Some e, k'') \<Rightarrow> (Inl e, transition KernelFailed (rollback w reached k''))
            | (None, k'') \<Rightarrow> (Inr (), transition KernelRunning k''))))"

definition shutdown :: "world \<Rightarrow> kernel \<Rightarrow> unit result \<times> kernel" where
  "shutdown w k =
     (case k_state k of
        KernelStopped \<Rightarrow> (Inr (), k)
      | Created \<Rightarrow> (Inr (), transition KernelStopped k)
      | _ \<Rightarrow>
         (case stop_range w (length (k_components k)) (transition ShuttingDown k) of
            (first_error, k1) \<Rightarrow>
              (case tasks_shutdown w k1 of
                 (late, k2) \<Rightarrow>
                   (case (case first_error of None \<Rightarrow> late | Some e \<Rightarrow> Some e) of
                      None \<Rightarrow> (Inr (), transition KernelStopped k2)
                    | Some e \<Rightarrow> (Inl e, transition KernelStopped k2)))))"

text \<open>\<^verbatim>\<open>run\<close>: start, wait for the shutdown request, shut down.\<close>

definition run :: "world \<Rightarrow> kernel \<Rightarrow> unit result \<times> kernel" where
  "run w k =
     (case start w k of
        (Inl e, k') \<Rightarrow> (Inl e, k')
      | (Inr _, k') \<Rightarrow> shutdown w k')"

section \<open>What the loops do\<close>

text \<open>The calls into components a log records, and the two columns of the component table.\<close>

fun calls :: "kernel_event list \<Rightarrow> (lifecycle_phase \<times> string) list" where
  "calls [] = []"
| "calls (e # es) = (case e of Called p i \<Rightarrow> (p, i) # calls es | _ \<Rightarrow> calls es)"

definition ids :: "kernel \<Rightarrow> string list" where
  "ids k = map (\<lambda>m. cd_id (m_descriptor m)) (k_components k)"

definition states :: "kernel \<Rightarrow> component_state list" where
  "states k = map m_state (k_components k)"

abbreviation size_of :: "kernel \<Rightarrow> nat" where
  "size_of k \<equiv> length (k_components k)"

lemma calls_append [simp]: "calls (xs @ ys) = calls xs @ calls ys"
  by (induction xs) (auto split: kernel_event.splits)

lemma length_ids [simp]: "length (ids k) = size_of k" "length (states k) = size_of k"
  by (simp_all add: ids_def states_def)

lemma cid_ids: "i < size_of k \<Longrightarrow> cid k i = ids k ! i"
  by (simp add: cid_def ids_def)

lemma state_of_states: "i < size_of k \<Longrightarrow> state_of k i = states k ! i"
  by (simp add: state_of_def states_def)

lemma emit_fields [simp]:
  "k_components (emit e k) = k_components k" "k_state (emit e k) = k_state k"
  "k_shutdown_timeout (emit e k) = k_shutdown_timeout k" "k_log (emit e k) = k_log k @ [e]"
  "ids (emit e k) = ids k" "states (emit e k) = states k" "cid (emit e k) i = cid k i"
  "state_of (emit e k) i = state_of k i"
  by (simp_all add: emit_def ids_def states_def cid_def state_of_def)

lemma transition_fields [simp]:
  "k_components (transition s k) = k_components k" "k_state (transition s k) = s"
  "k_shutdown_timeout (transition s k) = k_shutdown_timeout k"
  "k_log (transition s k) = k_log k @ [StateChanged s]"
  "ids (transition s k) = ids k" "states (transition s k) = states k"
  "cid (transition s k) i = cid k i" "state_of (transition s k) i = state_of k i"
  by (simp_all add: transition_def emit_def ids_def states_def cid_def state_of_def)

lemma list_update_same_field: "f y = f (xs ! i) \<Longrightarrow> map f (xs[i := y]) = map f xs"
  by (metis list_update_id map_update)

lemma nth_update_same_field: "f y = f (xs ! i) \<Longrightarrow> f (xs[i := y] ! j) = f (xs ! j)"
  by (metis list_update_beyond linorder_not_le nth_list_update)

lemma set_state_fields [simp]:
  "size_of (set_state i s k) = size_of k" "k_state (set_state i s k) = k_state k"
  "k_shutdown_timeout (set_state i s k) = k_shutdown_timeout k"
  "k_log (set_state i s k) = k_log k @ [ComponentChanged (cid k i) s]"
  "ids (set_state i s k) = ids k" "states (set_state i s k) = (states k)[i := s]"
  "cid (set_state i s k) j = cid k j"
proof -
  show "states (set_state i s k) = (states k)[i := s]"
    by (simp add: set_state_def emit_def states_def map_update)
qed (simp_all add: set_state_def emit_def ids_def cid_def list_update_same_field
      nth_update_same_field [where f = "\<lambda>m. cd_id (m_descriptor m)"])

lemma run_phase_cases:
  assumes "run_phase w p i k = (r, k')"
  obtains (ok) "r = None" "k' = emit (Called p (cid k i)) k"
      "w_outcome w (k_log k) p (cid k i) = None"
    | (failed) e where "r = Some (Component (cid k i) p (BoxError e))"
      "k' = set_state i CompFailed (emit (Called p (cid k i)) k)"
      "w_outcome w (k_log k) p (cid k i) = Some e"
  using assms by (auto simp: run_phase_def Let_def split: option.splits)

text \<open>What never changes while the lifecycle runs.\<close>

definition same_frame :: "kernel \<Rightarrow> kernel \<Rightarrow> bool" where
  "same_frame k k' \<longleftrightarrow> ids k' = ids k \<and> size_of k' = size_of k \<and> k_state k' = k_state k \<and>
     k_shutdown_timeout k' = k_shutdown_timeout k"

lemma same_frameI [simp, intro]:
  "same_frame k k" "same_frame k (emit e k)" "same_frame k (set_state i s k)"
  by (simp_all add: same_frame_def)

lemma same_frame_trans [trans]: "same_frame a b \<Longrightarrow> same_frame b c \<Longrightarrow> same_frame a c"
  by (simp add: same_frame_def)

lemma init_loop_ok:
  assumes "init_loop w [i..<n] r k = (None, r', k')" "i < n" "n \<le> size_of k"
  shows "same_frame k k' \<and> r' = n \<and>
    calls (k_log k') = calls (k_log k) @ map (\<lambda>j. (Init, ids k ! j)) [i..<n] \<and>
    (\<forall>j < size_of k. states k' ! j = (if i \<le> j \<and> j < n then Initialized else states k ! j))"
  using assms
proof (induction "n - i" arbitrary: i r k)
  case (Suc m)
  from Suc.prems obtain k1 where rp: "run_phase w Init i k = (None, k1)"
    and rest: "init_loop w [Suc i..<n] (Suc i) (set_state i Initialized k1) = (None, r', k')"
    by (auto simp: upt_conv_Cons split: option.splits prod.splits)
  from rp have k1: "k1 = emit (Called Init (cid k i)) k" by (cases rule: run_phase_cases) auto
  show ?case
  proof (cases "Suc i < n")
    case True
    have m: "m = n - Suc i" using Suc.hyps(2) by simp
    from Suc.hyps(1) [OF m rest True] Suc.prems(2-3) show ?thesis
      by (auto simp: k1 same_frame_def cid_ids upt_conv_Cons nth_list_update)
  next
    case False
    with Suc.prems have n: "n = Suc i" by simp
    from rest Suc.prems(3) show ?thesis
      by (auto simp: n k1 same_frame_def cid_ids nth_list_update)
  qed
qed simp

lemma init_loop_failed:
  assumes "init_loop w [i..<n] i k = (Some e, r, k')" "n \<le> size_of k"
  shows "same_frame k k' \<and> i \<le> r \<and> r < n \<and>
    calls (k_log k') = calls (k_log k) @ map (\<lambda>j. (Init, ids k ! j)) [i..<Suc r] \<and>
    (\<forall>j < size_of k. states k' ! j =
       (if j = r then CompFailed else if i \<le> j \<and> j < r then Initialized else states k ! j)) \<and>
    (\<exists>c log. e = Component (ids k ! r) Init (BoxError c) \<and>
       w_outcome w log Init (ids k ! r) = Some c)"
  using assms
proof (induction "n - i" arbitrary: i k)
  case (Suc m)
  then have i: "i < n" by simp
  obtain res k1 where rp: "run_phase w Init i k = (res, k1)" by fastforce
  from rp show ?case
  proof (cases rule: run_phase_cases)
    case (failed c)
    with rp i Suc.prems show ?thesis
      by (auto simp: upt_conv_Cons same_frame_def cid_ids nth_list_update)
  next
    case ok
    with rp i Suc.prems have rest:
      "init_loop w [Suc i..<n] (Suc i) (set_state i Initialized k1) = (Some e, r, k')"
      by (simp add: upt_conv_Cons)
    have m: "m = n - Suc i" using Suc.hyps(2) by simp
    from Suc.hyps(1) [OF m rest] Suc.prems(2) i ok(2) show ?thesis
      by (auto simp: same_frame_def cid_ids upt_conv_Cons nth_list_update simp del: upt_Suc)
  qed
qed simp

lemma start_loop_ok:
  assumes "start_loop w [i..<n] k = (None, k')" "n \<le> size_of k"
  shows "same_frame k k' \<and>
    calls (k_log k') = calls (k_log k) @ map (\<lambda>j. (Start, ids k ! j)) [i..<n] \<and>
    (\<forall>j < size_of k. states k' ! j = (if i \<le> j \<and> j < n then CompRunning else states k ! j))"
  using assms
proof (induction "n - i" arbitrary: i k)
  case (Suc m)
  then have i: "i < n" by simp
  from Suc.prems i obtain k1 where rp: "run_phase w Start i k = (None, k1)"
    and rest: "start_loop w [Suc i..<n] (set_state i CompRunning k1) = (None, k')"
    by (auto simp: upt_conv_Cons split: option.splits prod.splits)
  from rp have k1: "k1 = emit (Called Start (cid k i)) k" by (cases rule: run_phase_cases) auto
  have m: "m = n - Suc i" using Suc.hyps(2) by simp
  from Suc.hyps(1) [OF m rest] Suc.prems(2) i show ?case
    by (auto simp: k1 same_frame_def cid_ids upt_conv_Cons nth_list_update)
qed auto

lemma start_loop_failed:
  assumes "start_loop w [i..<n] k = (Some e, k')" "n \<le> size_of k"
  obtains r c log where "same_frame k k'" "i \<le> r" "r < n"
    "calls (k_log k') = calls (k_log k) @ map (\<lambda>j. (Start, ids k ! j)) [i..<Suc r]"
    "\<forall>j < size_of k. states k' ! j =
       (if j = r then CompFailed else if i \<le> j \<and> j < r then CompRunning else states k ! j)"
    "e = Component (ids k ! r) Start (BoxError c)" "w_outcome w log Start (ids k ! r) = Some c"
  using assms
proof (induction "n - i" arbitrary: i k thesis)
  case (Suc m)
  then have i: "i < n" by simp
  obtain res k1 where rp: "run_phase w Start i k = (res, k1)" by fastforce
  from rp show ?case
  proof (cases rule: run_phase_cases)
    case (failed c)
    show ?thesis
      by (rule Suc.prems(1) [of i c "k_log k"])
         (use failed rp i Suc.prems(2-3) in
           \<open>auto simp: upt_conv_Cons same_frame_def cid_ids nth_list_update\<close>)
  next
    case ok
    with rp i Suc.prems have rest:
      "start_loop w [Suc i..<n] (set_state i CompRunning k1) = (Some e, k')"
      by (simp add: upt_conv_Cons)
    have n: "n \<le> size_of (set_state i CompRunning k1)" using Suc.prems(3) ok(2) by simp
    have m: "m = n - Suc i" using Suc.hyps(2) by simp
    show ?thesis
    proof (rule Suc.hyps(1) [OF m _ rest n])
      fix r c log
      assume "same_frame (set_state i CompRunning k1) k'" "Suc i \<le> r" "r < n"
        "calls (k_log k') = calls (k_log (set_state i CompRunning k1)) @
           map (\<lambda>j. (Start, ids (set_state i CompRunning k1) ! j)) [Suc i..<Suc r]"
        "\<forall>j < size_of (set_state i CompRunning k1). states k' ! j =
           (if j = r then CompFailed else if Suc i \<le> j \<and> j < r then CompRunning
            else states (set_state i CompRunning k1) ! j)"
        "e = Component (ids (set_state i CompRunning k1) ! r) Start (BoxError c)"
        "w_outcome w log Start (ids (set_state i CompRunning k1) ! r) = Some c"
      then show ?thesis
        using i Suc.prems(3) ok(2)
        by (intro Suc.prems(1) [of r c log])
           (auto simp: same_frame_def cid_ids upt_conv_Cons nth_list_update simp del: upt_Suc)
    qed
  qed
qed simp

definition live :: "kernel \<Rightarrow> nat \<Rightarrow> bool" where
  "live k i \<longleftrightarrow> states k ! i \<in> {Initialized, CompRunning}"

text \<open>One iteration of the stopping loop, whatever happens in it.\<close>

lemma stop_step:
  assumes "i < size_of k"
  obtains first' k1 where
    "\<And>is. stop_loop w (i # is) first k = stop_loop w is first' k1"
    "same_frame k k1" "TasksCancelled (ids k ! i) \<in> set (k_log k1)"
    "set (k_log k) \<subseteq> set (k_log k1)"
    "calls (k_log k1) = calls (k_log k) @ (if live k i then [(Stop, ids k ! i)] else [])"
    "\<forall>j < size_of k. j \<noteq> i \<longrightarrow> states k1 ! j = states k ! j"
    "\<not> live k i \<longrightarrow> states k1 ! i = states k ! i \<and> first' = first"
    "live k i \<longrightarrow> (states k1 ! i = CompStopped \<and> first' = first) \<or>
       (states k1 ! i = CompFailed \<and> (\<exists>c. first' =
          (case first of None \<Rightarrow> Some (Component (ids k ! i) Stop (BoxError c)) | Some f \<Rightarrow> Some f)))"
proof (cases "live k i")
  case False
  then have "state_of k i \<in> {Registered, CompStopped, CompFailed}"
    using assms by (cases "states k ! i") (auto simp: live_def state_of_states)
  with False assms show ?thesis
    by (intro that [of first "emit (TasksCancelled (cid k i)) k"]) (auto simp: cid_ids)
next
  case True
  then have st: "state_of k i \<notin> {Registered, CompStopped, CompFailed}"
    using assms by (auto simp: live_def state_of_states)
  obtain r k1 where rp: "run_phase w Stop i k = (r, k1)" by fastforce
  from rp show ?thesis
  proof (cases rule: run_phase_cases)
    case ok
    let ?k' = "emit (TasksCancelled (cid k i)) (set_state i CompStopped k1)"
    show ?thesis
      by (rule that [of first ?k'])
         (use True st assms ok rp in \<open>auto simp: same_frame_def cid_ids nth_list_update\<close>)
  next
    case (failed c)
    let ?f = "case first of None \<Rightarrow> Some (Component (cid k i) Stop (BoxError c)) | Some f \<Rightarrow> Some f"
    show ?thesis
      by (rule that [of ?f "emit (TasksCancelled (cid k i)) k1"])
         (use True st assms failed rp in
           \<open>auto simp: same_frame_def cid_ids nth_list_update split: option.splits\<close>)
  qed
qed

lemma stop_loop_spec:
  assumes "stop_loop w is first k = (res, k')" "distinct is" "set is \<subseteq> {..<size_of k}"
  shows "same_frame k k' \<and>
    calls (k_log k') = calls (k_log k) @ map (\<lambda>i. (Stop, ids k ! i)) (filter (live k) is) \<and>
    (\<forall>i \<in> set is. TasksCancelled (ids k ! i) \<in> set (k_log k')) \<and>
    set (k_log k) \<subseteq> set (k_log k') \<and>
    (\<forall>i < size_of k. if i \<in> set is \<and> live k i then states k' ! i \<in> {CompStopped, CompFailed}
       else states k' ! i = states k ! i) \<and>
    (res = None \<longleftrightarrow> first = None \<and> (\<forall>i \<in> set is. live k i \<longrightarrow> states k' ! i = CompStopped)) \<and>
    (first \<noteq> None \<longrightarrow> res = first)"
  using assms
proof (induction "is" arbitrary: first k)
  case (Cons i "is")
  have i: "i < size_of k" using Cons.prems(3) by simp
  obtain first' k1 where
    s1: "stop_loop w (i # is) first k = stop_loop w is first' k1" "same_frame k k1"
    and tc: "TasksCancelled (ids k ! i) \<in> set (k_log k1)" "set (k_log k) \<subseteq> set (k_log k1)"
    and c1: "calls (k_log k1) = calls (k_log k) @ (if live k i then [(Stop, ids k ! i)] else [])"
    and others: "\<forall>j < size_of k. j \<noteq> i \<longrightarrow> states k1 ! j = states k ! j"
    and dead: "\<not> live k i \<longrightarrow> states k1 ! i = states k ! i \<and> first' = first"
    and alive: "live k i \<longrightarrow> (states k1 ! i = CompStopped \<and> first' = first) \<or>
       (states k1 ! i = CompFailed \<and> (\<exists>c. first' =
          (case first of None \<Rightarrow> Some (Component (ids k ! i) Stop (BoxError c)) | Some f \<Rightarrow> Some f)))"
    by (rule stop_step [OF i, of w first]) blast
  have fr: "ids k1 = ids k" "size_of k1 = size_of k" using s1(2) by (simp_all add: same_frame_def)
  have lv: "live k1 j = live k j" if "j \<in> set is" for j
  proof -
    have "j < size_of k" "j \<noteq> i" using that Cons.prems(2-3) by auto
    with others show ?thesis by (simp add: live_def)
  qed
  have flt: "filter (live k1) is = filter (live k) is" by (rule filter_cong) (simp_all add: lv)
  have "stop_loop w is first' k1 = (res, k')" using Cons.prems(1) s1(1) by simp
  have sub: "set is \<subseteq> {..<size_of k1}" "distinct is" using Cons.prems(2-3) fr by auto
  note ih = Cons.IH [OF \<open>stop_loop w is first' k1 = (res, k')\<close> sub(2,1)]
  from ih have
    IH: "same_frame k1 k'"
      "calls (k_log k') = calls (k_log k1) @ map (\<lambda>i. (Stop, ids k ! i)) (filter (live k) is)"
      "\<forall>i \<in> set is. TasksCancelled (ids k ! i) \<in> set (k_log k')"
      "set (k_log k1) \<subseteq> set (k_log k')"
      "\<forall>j < size_of k. if j \<in> set is \<and> live k1 j then states k' ! j \<in> {CompStopped, CompFailed}
         else states k' ! j = states k1 ! j"
      "res = None \<longleftrightarrow> first' = None \<and> (\<forall>j \<in> set is. live k1 j \<longrightarrow> states k' ! j = CompStopped)"
      "first' \<noteq> None \<longrightarrow> res = first'"
    unfolding flt fr by blast+
  have si: "states k' ! i = states k1 ! i" using IH(5) i Cons.prems(2) by simp
  have "\<forall>j < size_of k. if j \<in> set (i # is) \<and> live k j then states k' ! j \<in> {CompStopped, CompFailed}
       else states k' ! j = states k ! j"
    using IH(5) si others dead alive lv by (metis insert_iff list.set(2) set_ConsD)
  moreover have "res = None \<longleftrightarrow> first = None \<and>
      (\<forall>j \<in> set (i # is). live k j \<longrightarrow> states k' ! j = CompStopped)"
    using IH(6) si dead alive lv by (auto split: option.splits)
  moreover have "first \<noteq> None \<longrightarrow> res = first"
    using IH(7) dead alive by (cases "live k i") (auto split: option.splits)
  moreover have "same_frame k k'" using s1(2) IH(1) by (rule same_frame_trans)
  ultimately show ?case using IH(2-4) c1 tc by auto
qed simp

text \<open>The error a stop returns is that of the first component, in the order they are stopped,
  that failed to stop.\<close>

lemma stop_loop_error:
  assumes "stop_loop w is None k = (Some e, k')" "distinct is" "set is \<subseteq> {..<size_of k}"
  shows "\<exists>xs i ys c. is = xs @ i # ys \<and> live k i \<and> states k' ! i = CompFailed \<and>
    e = Component (ids k ! i) Stop (BoxError c) \<and>
    (\<forall>j \<in> set xs. live k j \<longrightarrow> states k' ! j = CompStopped)"
  using assms
proof (induction "is" arbitrary: k)
  case (Cons i "is")
  have i: "i < size_of k" using Cons.prems(3) by simp
  obtain first' k1 where
    s1: "stop_loop w (i # is) None k = stop_loop w is first' k1" "same_frame k k1"
    and others: "\<forall>j < size_of k. j \<noteq> i \<longrightarrow> states k1 ! j = states k ! j"
    and dead: "\<not> live k i \<longrightarrow> states k1 ! i = states k ! i \<and> first' = None"
    and alive0: "live k i \<longrightarrow> (states k1 ! i = CompStopped \<and> first' = None) \<or>
       (states k1 ! i = CompFailed \<and> (\<exists>c. first' =
          (case None of None \<Rightarrow> Some (Component (ids k ! i) Stop (BoxError c)) | Some f \<Rightarrow> Some f)))"
    by (rule stop_step [OF i, of w None]) blast
  note alive = alive0 [unfolded option.case]
  have fr: "ids k1 = ids k" "size_of k1 = size_of k" using s1(2) by (simp_all add: same_frame_def)
  have rest: "stop_loop w is first' k1 = (Some e, k')" using Cons.prems(1) s1(1) by simp
  have sub: "set is \<subseteq> {..<size_of k1}" "distinct is" using Cons.prems(2-3) fr by auto
  from stop_loop_spec [OF rest sub(2,1)] i fr Cons.prems(2) have
    si: "states k' ! i = states k1 ! i" and keep: "first' \<noteq> None \<longrightarrow> Some e = first'"
    by auto
  show ?case
  proof (cases first')
    case (Some f)
    with dead have lv: "live k i" by blast
    with alive Some keep si show ?thesis
      by (intro exI [of _ "[]"] exI [of _ i] exI [of _ "is"]) auto
  next
    case None
    from Cons.IH [OF _ sub(2,1)] rest None obtain xs j ys c where
      IH: "is = xs @ j # ys" "live k1 j" "states k' ! j = CompFailed"
        "e = Component (ids k1 ! j) Stop (BoxError c)"
        "\<forall>j \<in> set xs. live k1 j \<longrightarrow> states k' ! j = CompStopped"
      by blast
    have lv: "live k1 l = live k l" if "l \<in> set is" for l
    proof -
      have "l < size_of k" "l \<noteq> i" using that Cons.prems(2-3) by auto
      with others show ?thesis by (simp add: live_def)
    qed
    have "live k i \<longrightarrow> states k' ! i = CompStopped" using alive None si by simp
    then show ?thesis
      using IH lv fr by (intro exI [of _ "i # xs"] exI [of _ j] exI [of _ ys] exI [of _ c]) simp
  qed
qed simp

section \<open>Starting and stopping\<close>

lemma map_ids [simp]: "map (\<lambda>i. (p, ids k ! i)) [0..<size_of k] = map (Pair p) (ids k)"
  by (rule nth_equalityI) simp_all

lemma map_ids_take: "r \<le> size_of k \<Longrightarrow> map (\<lambda>i. (p, ids k ! i)) [0..<r] = map (Pair p) (take r (ids k))"
  by (rule nth_equalityI) simp_all

lemma filter_upt_neq: "j < n \<Longrightarrow> filter (\<lambda>i. i \<noteq> j) [0..<n] = [0..<j] @ [Suc j..<n]"
proof -
  assume "j < n"
  then have "[0..<n] = [0..<j] @ j # [Suc j..<n]"
    by (metis le_add1 less_imp_le_nat add_0 upt_add_eq_append upt_conv_Cons le_add_diff_inverse)
  then show ?thesis by (auto simp: filter_id_conv)
qed

lemma map_ids_drop:
  "map (\<lambda>i. (p, ids k ! i)) [r..<size_of k] = map (Pair p) (drop r (ids k))"
  by (rule nth_equalityI) simp_all

lemma stop_range_spec:
  assumes "stop_range w n k = (res, k')" "n \<le> size_of k"
  shows "same_frame k k'"
    "calls (k_log k') = calls (k_log k) @ map (\<lambda>i. (Stop, ids k ! i)) (rev (filter (live k) [0..<n]))"
    "\<forall>i < n. TasksCancelled (ids k ! i) \<in> set (k_log k')"
    "\<forall>i < size_of k. if i < n \<and> live k i then states k' ! i \<in> {CompStopped, CompFailed}
       else states k' ! i = states k ! i"
    "res = None \<longleftrightarrow> (\<forall>i < n. live k i \<longrightarrow> states k' ! i = CompStopped)"
proof -
  have pre: "stop_loop w (rev [0..<n]) None k = (res, k')" "distinct (rev [0..<n])"
    "set (rev [0..<n]) \<subseteq> {..<size_of k}"
    using assms by (auto simp: stop_range_def)
  note spec = stop_loop_spec [OF pre]
  have mem: "i \<in> set (rev [0..<n]) \<longleftrightarrow> i < n" for i by simp
  show "same_frame k k'"
    "calls (k_log k') = calls (k_log k) @ map (\<lambda>i. (Stop, ids k ! i)) (rev (filter (live k) [0..<n]))"
    "\<forall>i < n. TasksCancelled (ids k ! i) \<in> set (k_log k')"
    "\<forall>i < size_of k. if i < n \<and> live k i then states k' ! i \<in> {CompStopped, CompFailed}
       else states k' ! i = states k ! i"
    "res = None \<longleftrightarrow> (\<forall>i < n. live k i \<longrightarrow> states k' ! i = CompStopped)"
    using spec unfolding mem Ball_def rev_filter by blast+
qed

lemma rollback_spec:
  assumes "n \<le> size_of k"
  shows "same_frame k (rollback w n k)"
    "calls (k_log (rollback w n k)) =
       calls (k_log k) @ map (\<lambda>i. (Stop, ids k ! i)) (rev (filter (live k) [0..<n]))"
    "\<forall>i < size_of k. if i < n \<and> live k i then states (rollback w n k) ! i \<in> {CompStopped, CompFailed}
       else states (rollback w n k) ! i = states k ! i"
proof -
  obtain res k' where k': "stop_range w n k = (res, k')" by fastforce
  note spec = stop_range_spec [OF k' assms]
  show "same_frame k (rollback w n k)"
    "calls (k_log (rollback w n k)) =
       calls (k_log k) @ map (\<lambda>i. (Stop, ids k ! i)) (rev (filter (live k) [0..<n]))"
    "\<forall>i < size_of k. if i < n \<and> live k i then states (rollback w n k) ! i \<in> {CompStopped, CompFailed}
       else states (rollback w n k) ! i = states k ! i"
    using spec by (auto simp: rollback_def k' tasks_shutdown_def same_frame_def)
qed

lemma start_started:
  assumes "start w k = (Inr u, k')"
  shows "k_state k = Created \<and> k_state k' = KernelRunning \<and> ids k' = ids k \<and>
    size_of k' = size_of k \<and> k_shutdown_timeout k' = k_shutdown_timeout k \<and>
    (\<forall>i < size_of k. states k' ! i = CompRunning) \<and>
    calls (k_log k') = calls (k_log k) @ map (Pair Init) (ids k) @ map (Pair Start) (ids k)"
proof -
  let ?n = "size_of k"
  from assms obtain r k1 k2 where created: "k_state k = Created"
    and il: "init_loop w [0..<?n] 0 (transition Starting k) = (None, r, k1)"
    and sl: "start_loop w [0..<?n] k1 = (None, k2)" and k': "k' = transition KernelRunning k2"
    by (auto simp: start_def split: if_splits prod.splits option.splits)
  show ?thesis
  proof (cases "?n = 0")
    case True
    with created il sl k' show ?thesis by (auto simp: ids_def)
  next
    case False
    from init_loop_ok [OF il] False have i: "same_frame (transition Starting k) k1"
      "calls (k_log k1) = calls (k_log k) @ map (Pair Init) (ids k)" by auto
    from start_loop_ok [OF sl] i show ?thesis
      using created k' map_ids [of _ k] by (auto simp: same_frame_def)
  qed
qed

lemma start_rolled_back:
  assumes created: "k_state k = Created" and reg: "\<forall>i < size_of k. states k ! i = Registered"
    and err: "start w k = (Inl e, k')"
  obtains j c p where "j < size_of k" "e = Component (ids k ! j) p (BoxError c)"
    "k_state k' = KernelFailed" "ids k' = ids k" "size_of k' = size_of k"
    "\<forall>i < size_of k. states k' ! i \<in> {Registered, CompStopped, CompFailed}"
    "(p = Init \<and> calls (k_log k') = calls (k_log k) @ map (Pair Init) (take (Suc j) (ids k))
         @ map (Pair Stop) (rev (take j (ids k)))) \<or>
     (p = Start \<and> calls (k_log k') = calls (k_log k) @ map (Pair Init) (ids k)
         @ map (Pair Start) (take (Suc j) (ids k))
         @ map (Pair Stop) (rev (take j (ids k) @ drop (Suc j) (ids k))))"
proof -
  let ?n = "size_of k" and ?k0 = "transition Starting k"
  obtain ie r k1 where il: "init_loop w [0..<?n] 0 ?k0 = (ie, r, k1)" by (metis prod_cases3)
  show ?thesis
  proof (cases ie)
    case (Some e1)
    from init_loop_failed [OF il [unfolded Some]] obtain c where
      i: "ids k1 = ids k" "size_of k1 = ?n" "r < ?n"
        "calls (k_log k1) = calls (k_log k) @ map (Pair Init) (take (Suc r) (ids k))"
        "\<forall>j < ?n. states k1 ! j =
           (if j = r then CompFailed else if j < r then Initialized else Registered)"
        "e1 = Component (ids k ! r) Init (BoxError c)"
      using reg map_ids_take [of "Suc r" k Init] by (auto simp: same_frame_def)
    have k': "k' = transition KernelFailed (rollback w r k1)" "e1 = e"
      using err il Some created by (auto simp: start_def)
    have flt: "filter (live k1) [0..<r] = [0..<r]"
      using i by (auto simp: filter_id_conv live_def)
    have n: "r \<le> size_of k1" using i by simp
    from rollback_spec [OF n, of w] i flt k' map_ids_take [of r k Stop] show ?thesis
      by (intro that [of r Init c]) (auto simp: same_frame_def live_def rev_map [symmetric]
          split: if_splits)
  next
    case None
    have pos: "0 < ?n"
      using err il None created by (cases "?n = 0") (auto simp: start_def)
    from init_loop_ok [OF il [unfolded None] pos] have
      i: "ids k1 = ids k" "size_of k1 = ?n" "r = ?n"
        "calls (k_log k1) = calls (k_log k) @ map (Pair Init) (ids k)"
        "\<forall>j < ?n. states k1 ! j = Initialized"
      by (auto simp: same_frame_def)
    from err il None created obtain e2 k2 where
      sl: "start_loop w [0..<?n] k1 = (Some e2, k2)"
      and k': "k' = transition KernelFailed (rollback w ?n k2)" "e2 = e"
      by (auto simp: start_def i split: prod.splits option.splits)
    from sl i(2) obtain j c where
      s: "ids k2 = ids k" "size_of k2 = ?n" "j < ?n"
        "calls (k_log k2) = calls (k_log k1) @ map (Pair Start) (take (Suc j) (ids k))"
        "\<forall>l < ?n. states k2 ! l =
           (if l = j then CompFailed else if l < j then CompRunning else Initialized)"
        "e2 = Component (ids k ! j) Start (BoxError c)"
      using i(1,5) map_ids_take [of "Suc _" k Start]
      by (elim start_loop_failed) (auto simp: same_frame_def)
    have "filter (live k2) [0..<?n] = filter (\<lambda>l. l \<noteq> j) [0..<?n]"
      using s by (intro filter_cong) (auto simp: live_def)
    then have flt: "map (\<lambda>i. (Stop, ids k ! i)) (rev (filter (live k2) [0..<?n])) =
        map (Pair Stop) (rev (take j (ids k) @ drop (Suc j) (ids k)))"
      using s(3) map_ids_take [of j k Stop] map_ids_drop [of Stop k "Suc j"]
      by (simp add: filter_upt_neq rev_map [symmetric])
    have n: "?n \<le> size_of k2" using s by simp
    from rollback_spec [OF n, of w] s i flt k' show ?thesis
      by (intro that [of j Start c]) (auto simp: same_frame_def live_def split: if_splits)
  qed
qed

lemma shutdown_spec:
  assumes k: "k_state k \<notin> {Created, KernelStopped}" and res: "shutdown w k = (r, k')"
  shows "k_state k' = KernelStopped" "ids k' = ids k" "size_of k' = size_of k"
    "calls (k_log k') =
       calls (k_log k) @ map (\<lambda>i. (Stop, ids k ! i)) (rev (filter (live k) [0..<size_of k]))"
    "\<forall>i < size_of k. if live k i then states k' ! i \<in> {CompStopped, CompFailed}
       else states k' ! i = states k ! i"
    "\<forall>i < size_of k. TasksCancelled (ids k ! i) \<in> set (k_log k')"
    "TasksShutdown \<in> set (k_log k')"
    "r = Inr () \<Longrightarrow> \<forall>i < size_of k. live k i \<longrightarrow> states k' ! i = CompStopped"
    "r = Inl e \<Longrightarrow>
       (e = Timeout (k_shutdown_timeout k) \<and> (\<forall>i < size_of k. live k i \<longrightarrow> states k' ! i = CompStopped)) \<or>
       (\<exists>i c. i < size_of k \<and> live k i \<and> states k' ! i = CompFailed \<and>
          e = Component (ids k ! i) Stop (BoxError c) \<and>
          (\<forall>j < size_of k. i < j \<and> live k j \<longrightarrow> states k' ! j = CompStopped))"
proof -
  let ?n = "size_of k" and ?k0 = "transition ShuttingDown k"
  obtain f k1 where sr: "stop_range w ?n ?k0 = (f, k1)" by fastforce
  obtain late k2 where ts: "tasks_shutdown w k1 = (late, k2)" by fastforce
  have r: "(r, k') = (case (case f of None \<Rightarrow> late | Some e \<Rightarrow> Some e) of
       None \<Rightarrow> (Inr (), transition KernelStopped k2)
     | Some e \<Rightarrow> (Inl e, transition KernelStopped k2))"
    using k res sr ts by (auto simp: shutdown_def split: kernel_state.splits)
  then have k': "k' = transition KernelStopped k2" by (auto split: option.splits)
  have k2: "k2 = emit TasksShutdown k1" and late: "late = None \<or> late = Some (Timeout (k_shutdown_timeout k1))"
    using ts by (auto simp: tasks_shutdown_def split: if_splits)
  have [simp]: "live ?k0 = live k" by (simp add: live_def fun_eq_iff)
  note spec = stop_range_spec [OF sr, simplified]
  show "k_state k' = KernelStopped" "ids k' = ids k" "size_of k' = size_of k"
    "calls (k_log k') =
       calls (k_log k) @ map (\<lambda>i. (Stop, ids k ! i)) (rev (filter (live k) [0..<size_of k]))"
    "\<forall>i < size_of k. TasksCancelled (ids k ! i) \<in> set (k_log k')"
    "TasksShutdown \<in> set (k_log k')"
    using spec(1-3) by (auto simp: k' k2 same_frame_def)
  show "\<forall>i < size_of k. if live k i then states k' ! i \<in> {CompStopped, CompFailed}
       else states k' ! i = states k ! i"
    using spec(4) by (auto simp: k' k2)
  show "\<forall>i < size_of k. live k i \<longrightarrow> states k' ! i = CompStopped" if "r = Inr ()"
    using that r spec(5) by (auto simp: k' k2 split: option.splits)
  assume e: "r = Inl e"
  show "(e = Timeout (k_shutdown_timeout k) \<and> (\<forall>i < size_of k. live k i \<longrightarrow> states k' ! i = CompStopped)) \<or>
       (\<exists>i c. i < size_of k \<and> live k i \<and> states k' ! i = CompFailed \<and>
          e = Component (ids k ! i) Stop (BoxError c) \<and>
          (\<forall>j < size_of k. i < j \<and> live k j \<longrightarrow> states k' ! j = CompStopped))"
  proof (cases f)
    case None
    with r e late spec(1,5) show ?thesis
      by (auto simp: k' k2 same_frame_def split: option.splits)
  next
    case (Some f')
    with r e have f': "f' = e" by simp
    with sr Some have "stop_loop w (rev [0..<?n]) None ?k0 = (Some e, k1)"
      by (simp add: stop_range_def)
    moreover have "distinct (rev [0..<?n])" "set (rev [0..<?n]) \<subseteq> {..<size_of ?k0}" by auto
    ultimately obtain xs i ys c where
      w: "rev [0..<?n] = xs @ i # ys" "live k i" "states k1 ! i = CompFailed"
        "e = Component (ids k ! i) Stop (BoxError c)"
        "\<forall>j \<in> set xs. live k j \<longrightarrow> states k1 ! j = CompStopped"
      using stop_loop_error [of w "rev [0..<?n]" ?k0 e k1] by auto
    have upt: "[0..<?n] = rev ys @ i # rev xs" using w(1) by (metis append.assoc append_Cons
          append_Nil rev.simps(2) rev_append rev_rev_ident)
    have "i < ?n" by (metis upt atLeastLessThan_iff in_set_conv_decomp set_upt)
    moreover have "j \<in> set xs" if "i < j" "j < ?n" for j
    proof -
      have "sorted_wrt (<) (rev ys @ i # rev xs)" by (metis upt sorted_wrt_upt)
      moreover have "j \<in> set (rev ys @ i # rev xs)" using that by (metis upt atLeastLessThan_iff le0 set_upt)
      ultimately show ?thesis using that(1) by (auto simp: sorted_wrt_append)
    qed
    ultimately show ?thesis using w by (auto simp: k' k2)
  qed
qed

inductive reachable :: "world \<Rightarrow> kernel \<Rightarrow> kernel \<Rightarrow> bool" for w k0 where
  reach_init: "reachable w k0 k0"
| reach_start: "reachable w k0 k \<Longrightarrow> reachable w k0 (snd (start w k))"
| reach_shutdown: "reachable w k0 k \<Longrightarrow> reachable w k0 (snd (shutdown w k))"

text \<open>A kernel as \<open>build\<close> leaves it.\<close>

definition fresh :: "kernel \<Rightarrow> bool" where
  "fresh k \<longleftrightarrow> k_state k = Created \<and> states k = replicate (size_of k) Registered \<and>
     k_log k = [] \<and> distinct (ids k)"

text \<open>The phases a log shows for one component.\<close>

definition phases :: "string \<Rightarrow> (lifecycle_phase \<times> string) list \<Rightarrow> lifecycle_phase list" where
  "phases i cs = map fst (filter (\<lambda>c. snd c = i) cs)"

lemma phases_append [simp]: "phases i (xs @ ys) = phases i xs @ phases i ys"
  by (simp add: phases_def)

lemma phases_map [simp]:
  "distinct xs \<Longrightarrow> phases i (map (Pair p) xs) = (if i \<in> set xs then [p] else [])"
  by (induction xs) (auto simp: phases_def)

lemma phases_Nil [simp]: "phases i [] = []"
  by (simp add: phases_def)

lemma phases_Cons [simp]: "phases i ((p, j) # cs) = (if j = i then p # phases i cs else phases i cs)"
  by (simp add: phases_def)

definition protocol :: "lifecycle_phase list set" where
  "protocol = {[], [Init], [Init, Start], [Init, Stop], [Init, Start, Stop]}"

definition kernel_inv :: "kernel \<Rightarrow> bool" where
  "kernel_inv k \<longleftrightarrow> distinct (ids k) \<and>
     (case k_state k of
        Created \<Rightarrow> calls (k_log k) = [] \<and> (\<forall>i < size_of k. states k ! i = Registered)
      | KernelRunning \<Rightarrow> (\<forall>i < size_of k. states k ! i = CompRunning) \<and>
          calls (k_log k) = map (Pair Init) (ids k) @ map (Pair Start) (ids k)
      | KernelStopped \<Rightarrow> (\<forall>i < size_of k. \<not> live k i) \<and> (\<forall>i. phases i (calls (k_log k)) \<in> protocol)
      | KernelFailed \<Rightarrow> (\<forall>i < size_of k. \<not> live k i) \<and> (\<forall>i. phases i (calls (k_log k)) \<in> protocol)
      | _ \<Rightarrow> False)"

lemma protocol_rolled_back:
  assumes "distinct order" "j < length order"
  shows "phases i (map (Pair Init) (take (Suc j) order) @ map (Pair Stop) (rev (take j order))) \<in> protocol"
    "phases i (map (Pair Init) order @ map (Pair Start) (take (Suc j) order)
       @ map (Pair Stop) (rev (take j order @ drop (Suc j) order))) \<in> protocol"
proof -
  have split: "order = take j order @ order ! j # drop (Suc j) order"
    using assms(2) by (rule id_take_nth_drop)
  then have dst: "distinct (take j order @ order ! j # drop (Suc j) order)" using assms(1) by simp
  have mem: "i \<in> set order \<longleftrightarrow> i \<in> set (take j order) \<or> i = order ! j \<or> i \<in> set (drop (Suc j) order)"
    using arg_cong [OF split, of set] by auto
  show "phases i (map (Pair Init) (take (Suc j) order) @ map (Pair Stop) (rev (take j order))) \<in> protocol"
    using assms dst by (auto simp: protocol_def take_Suc_conv_app_nth)
  show "phases i (map (Pair Init) order @ map (Pair Start) (take (Suc j) order)
       @ map (Pair Stop) (rev (take j order @ drop (Suc j) order))) \<in> protocol"
    using assms dst mem by (simp add: protocol_def take_Suc_conv_app_nth del: rev_append) auto
qed

lemma kernel_inv_start:
  assumes "kernel_inv k"
  shows "kernel_inv (snd (start w k))"
proof (cases "k_state k = Created")
  case False
  then show ?thesis using assms by (simp add: start_def)
next
  case True
  obtain r k' where st: "start w k = (r, k')" by fastforce
  from assms True have inv: "distinct (ids k)" "calls (k_log k) = []"
    "\<forall>i < size_of k. states k ! i = Registered" by (auto simp: kernel_inv_def)
  show ?thesis
  proof (cases r)
    case (Inr u)
    from start_started [of w k u k'] st Inr inv show ?thesis by (auto simp: kernel_inv_def)
  next
    case (Inl e)
    from start_rolled_back [OF True inv(3) st [unfolded Inl]] obtain j c p where
      "j < size_of k" "k_state k' = KernelFailed" "ids k' = ids k" "size_of k' = size_of k"
      "\<forall>i < size_of k. states k' ! i \<in> {Registered, CompStopped, CompFailed}"
      "calls (k_log k') = map (Pair Init) (take (Suc j) (ids k)) @ map (Pair Stop) (rev (take j (ids k)))
       \<or> calls (k_log k') = map (Pair Init) (ids k) @ map (Pair Start) (take (Suc j) (ids k))
           @ map (Pair Stop) (rev (take j (ids k) @ drop (Suc j) (ids k)))"
      using inv(2) by (metis append_Nil)
    with protocol_rolled_back [OF inv(1), of j] show ?thesis
      using st inv(1) by (auto simp: kernel_inv_def live_def)
  qed
qed

lemma filter_live_none: "\<forall>i < size_of k. \<not> live k i \<Longrightarrow> filter (live k) [0..<size_of k] = []"
  by (simp add: filter_empty_conv)

lemma filter_live_all: "\<forall>i < size_of k. live k i \<Longrightarrow> filter (live k) [0..<size_of k] = [0..<size_of k]"
  by (simp add: filter_id_conv)

lemma stop_calls_all:
  "\<forall>i < size_of k. live k i \<Longrightarrow>
   map (\<lambda>i. (Stop, ids k ! i)) (rev (filter (live k) [0..<size_of k])) = map (Pair Stop) (rev (ids k))"
  by (simp add: filter_live_all rev_map [symmetric])

lemma kernel_inv_shutdown:
  assumes inv: "kernel_inv k"
  shows "kernel_inv (snd (shutdown w k))"
proof (cases "k_state k \<in> {Created, KernelStopped}")
  case True
  then show ?thesis
    using inv by (auto simp: shutdown_def kernel_inv_def live_def protocol_def)
next
  case False
  obtain r k' where sd: "shutdown w k = (r, k')" by fastforce
  note spec = shutdown_spec [OF False sd]
  from spec(3,5) have dead: "\<forall>i < size_of k'. \<not> live k' i"
    unfolding live_def by (metis component_state.distinct insertE empty_iff live_def)
  have "phases i (calls (k_log k')) \<in> protocol" for i
  proof (cases "k_state k = KernelRunning")
    case True
    with inv have all: "\<forall>i < size_of k. live k i" by (simp add: kernel_inv_def live_def)
    have "phases i (map (Pair Stop) (rev (ids k))) = (if i \<in> set (ids k) then [Stop] else [])"
      using inv by (subst phases_map) (simp_all add: kernel_inv_def)
    then show ?thesis
      using inv True spec(4) unfolding stop_calls_all [OF all]
      by (simp add: kernel_inv_def protocol_def)
  next
    case nr: False
    then have "\<forall>i < size_of k. \<not> live k i" "\<forall>i. phases i (calls (k_log k)) \<in> protocol"
      using inv False by (auto simp: kernel_inv_def split: kernel_state.splits)
    then show ?thesis using spec(4) by (simp add: filter_live_none)
  qed
  then show ?thesis
    using dead spec(1,2) inv sd by (simp add: kernel_inv_def)
qed

lemma reachable_inv: "reachable w k0 k \<Longrightarrow> kernel_inv k0 \<Longrightarrow> kernel_inv k"
  by (induction rule: reachable.induct) (simp_all add: kernel_inv_start kernel_inv_shutdown)

lemma fresh_inv: "fresh k \<Longrightarrow> kernel_inv k"
  by (simp add: fresh_def kernel_inv_def)

section \<open>What a build gives\<close>

lemma collect_plugins_Inr:
  "collect_plugins ps seen ms cs = Inr (ms', cs') \<Longrightarrow> distinct seen \<Longrightarrow>
   ms' = ms @ map pl_metadata ps \<and> distinct (map (\<lambda>p. pm_id (pl_metadata p)) ps) \<and>
   (\<forall>p \<in> set ps. pm_abi_version (pl_metadata p) = kernel_abi_version \<and>
      pm_id (pl_metadata p) \<notin> set seen)"
proof (induction ps arbitrary: seen ms cs)
  case (Cons p ps)
  then obtain pushed where "pm_abi_version (pl_metadata p) = kernel_abi_version"
    "pm_id (pl_metadata p) \<notin> set seen"
    "collect_plugins ps (pm_id (pl_metadata p) # seen) (ms @ [pl_metadata p]) (cs @ pushed)
       = Inr (ms', cs')"
    by (auto simp: Let_def split: if_splits sum.splits)
  with Cons.IH [OF this(3)] Cons.prems(2) show ?case by auto
qed simp

lemma reject_duplicates_Inr:
  "reject_duplicate_components ds seen = Inr () \<longleftrightarrow>
   distinct (map cd_id ds) \<and> set (map cd_id ds) \<inter> set seen = {}"
  by (induction ds arbitrary: seen) auto

lemma take_components_Some:
  "distinct order \<Longrightarrow> set order \<subseteq> fst ` set slots \<Longrightarrow> \<forall>e \<in> set slots. cd_id (snd e) = fst e \<Longrightarrow>
   \<exists>ms. take_components order slots = Some ms \<and>
     map (\<lambda>m. cd_id (m_descriptor m)) ms = order \<and> map m_state ms = replicate (length order) Registered \<and>
     m_descriptor ` set ms \<subseteq> snd ` set slots"
proof (induction order arbitrary: slots)
  case (Cons i order)
  then obtain d where d: "map_of slots i = Some d"
    by (cases "map_of slots i") (auto simp: map_of_eq_None_iff)
  then have mem: "(i, d) \<in> set slots" by (rule map_of_SomeD)
  have sub: "set (AList.delete i slots) = {e \<in> set slots. fst e \<noteq> i}"
    by (auto simp: AList.delete_eq)
  have "set order \<subseteq> fst ` set (AList.delete i slots)"
    unfolding sub using Cons.prems(1,2) by force
  then obtain ms where "take_components order (AList.delete i slots) = Some ms"
    "map (\<lambda>m. cd_id (m_descriptor m)) ms = order" "map m_state ms = replicate (length order) Registered"
    "m_descriptor ` set ms \<subseteq> snd ` set (AList.delete i slots)"
    using Cons.IH [of "AList.delete i slots"] Cons.prems sub by auto
  moreover have "snd ` set (AList.delete i slots) \<subseteq> snd ` set slots" "d \<in> snd ` set slots" "cd_id d = i"
    using mem Cons.prems(3) by (force simp: sub)+
  ultimately show ?case using d by auto
qed simp

lemma take_ordered:
  assumes dst: "distinct (map cd_id ds)" and ok: "resolve_order ds = Some (Inr order)"
  obtains ms where "take_components order (map (\<lambda>d. (cd_id d, d)) ds) = Some ms"
    "map (\<lambda>m. cd_id (m_descriptor m)) ms = order"
    "map m_state ms = replicate (length ms) Registered" "m_descriptor ` set ms = set ds"
proof -
  have set: "set order = cd_id ` set ds" using resolve_order_Inr(2) [OF dst ok] by simp
  obtain ms where ms: "take_components order (map (\<lambda>d. (cd_id d, d)) ds) = Some ms"
    "map (\<lambda>m. cd_id (m_descriptor m)) ms = order"
    "map m_state ms = replicate (length order) Registered" "m_descriptor ` set ms \<subseteq> set ds"
    using take_components_Some [of order "map (\<lambda>d. (cd_id d, d)) ds"]
      resolve_order_distinct [OF dst ok] set by (auto simp: image_image)
  have "d \<in> m_descriptor ` set ms" if "d \<in> set ds" for d
  proof -
    have "cd_id d \<in> set (map (\<lambda>m. cd_id (m_descriptor m)) ms)" using that ms(2) set by simp
    then obtain m where "m \<in> set ms" "cd_id (m_descriptor m) = cd_id d" by auto
    with that ms(4) dst show ?thesis by (auto simp: distinct_map dest: inj_onD)
  qed
  with ms show ?thesis by (intro that [of ms]) auto
qed

lemma build_cases:
  obtains (refused) e where "build b settings = Some (Inl e)"
  | (built) k ds where "build b settings = Some (Inr k)"
      "collect_plugins (kb_plugins b) [] [] (kb_components b) = Inr (k_plugins k, ds)"
      "distinct (map cd_id ds)" "resolve_order ds = Some (Inr (ids k))"
      "m_descriptor ` set (k_components k) = set ds" "fresh k" "0 < k_event_capacity k"
proof (cases "\<exists>e. build b settings = Some (Inl e)")
  case True
  then show ?thesis using refused by blast
next
  case False
  then obtain s plugins ds where s: "settings = Inr s"
    and cp: "collect_plugins (kb_plugins b) [] [] (kb_components b) = Inr (plugins, ds)"
    and rd: "reject_duplicate_components ds [] = Inr ()"
    by (auto simp: build_def split: sum.splits)
  have dst: "distinct (map cd_id ds)" using rd by (simp add: reject_duplicates_Inr)
  then obtain order where ro: "resolve_order ds = Some (Inr order)"
    using resolve_order_total [OF dst] False s cp rd
    by (auto simp: build_def split: sum.splits)
  obtain ms where ms: "take_components order (map (\<lambda>d. (cd_id d, d)) ds) = Some ms"
    "map (\<lambda>m. cd_id (m_descriptor m)) ms = order"
    "map m_state ms = replicate (length ms) Registered" "m_descriptor ` set ms = set ds"
    by (rule take_ordered [OF dst ro])
  define capacity where
    "capacity = (case kb_event_capacity b of None \<Rightarrow> ks_event_capacity s | Some c \<Rightarrow> c)"
  define k where "k = \<lparr>k_components = ms, k_plugins = plugins, k_event_capacity = capacity,
     k_shutdown_timeout = (case kb_shutdown_timeout b of
        None \<Rightarrow> from_millis (ks_shutdown_timeout_ms s) | Some t \<Rightarrow> t),
     k_state = Created, k_log = []\<rparr>"
  have cap: "capacity \<noteq> 0"
  proof
    assume "capacity = 0"
    then have "build b settings =
        Some (Inl (Config ''kernel.event_capacity'' ''must be greater than zero''))"
      using s cp rd ro by (simp add: build_def Let_def capacity_def)
    with False show False by blast
  qed
  show ?thesis
  proof (rule built [of k ds])
    show "build b settings = Some (Inr k)"
      using s cp rd ro ms(1) cap by (simp add: build_def Let_def k_def capacity_def)
    show "resolve_order ds = Some (Inr (ids k))" using ro ms(2) by (simp add: k_def ids_def)
    show "fresh k"
      using ms(2,3) resolve_order_distinct [OF dst ro] by (simp add: fresh_def k_def ids_def states_def)
  qed (use cp dst ms(4) cap in \<open>simp_all add: k_def\<close>)
qed

section \<open>Properties\<close>

text \<open>A kernel for the witnesses: two components, and worlds in which
  every call succeeds or one call fails.\<close>

definition demo_builder :: kernel_builder where
  "demo_builder = \<lparr>kb_components = [requires (descriptor_new ''app'') ''db'', descriptor_new ''db''], kb_plugins = [],
     kb_event_capacity = Some 4, kb_shutdown_timeout = Some 5\<rparr>"

definition demo_settings :: kernel_settings where
  "demo_settings = \<lparr>ks_event_capacity = 4, ks_shutdown_timeout_ms = 1\<rparr>"

definition demo_kernel :: kernel where
  "demo_kernel = \<lparr>k_components =
       map (\<lambda>d. \<lparr>m_descriptor = d, m_state = Registered\<rparr>)
         [descriptor_new ''db'', requires (descriptor_new ''app'') ''db''],
     k_plugins = [], k_event_capacity = 4, k_shutdown_timeout = 5,
     k_state = Created, k_log = []\<rparr>"

definition failing_world :: "lifecycle_phase \<Rightarrow> string \<Rightarrow> world" where
  "failing_world p c = \<lparr>w_outcome = (\<lambda>log q d. if q = p \<and> d = c then Some Cancelled else None),
     w_tasks_done = (\<lambda>log. True)\<rparr>"

lemma demo_build: "build demo_builder (Inr demo_settings) = Some (Inr demo_kernel)"
  by code_simp

lemma demo_ids: "ids demo_kernel = [''db'', ''app'']"
  by code_simp

lemma demo_fresh: "fresh demo_kernel"
  by code_simp

lemma demo_start_ok: "fst (start (failing_world Stop ''db'') demo_kernel) = Inr ()"
  by code_simp

lemma demo_start_fails:
  "fst (start (failing_world Start ''db'') demo_kernel) = Inl (Component ''db'' Start (BoxError Cancelled))"
  by code_simp

text \<open>Building never panics, and a built kernel is sound: its plugins match the kernel's ABI
  and have distinct names, its components are exactly those registered directly or by plugins,
  in the order the dependency resolution gives, and none has been touched yet.\<close>

theorem build_sound:
  "build b settings \<noteq> None \<and>
   (\<forall>k. build b settings = Some (Inr k) \<longrightarrow>
      (\<exists>ds. collect_plugins (kb_plugins b) [] [] (kb_components b) = Inr (k_plugins k, ds) \<and>
         set (map m_descriptor (k_components k)) = set ds \<and>
         resolve_order ds = Some (Inr (ids k))) \<and>
      distinct (map pm_id (k_plugins k)) \<and>
      (\<forall>p \<in> set (k_plugins k). pm_abi_version p = kernel_abi_version) \<and>
      fresh k \<and> 0 < k_event_capacity k)"
proof (cases b settings rule: build_cases)
  case (built k ds)
  from collect_plugins_Inr [OF built(2)] have "k_plugins k = map pl_metadata (kb_plugins b)"
    "distinct (map pm_id (k_plugins k))"
    "\<forall>p \<in> set (k_plugins k). pm_abi_version p = kernel_abi_version"
    by (auto simp: comp_def)
  with built show ?thesis by auto
qed simp

theorem build_sound_witness:
  "build demo_builder (Inr demo_settings) = Some (Inr demo_kernel) \<and> fresh demo_kernel \<and>
   distinct (ids demo_kernel)"
  using build_sound [of demo_builder "Inr demo_settings"] demo_build by (simp add: fresh_def)

text \<open>A start that succeeds initialises every component in startup order, then starts every
  component in the same order, calls nothing else, and leaves all of them running.\<close>

theorem start_success:
  assumes "start w k = (Inr (), k')"
  shows "k_state k = Created \<and> k_state k' = KernelRunning \<and> ids k' = ids k \<and>
    states k' = replicate (size_of k) CompRunning \<and>
    calls (k_log k') = calls (k_log k) @ map (Pair Init) (ids k) @ map (Pair Start) (ids k)"
  using start_started [OF assms] by (simp add: list_eq_iff_nth_eq)

theorem start_success_witness:
  "calls (k_log (snd (start (failing_world Stop ''db'') demo_kernel))) =
     map (Pair Init) [''db'', ''app''] @
     map (Pair Start) [''db'', ''app'']"
proof -
  have "start (failing_world Stop ''db'') demo_kernel =
      (Inr (), snd (start (failing_world Stop ''db'') demo_kernel))"
    using demo_start_ok by (metis prod.collapse)
  from start_success [OF this] show ?thesis by (simp add: demo_ids) (simp add: demo_kernel_def)
qed

text \<open>C14. A start that fails is rolled back: the error names the component and the phase that
  failed, the kernel is failed, no component is left initialised or running, and every component
  that was initialised and did not itself fail is stopped exactly once, in reverse startup
  order. A component whose turn never came is not called.\<close>

theorem start_failure:
  assumes "fresh k" and "start w k = (Inl e, k')"
  shows "k_state k' = KernelFailed \<and> ids k' = ids k \<and>
    (\<forall>s \<in> set (states k'). s \<notin> {Initialized, CompRunning}) \<and>
    (\<exists>j < size_of k. \<exists>p c. e = Component (ids k ! j) p (BoxError c) \<and>
      (p = Init \<and> calls (k_log k') = map (Pair Init) (take (Suc j) (ids k)) @
         map (Pair Stop) (rev (take j (ids k))) \<or>
       p = Start \<and> calls (k_log k') = map (Pair Init) (ids k) @
         map (Pair Start) (take (Suc j) (ids k)) @
         map (Pair Stop) (rev (take j (ids k) @ drop (Suc j) (ids k)))))"
proof -
  have f: "k_state k = Created" "\<forall>i < size_of k. states k ! i = Registered" "k_log k = []"
    using assms(1) by (simp_all add: fresh_def)
  from start_rolled_back [OF f(1,2) assms(2)] obtain j c p where
    r: "j < size_of k" "e = Component (ids k ! j) p (BoxError c)" "k_state k' = KernelFailed"
      "ids k' = ids k" "size_of k' = size_of k"
      "\<forall>i < size_of k. states k' ! i \<in> {Registered, CompStopped, CompFailed}"
      "p = Init \<and> calls (k_log k') = map (Pair Init) (take (Suc j) (ids k))
         @ map (Pair Stop) (rev (take j (ids k))) \<or>
       p = Start \<and> calls (k_log k') = map (Pair Init) (ids k)
         @ map (Pair Start) (take (Suc j) (ids k))
         @ map (Pair Stop) (rev (take j (ids k) @ drop (Suc j) (ids k)))"
    using f(3) by (metis append_Nil calls.simps(1))
  then have "\<forall>s \<in> set (states k'). s \<notin> {Initialized, CompRunning}"
    by (fastforce simp: in_set_conv_nth)
  with r show ?thesis by blast
qed

theorem start_failure_witness:
  "fst (start (failing_world Start ''db'') demo_kernel) = Inl (Component ''db'' Start (BoxError Cancelled))
   \<and> Initialized \<notin> set (states (snd (start (failing_world Start ''db'') demo_kernel)))
   \<and> CompRunning \<notin> set (states (snd (start (failing_world Start ''db'') demo_kernel)))"
proof -
  have st: "start (failing_world Start ''db'') demo_kernel =
      (Inl (Component ''db'' Start (BoxError Cancelled)),
       snd (start (failing_world Start ''db'') demo_kernel))"
    using demo_start_fails by (metis prod.collapse)
  from start_failure [OF demo_fresh st] demo_start_fails show ?thesis by blast
qed

text \<open>C15. Shutting a running kernel down stops every component once, in reverse startup order, even
  when some of them fail to stop; every task group is cancelled; the kernel is stopped; success
  means that every component stopped, and an error is that of the first component that failed
  to stop or, when none did, the background tasks running out of time.\<close>

theorem shutdown_stops_all:
  assumes run: "k_state k = KernelRunning" "states k = replicate (size_of k) CompRunning"
    and res: "shutdown w k = (r, k')"
  shows "k_state k' = KernelStopped \<and>
    calls (k_log k') = calls (k_log k) @ map (Pair Stop) (rev (ids k)) \<and>
    set (states k') \<subseteq> {CompStopped, CompFailed} \<and>
    (\<forall>i \<in> set (ids k). TasksCancelled i \<in> set (k_log k')) \<and> TasksShutdown \<in> set (k_log k') \<and>
    (r = Inr () \<longrightarrow> states k' = replicate (size_of k) CompStopped) \<and>
    (\<forall>e. r = Inl e \<longrightarrow>
       e = Timeout (k_shutdown_timeout k) \<and> states k' = replicate (size_of k) CompStopped \<or>
       (\<exists>i < size_of k. \<exists>c. e = Component (ids k ! i) Stop (BoxError c) \<and>
          states k' ! i = CompFailed \<and>
          (\<forall>j. i < j \<and> j < size_of k \<longrightarrow> states k' ! j = CompStopped)))"
proof -
  have k: "k_state k \<notin> {Created, KernelStopped}" using run by simp
  have live: "\<forall>i < size_of k. live k i" using run(2) by (simp add: live_def)
  note spec = shutdown_spec [OF k res]
  have len: "length (states k') = size_of k" using spec(3) by simp
  have "set (states k') \<subseteq> {CompStopped, CompFailed}"
    using spec(5) live len by (auto simp: in_set_conv_nth)
  moreover have "\<forall>i \<in> set (ids k). TasksCancelled i \<in> set (k_log k')"
    using spec(6) by (auto simp: in_set_conv_nth)
  moreover have eq: "states k' = replicate (size_of k) CompStopped \<longleftrightarrow>
      (\<forall>i < size_of k. states k' ! i = CompStopped)"
    using len by (simp add: list_eq_iff_nth_eq)
  moreover have "e = Timeout (k_shutdown_timeout k) \<and> (\<forall>i < size_of k. states k' ! i = CompStopped) \<or>
       (\<exists>i < size_of k. \<exists>c. e = Component (ids k ! i) Stop (BoxError c) \<and>
          states k' ! i = CompFailed \<and>
          (\<forall>j. i < j \<and> j < size_of k \<longrightarrow> states k' ! j = CompStopped))" if "r = Inl e" for e
    using spec(9) [OF that] live by blast
  ultimately show ?thesis
    using spec(1,4,7,8) live unfolding stop_calls_all [OF live] eq by simp
qed

theorem shutdown_stops_all_witness:
  "fst (shutdown (failing_world Stop ''db'') (snd (start (failing_world Stop ''db'') demo_kernel)))
     = Inl (Component ''db'' Stop (BoxError Cancelled)) \<and>
   k_state (snd (shutdown (failing_world Stop ''db'')
     (snd (start (failing_world Stop ''db'') demo_kernel)))) = KernelStopped"
proof -
  let ?w = "failing_world Stop ''db''"
  let ?k = "snd (start ?w demo_kernel)"
  have run: "k_state ?k = KernelRunning" "states ?k = replicate (size_of ?k) CompRunning" by code_simp+
  have "shutdown ?w ?k = (fst (shutdown ?w ?k), snd (shutdown ?w ?k))" by simp
  note all = shutdown_stops_all [OF run this]
  have "fst (shutdown ?w ?k) = Inl (Component ''db'' Stop (BoxError Cancelled))" by code_simp
  with all show ?thesis by blast
qed

text \<open>C4. Whatever sequence of starts and shutdowns is asked of a built kernel, and whatever its
  components answer, the calls each component sees are a prefix-free run of the protocol: at
  most one init, then at most one start, then at most one stop, never a stop without an init.\<close>

theorem lifecycle_protocol:
  assumes "build b settings = Some (Inr k0)" and "reachable w k0 k"
  shows "map fst (filter (\<lambda>c. snd c = i) (calls (k_log k))) \<in>
    {[], [Init], [Init, Start], [Init, Stop], [Init, Start, Stop]}"
proof -
  have "fresh k0" using assms(1) by (cases b settings rule: build_cases) auto
  then have inv: "kernel_inv k" by (intro reachable_inv [OF assms(2)] fresh_inv)
  then have "phases i (calls (k_log k)) \<in> protocol"
    by (cases "k_state k") (auto simp: kernel_inv_def protocol_def)
  then show ?thesis by (simp add: phases_def protocol_def)
qed

theorem lifecycle_protocol_witness:
  "map fst (filter (\<lambda>c. snd c = ''app'') (calls (k_log (snd (shutdown (failing_world Stop ''db'')
     (snd (start (failing_world Stop ''db'') demo_kernel)))))))
   \<in> {[], [Init], [Init, Start], [Init, Stop], [Init, Start, Stop]}"
  by (rule lifecycle_protocol [OF demo_build, where w = "failing_world Stop ''db''"])
     (intro reachable.intros)

text \<open>C5. The lifecycle follows the dependencies: when a built kernel is started and later shut
  down, the calls are the inits, the starts and, backwards, the stops of one order in which every
  registered dependency stands before the component that declares it; so a component is
  initialised and started after what it depends on, and stopped before it.\<close>

theorem lifecycle_follows_dependencies:
  assumes built: "build b settings = Some (Inr k)"
    and started: "start w k = (Inr (), k1)" and stopped: "shutdown w k1 = (r, k2)"
    and m: "m \<in> set (k_components k)" and x: "x \<in> set (cd_dependencies (m_descriptor m))"
    and reg: "\<not> dep_optional x \<or> dep_id x \<in> set (ids k)"
  shows "\<exists>xs ys. calls (k_log k2) =
      map (Pair Init) (xs @ cd_id (m_descriptor m) # ys) @
      map (Pair Start) (xs @ cd_id (m_descriptor m) # ys) @
      map (Pair Stop) (rev (xs @ cd_id (m_descriptor m) # ys)) \<and> dep_id x \<in> set xs"
proof -
  obtain ds where ds: "distinct (map cd_id ds)" "resolve_order ds = Some (Inr (ids k))"
    "m_descriptor ` set (k_components k) = set ds" and "fresh k"
    using built by (cases b settings rule: build_cases) auto
  have d: "m_descriptor m \<in> set ds" using ds(3) m by blast
  have "dep_id x \<in> set (ids k)"
    using resolve_order_Inr_wired [OF ds(1,2)] resolve_order_Inr(2) [OF ds(1,2)] d x reg
    by (auto simp: well_wired_def)
  from resolve_order_before [OF ds(1,2) d x this] obtain xs ys where
    o: "ids k = xs @ cd_id (m_descriptor m) # ys" "dep_id x \<in> set xs" by blast
  note st = start_started [OF started]
  have "k_state k1 \<notin> {Created, KernelStopped}" using st by simp
  from shutdown_spec(4) [OF this stopped] st have
    "calls (k_log k2) = calls (k_log k1) @ map (Pair Stop) (rev (ids k))"
    using stop_calls_all [of k1] by (simp add: live_def)
  with st o \<open>fresh k\<close> show ?thesis by (simp add: fresh_def) blast
qed

theorem lifecycle_follows_dependencies_witness:
  "\<exists>xs ys. calls (k_log (snd (shutdown (failing_world Stop ''db'')
       (snd (start (failing_world Stop ''db'') demo_kernel))))) =
     map (Pair Init) (xs @ ''app'' # ys) @ map (Pair Start) (xs @ ''app'' # ys) @
     map (Pair Stop) (rev (xs @ ''app'' # ys)) \<and> ''db'' \<in> set xs"
proof -
  let ?w = "failing_world Stop ''db''"
  let ?m = "\<lparr>m_descriptor = requires (descriptor_new ''app'') ''db'', m_state = Registered\<rparr>"
  have st: "start ?w demo_kernel = (Inr (), snd (start ?w demo_kernel))"
    using demo_start_ok by (metis prod.collapse)
  have m: "?m \<in> set (k_components demo_kernel)" by (simp add: demo_kernel_def)
  show ?thesis
    using lifecycle_follows_dependencies [OF demo_build st prod.collapse [symmetric] m,
        of "\<lparr>dep_id = ''db'', dep_optional = False\<rparr>"]
    by (simp add: requires_def descriptor_new_def)
qed

end
