(* ===== verification/Aik_Registry.thy ===== *)
theory Aik_Registry
  imports Aik_Error
begin

text \<open>
  The typed service registry (src/crates/core/src/registry.rs). Services are filed by
  capability, the type they are registered under, and by the component that provides them; a
  stored value remembers the type it was erased from, which every downcast checks again. The
  invariant shows that no downcast can fail and that a default always names a live service.
\<close>

section \<open>State and operations\<close>

text \<open>A Rust type: its \<^verbatim>\<open>TypeId\<close> and its \<^verbatim>\<open>type_name\<close>.\<close>

record rust_type =
  ty_id :: nat
  ty_name :: string

text \<open>An erased service: the type of the \<^verbatim>\<open>Arc<T>\<close> in the box, and the object.\<close>

record 's erased =
  er_type :: nat
  er_value :: 's

type_synonym 's slot = "(string, 's erased) hash_map"

record 's registry =
  r_services :: "(nat, 's slot) hash_map"
  r_defaults :: "(nat, string) hash_map"

definition registry_new :: "'s registry" where
  "registry_new = \<lparr>r_services = [], r_defaults = []\<rparr>"

definition downcast :: "rust_type \<Rightarrow> 's erased \<Rightarrow> 's option" where
  "downcast t e = (if er_type e = ty_id t then Some (er_value e) else None)"

text \<open>\<^verbatim>\<open>entry(..).or_default()\<close>: the slot of a type, empty when there is none yet.\<close>

definition slot_or_default :: "rust_type \<Rightarrow> 's registry \<Rightarrow> 's slot" where
  "slot_or_default t r = (case map_of (r_services r) (ty_id t) of None \<Rightarrow> [] | Some m \<Rightarrow> m)"

definition service_path :: "rust_type \<Rightarrow> string \<Rightarrow> string" where
  "service_path t i = ty_name t @ ''/'' @ i"

definition register :: "rust_type \<Rightarrow> string \<Rightarrow> 's \<Rightarrow> 's registry \<Rightarrow> unit result \<times> 's registry" where
  "register t i s r =
     (let slot = slot_or_default t r in
      if map_of slot i \<noteq> None
      then (Inl (AlreadyExists ''service'' (service_path t i)),
            r\<lparr>r_services := AList.update (ty_id t) slot (r_services r)\<rparr>)
      else (Inr (), r\<lparr>r_services := AList.update (ty_id t)
              (AList.update i \<lparr>er_type = ty_id t, er_value = s\<rparr> slot) (r_services r)\<rparr>))"

definition set_default :: "rust_type \<Rightarrow> string \<Rightarrow> 's registry \<Rightarrow> unit result \<times> 's registry" where
  "set_default t i r =
     (if (case map_of (r_services r) (ty_id t) of None \<Rightarrow> False | Some m \<Rightarrow> map_of m i \<noteq> None)
      then (Inr (), r\<lparr>r_defaults := AList.update (ty_id t) i (r_defaults r)\<rparr>)
      else (Inl (NotFound ''service'' (service_path t i)), r))"

definition register_default ::
  "rust_type \<Rightarrow> string \<Rightarrow> 's \<Rightarrow> 's registry \<Rightarrow> unit result \<times> 's registry" where
  "register_default t i s r =
     (case register t i s r of
        (Inl e, r') \<Rightarrow> (Inl e, r')
      | (Inr _, r') \<Rightarrow> set_default t i r')"

definition replace :: "rust_type \<Rightarrow> string \<Rightarrow> 's \<Rightarrow> 's registry \<Rightarrow> bool \<times> 's registry" where
  "replace t i s r =
     (let slot = slot_or_default t r in
      (map_of slot i \<noteq> None,
       r\<lparr>r_services := AList.update (ty_id t)
          (AList.update i \<lparr>er_type = ty_id t, er_value = s\<rparr> slot) (r_services r)\<rparr>))"

definition try_get :: "rust_type \<Rightarrow> string \<Rightarrow> 's registry \<Rightarrow> 's option" where
  "try_get t i r =
     Option.bind (map_of (r_services r) (ty_id t)) (\<lambda>slot.
     Option.bind (map_of slot i) (downcast t))"

definition get_service :: "rust_type \<Rightarrow> string \<Rightarrow> 's registry \<Rightarrow> 's result" where
  "get_service t i r =
     (case try_get t i r of
        None \<Rightarrow> Inl (NotFound ''service'' (service_path t i))
      | Some s \<Rightarrow> Inr s)"

definition resolve :: "rust_type \<Rightarrow> 's registry \<Rightarrow> 's result" where
  "resolve t r =
     (case map_of (r_services r) (ty_id t) of
        None \<Rightarrow> Inl (NotFound ''service'' (ty_name t))
      | Some slot \<Rightarrow>
          (case (case map_of (r_defaults r) (ty_id t) of
                   Some d \<Rightarrow>
                     (case map_of slot d of
                        None \<Rightarrow> Inl (NotFound ''service'' (service_path t d))
                      | Some e \<Rightarrow> Inr e)
                 | None \<Rightarrow>
                     (case slot of
                        [] \<Rightarrow> Inl (NotFound ''service'' (ty_name t))
                      | [(i, e)] \<Rightarrow> Inr e
                      | _ \<Rightarrow> Inl (Ambiguous (ty_name t) (sort (map fst slot))))) of
             Inl err \<Rightarrow> Inl err
           | Inr e \<Rightarrow>
               (case downcast t e of
                  None \<Rightarrow> Inl (other (''service `'' @ ty_name t @ ''` has the wrong type''))
                | Some s \<Rightarrow> Inr s)))"

definition list_services :: "rust_type \<Rightarrow> 's registry \<Rightarrow> (string \<times> 's) list" where
  "list_services t r =
     (case map_of (r_services r) (ty_id t) of
        None \<Rightarrow> []
      | Some slot \<Rightarrow>
          sort_key fst
            (List.map_filter (\<lambda>(i, e). map_option (Pair i) (downcast t e)) slot))"

definition names :: "rust_type \<Rightarrow> 's registry \<Rightarrow> string list" where
  "names t r =
     (case map_of (r_services r) (ty_id t) of None \<Rightarrow> [] | Some slot \<Rightarrow> sort (map fst slot))"

definition remove_service :: "rust_type \<Rightarrow> string \<Rightarrow> 's registry \<Rightarrow> bool \<times> 's registry" where
  "remove_service t i r =
     (case map_of (r_services r) (ty_id t) of
        None \<Rightarrow> (False, r)
      | Some slot \<Rightarrow>
          (let removed = map_of slot i \<noteq> None;
               r' = r\<lparr>r_services := AList.update (ty_id t) (AList.delete i slot) (r_services r)\<rparr>
           in (removed,
               if removed \<and> map_of (r_defaults r) (ty_id t) = Some i
               then r'\<lparr>r_defaults := AList.delete (ty_id t) (r_defaults r)\<rparr> else r')))"

section \<open>Abstraction and invariant\<close>

definition slot_inv :: "nat \<Rightarrow> 's slot \<Rightarrow> bool" where
  "slot_inv t slot \<longleftrightarrow> hm_inv slot \<and> (\<forall>i e. map_of slot i = Some e \<longrightarrow> er_type e = t)"

text \<open>Each type has one slot, whose values are of that type, and a default names a service of
  its type.\<close>

definition registry_inv :: "'s registry \<Rightarrow> bool" where
  "registry_inv r \<longleftrightarrow> hm_inv (r_services r) \<and> hm_inv (r_defaults r) \<and>
     (\<forall>t slot. map_of (r_services r) t = Some slot \<longrightarrow> slot_inv t slot) \<and>
     (\<forall>t d. map_of (r_defaults r) t = Some d \<longrightarrow>
        (\<exists>slot. map_of (r_services r) t = Some slot \<and> map_of slot d \<noteq> None))"

text \<open>What the registry holds: the service of each type and component, and the default of each
  type.\<close>

definition provided :: "'s registry \<Rightarrow> nat \<Rightarrow> string \<Rightarrow> 's option" where
  "provided r t i =
     map_option er_value (Option.bind (map_of (r_services r) t) (\<lambda>slot. map_of slot i))"

definition default_of :: "'s registry \<Rightarrow> nat \<Rightarrow> string option" where
  "default_of r = map_of (r_defaults r)"

declare map_of_eq_Some_iff [simp del]

lemma slot_inv_Nil [simp]: "slot_inv t []"
  by (simp add: slot_inv_def)

lemma slot_inv_update [simp]:
  "slot_inv t slot \<Longrightarrow> slot_inv t (AList.update i \<lparr>er_type = t, er_value = s\<rparr> slot)"
  by (auto simp: slot_inv_def distinct_update update_conv')

lemma slot_inv_delete [simp]: "slot_inv t slot \<Longrightarrow> slot_inv t (AList.delete i slot)"
  by (auto simp: slot_inv_def distinct_delete delete_conv' split: if_splits)

lemma slot_or_default_inv: "registry_inv r \<Longrightarrow> slot_inv (ty_id t) (slot_or_default t r)"
  by (simp add: slot_or_default_def registry_inv_def split: option.splits)

lemma default_in_slot:
  "registry_inv r \<Longrightarrow> map_of (r_defaults r) (ty_id t) = Some d \<Longrightarrow>
   map_of (slot_or_default t r) d \<noteq> None"
  by (fastforce simp: registry_inv_def slot_or_default_def)

lemma provided_slot:
  "provided r (ty_id t) i = map_option er_value (map_of (slot_or_default t r) i)"
  by (simp add: provided_def slot_or_default_def split: option.splits)

lemma registry_inv_new [simp]: "registry_inv registry_new"
  by (simp add: registry_inv_def registry_new_def)

text \<open>Filing a slot under its type keeps the invariant when no default loses its service.\<close>

lemma registry_inv_put:
  assumes "registry_inv r" and "slot_inv t slot" and "hm_inv ds"
    and "\<forall>d. map_of ds t = Some d \<longrightarrow> map_of slot d \<noteq> None"
    and "\<forall>t' d. t' \<noteq> t \<and> map_of ds t' = Some d \<longrightarrow> map_of (r_defaults r) t' = Some d"
  shows "registry_inv (r\<lparr>r_services := AList.update t slot (r_services r), r_defaults := ds\<rparr>)"
  using assms by (auto simp: registry_inv_def distinct_update update_conv' split: if_splits)

lemma provided_put:
  "provided (r\<lparr>r_services := AList.update t slot (r_services r), r_defaults := ds\<rparr>) =
   (provided r)(t := \<lambda>i. map_option er_value (map_of slot i))"
  by (auto simp: provided_def update_conv' fun_eq_iff)

lemma register_spec:
  assumes inv: "registry_inv r"
  shows "registry_inv (snd (register t i s r))"
    "default_of (snd (register t i s r)) = default_of r"
    "register t i s r = (Inl e, r') \<Longrightarrow> e = AlreadyExists ''service'' (service_path t i) \<and>
       provided r (ty_id t) i \<noteq> None \<and> provided r' = provided r"
    "register t i s r = (Inr u, r') \<Longrightarrow> provided r (ty_id t) i = None \<and>
       provided r' = (provided r)(ty_id t := (provided r (ty_id t))(i \<mapsto> s))"
proof -
  let ?slot = "slot_or_default t r" and ?new = "\<lparr>er_type = ty_id t, er_value = s\<rparr>"
  have si: "slot_inv (ty_id t) ?slot" using inv by (rule slot_or_default_inv)
  note def = default_in_slot [OF inv, of t]
  have pv: "(\<lambda>j. map_option er_value (map_of ?slot j)) = provided r (ty_id t)"
    by (simp add: provided_slot fun_eq_iff)
  have eqs: "r\<lparr>r_services := x\<rparr> = r\<lparr>r_services := x, r_defaults := r_defaults r\<rparr>" for x
    by simp
  show "registry_inv (snd (register t i s r))"
  proof (cases "map_of ?slot i")
    case None
    then show ?thesis
      using registry_inv_put [OF inv slot_inv_update [OF si, of i s], of "r_defaults r"] inv def
      by (auto simp: register_def Let_def update_conv' registry_inv_def)
  next
    case (Some e)
    then show ?thesis
      using registry_inv_put [OF inv si, of "r_defaults r"] inv def
      by (auto simp: register_def Let_def registry_inv_def)
  qed
  show "default_of (snd (register t i s r)) = default_of r"
    by (simp add: register_def Let_def default_of_def)
  show "e = AlreadyExists ''service'' (service_path t i) \<and>
       provided r (ty_id t) i \<noteq> None \<and> provided r' = provided r" if "register t i s r = (Inl e, r')"
    using that provided_put [where r = r and t = "ty_id t" and slot = ?slot and ds = "r_defaults r"] pv
    by (auto simp: register_def Let_def provided_slot split: if_splits)
  show "provided r (ty_id t) i = None \<and>
       provided r' = (provided r)(ty_id t := (provided r (ty_id t))(i \<mapsto> s))"
    if "register t i s r = (Inr u, r')"
    using that provided_put [where r = r and t = "ty_id t" and slot = "AList.update i ?new ?slot"
        and ds = "r_defaults r"] pv
    by (auto simp: register_def Let_def provided_slot update_conv' fun_eq_iff split: if_splits)
qed

lemma set_default_spec:
  assumes inv: "registry_inv r"
  shows "registry_inv (snd (set_default t i r))"
    "provided (snd (set_default t i r)) = provided r"
    "set_default t i r = (Inl e, r') \<Longrightarrow> e = NotFound ''service'' (service_path t i) \<and>
       provided r (ty_id t) i = None \<and> r' = r"
    "set_default t i r = (Inr u, r') \<Longrightarrow> provided r (ty_id t) i \<noteq> None \<and>
       default_of r' = (default_of r)(ty_id t \<mapsto> i)"
  using inv
  by (auto simp: set_default_def registry_inv_def distinct_update update_conv' provided_def
      default_of_def fun_eq_iff split: if_splits option.splits)

lemma replace_spec:
  assumes inv: "registry_inv r" and rep: "replace t i s r = (old, r')"
  shows "registry_inv r'" "old \<longleftrightarrow> provided r (ty_id t) i \<noteq> None" "default_of r' = default_of r"
    "provided r' = (provided r)(ty_id t := (provided r (ty_id t))(i \<mapsto> s))"
proof -
  let ?slot = "slot_or_default t r" and ?new = "\<lparr>er_type = ty_id t, er_value = s\<rparr>"
  have r': "r' = r\<lparr>r_services := AList.update (ty_id t) (AList.update i ?new ?slot) (r_services r)\<rparr>"
    and old: "old \<longleftrightarrow> map_of ?slot i \<noteq> None"
    using rep by (auto simp: replace_def Let_def)
  have si: "slot_inv (ty_id t) ?slot" using inv by (rule slot_or_default_inv)
  note def = default_in_slot [OF inv, of t]
  show "registry_inv r'"
    using registry_inv_put [OF inv slot_inv_update [OF si, of i s], of "r_defaults r"] inv def
    by (auto simp: r' update_conv' registry_inv_def)
  show "old \<longleftrightarrow> provided r (ty_id t) i \<noteq> None" by (simp add: old provided_slot)
  show "default_of r' = default_of r" by (simp add: r' default_of_def)
  show "provided r' = (provided r)(ty_id t := (provided r (ty_id t))(i \<mapsto> s))"
    using provided_put [where r = r and t = "ty_id t" and slot = "AList.update i ?new ?slot"
        and ds = "r_defaults r"]
    by (auto simp: r' provided_slot update_conv' fun_eq_iff)
qed

lemma remove_spec:
  assumes inv: "registry_inv r" and rem: "remove_service t i r = (found, r')"
  shows "registry_inv r'" "found \<longleftrightarrow> provided r (ty_id t) i \<noteq> None"
    "provided r' = (provided r)(ty_id t := (provided r (ty_id t))(i := None))"
    "default_of r' = (if default_of r (ty_id t) = Some i then (default_of r)(ty_id t := None)
                      else default_of r)"
proof -
  have "registry_inv r' \<and> (found \<longleftrightarrow> provided r (ty_id t) i \<noteq> None) \<and>
    provided r' = (provided r)(ty_id t := (provided r (ty_id t))(i := None)) \<and>
    default_of r' = (if default_of r (ty_id t) = Some i then (default_of r)(ty_id t := None)
                     else default_of r)"
  proof (cases "map_of (r_services r) (ty_id t)")
    case None
    with default_in_slot [OF inv, of t] have "map_of (r_defaults r) (ty_id t) = None"
      by (cases "map_of (r_defaults r) (ty_id t)") (auto simp: slot_or_default_def)
    with None rem inv show ?thesis
      by (auto simp: remove_service_def provided_def default_of_def fun_eq_iff)
  next
    case (Some slot)
    let ?ds = "if map_of slot i \<noteq> None \<and> map_of (r_defaults r) (ty_id t) = Some i
               then AList.delete (ty_id t) (r_defaults r) else r_defaults r"
    have r': "r' = r\<lparr>r_services := AList.update (ty_id t) (AList.delete i slot) (r_services r),
                     r_defaults := ?ds\<rparr>" and found: "found \<longleftrightarrow> map_of slot i \<noteq> None"
      using rem Some by (auto simp: remove_service_def Let_def)
    have si: "slot_inv (ty_id t) slot" using inv Some by (simp add: registry_inv_def)
    have def: "map_of slot d \<noteq> None" if "map_of (r_defaults r) (ty_id t) = Some d" for d
      using default_in_slot [OF inv that] Some by (simp add: slot_or_default_def)
    have "registry_inv r'"
      unfolding r' using inv def
      by (intro registry_inv_put slot_inv_delete si)
         (auto simp: registry_inv_def distinct_delete delete_conv')
    moreover have "default_of r' = (if default_of r (ty_id t) = Some i
        then (default_of r)(ty_id t := None) else default_of r)"
      using def by (auto simp: r' default_of_def delete_conv')
    moreover have "provided r' = (provided r)(ty_id t := (provided r (ty_id t))(i := None))"
      unfolding r' provided_put by (auto simp: provided_def Some delete_conv' fun_eq_iff)
    ultimately show ?thesis by (simp add: found provided_def Some)
  qed
  then show "registry_inv r'" "found \<longleftrightarrow> provided r (ty_id t) i \<noteq> None"
    "provided r' = (provided r)(ty_id t := (provided r (ty_id t))(i := None))"
    "default_of r' = (if default_of r (ty_id t) = Some i then (default_of r)(ty_id t := None)
                      else default_of r)"
    by blast+
qed

lemma downcast_ok:
  "registry_inv r \<Longrightarrow> map_of (r_services r) (ty_id t) = Some slot \<Longrightarrow> map_of slot i = Some e \<Longrightarrow>
   downcast t e = Some (er_value e)"
  by (simp add: registry_inv_def slot_inv_def downcast_def)

lemma try_get_provided: "registry_inv r \<Longrightarrow> try_get t i r = provided r (ty_id t) i"
  by (auto simp: try_get_def provided_def downcast_ok split: Option.bind_splits)

lemma dom_provided:
  "map_of (r_services r) t = Some slot \<Longrightarrow> dom (provided r t) = set (map fst slot)"
  by (simp add: provided_def dom_def dom_map_of_conv_image_fst [symmetric])

lemma sort_keys: "hm_inv slot \<Longrightarrow> sort (map fst slot) = sorted_list_of_set (set (map fst slot))"
  by (metis distinct_sort set_sort sorted_list_of_set.idem_if_sorted_distinct sorted_sort)

section \<open>Properties\<close>

definition demo_type :: rust_type where
  "demo_type = \<lparr>ty_id = 7, ty_name = ''dyn Greeter''\<rparr>"

definition demo_registry :: "nat registry" where
  "demo_registry = snd (register demo_type ''loud'' 2 (snd (register demo_type ''calm'' 1 registry_new)))"

lemma demo_registry_inv: "registry_inv demo_registry"
  by (simp add: demo_registry_def register_spec(1))

text \<open>C37. Every operation on the registry keeps its invariant and acts on what the registry
  provides as the corresponding update of a map from types and components to services: a
  registration adds a service that was absent or changes nothing, a replacement overwrites, a
  removal deletes the service and, with it, a default that named it, and a default can only be
  set to a service that is there.\<close>

theorem registry_refines_map:
  assumes inv: "registry_inv r"
  shows "(case register t i s r of (res, r') \<Rightarrow> registry_inv r' \<and> default_of r' = default_of r \<and>
      (if provided r (ty_id t) i = None
       then res = Inr () \<and> provided r' = (provided r)(ty_id t := (provided r (ty_id t))(i \<mapsto> s))
       else res = Inl (AlreadyExists ''service'' (service_path t i)) \<and> provided r' = provided r)) \<and>
    (case replace t i s r of (old, r') \<Rightarrow> registry_inv r' \<and> default_of r' = default_of r \<and>
      old = (provided r (ty_id t) i \<noteq> None) \<and>
      provided r' = (provided r)(ty_id t := (provided r (ty_id t))(i \<mapsto> s))) \<and>
    (case remove_service t i r of (found, r') \<Rightarrow> registry_inv r' \<and>
      found = (provided r (ty_id t) i \<noteq> None) \<and>
      provided r' = (provided r)(ty_id t := (provided r (ty_id t))(i := None)) \<and>
      default_of r' = (if default_of r (ty_id t) = Some i then (default_of r)(ty_id t := None)
                       else default_of r)) \<and>
    (case set_default t i r of (res, r') \<Rightarrow> registry_inv r' \<and> provided r' = provided r \<and>
      (if provided r (ty_id t) i = None
       then res = Inl (NotFound ''service'' (service_path t i)) \<and> r' = r
       else res = Inr () \<and> default_of r' = (default_of r)(ty_id t \<mapsto> i)))"
    (is "?reg \<and> ?rep \<and> ?rem \<and> ?def")
proof (intro conjI)
  obtain res r' where r': "register t i s r = (res, r')" by fastforce
  then show ?reg using register_spec [OF inv, of t i s] by (cases res) auto
  obtain old r2 where "replace t i s r = (old, r2)" by fastforce
  then show ?rep using replace_spec [OF inv, of t i s] by auto
  obtain found r3 where r3: "remove_service t i r = (found, r3)" by fastforce
  show ?rem using remove_spec [OF inv r3] by (simp add: r3)
  obtain res4 r4 where "set_default t i r = (res4, r4)" by fastforce
  then show ?def using set_default_spec [OF inv, of t i] by (cases res4) auto
qed

theorem registry_refines_map_witness:
  "provided (snd (remove_service demo_type ''calm'' demo_registry)) 7 ''calm'' = None \<and>
   provided demo_registry 7 ''calm'' = Some 1"
proof
  show "provided (snd (remove_service demo_type ''calm'' demo_registry)) 7 ''calm'' = None"
    using registry_refines_map [OF demo_registry_inv, of demo_type "''calm''" 0]
    by (auto simp: demo_type_def split: prod.splits)
  show "provided demo_registry 7 ''calm'' = Some 1" by code_simp
qed

text \<open>Resolving a capability is never arbitrary: it gives the default when one is set, which is
  then a live service; else the only provider there is; with several providers it refuses and
  names all of them in order, and with none it reports that there is none. A service never has
  the wrong type.\<close>

theorem resolve_spec:
  assumes inv: "registry_inv r"
  shows "resolve t r =
    (case default_of r (ty_id t) of
       Some d \<Rightarrow> Inr (the (provided r (ty_id t) d))
     | None \<Rightarrow>
         if dom (provided r (ty_id t)) = {} then Inl (NotFound ''service'' (ty_name t))
         else if card (dom (provided r (ty_id t))) = 1
         then Inr (the (provided r (ty_id t) (the_elem (dom (provided r (ty_id t))))))
         else Inl (Ambiguous (ty_name t) (sorted_list_of_set (dom (provided r (ty_id t)))))) \<and>
    (\<forall>d. default_of r (ty_id t) = Some d \<longrightarrow> provided r (ty_id t) d \<noteq> None)"
proof (cases "map_of (r_services r) (ty_id t)")
  case None
  then have "default_of r (ty_id t) = None"
    using default_in_slot [OF inv, of t]
    by (cases "default_of r (ty_id t)") (auto simp: slot_or_default_def default_of_def)
  moreover have "dom (provided r (ty_id t)) = {}" by (simp add: provided_def None dom_def)
  ultimately show ?thesis by (simp add: resolve_def None)
next
  case (Some slot)
  have hm: "hm_inv slot" using inv Some by (simp add: registry_inv_def slot_inv_def)
  note dc = downcast_ok [OF inv Some]
  have pv: "provided r (ty_id t) i = map_option er_value (map_of slot i)" for i
    by (simp add: provided_def Some)
  show ?thesis
  proof (cases "default_of r (ty_id t)")
    case (Some d)
    then obtain e where e: "map_of slot d = Some e"
      using default_in_slot [OF inv, of t d] \<open>map_of (r_services r) (ty_id t) = Some slot\<close>
      by (auto simp: slot_or_default_def default_of_def)
    with Some \<open>map_of (r_services r) (ty_id t) = Some slot\<close> dc [OF e] show ?thesis
      by (simp add: resolve_def default_of_def pv)
  next
    case None
    note dom = dom_provided [OF \<open>map_of (r_services r) (ty_id t) = Some slot\<close>]
    have card: "card (dom (provided r (ty_id t))) = length slot"
      using hm by (metis dom distinct_card length_map)
    consider "slot = []" | i e where "slot = [(i, e)]" | x y zs where "slot = x # y # zs"
      by (metis list.exhaust surj_pair)
    then show ?thesis
    proof cases
      case 2
      then have "downcast t e = Some (er_value e)" by (intro dc [of i]) simp
      with 2 None \<open>map_of (r_services r) (ty_id t) = Some slot\<close> dom show ?thesis
        by (simp add: resolve_def default_of_def pv)
    next
      case 3
      then have "dom (provided r (ty_id t)) \<noteq> {}" using dom by simp
      with 3 None \<open>map_of (r_services r) (ty_id t) = Some slot\<close> card sort_keys [OF hm] dom
      show ?thesis
        by (auto simp: resolve_def default_of_def simp del: set_map)
    qed (use None \<open>map_of (r_services r) (ty_id t) = Some slot\<close> dom in
          \<open>simp add: resolve_def default_of_def\<close>)
  qed
qed

theorem resolve_spec_witness:
  "resolve demo_type demo_registry = Inl (Ambiguous ''dyn Greeter'' [''calm'', ''loud'']) \<and>
   resolve demo_type (snd (set_default demo_type ''loud'' demo_registry)) = Inr 2 \<and>
   provided (snd (set_default demo_type ''loud'' demo_registry)) 7 ''loud'' \<noteq> None"
proof (intro conjI)
  show "resolve demo_type demo_registry = Inl (Ambiguous ''dyn Greeter'' [''calm'', ''loud''])"
    by code_simp
  show "resolve demo_type (snd (set_default demo_type ''loud'' demo_registry)) = Inr 2" by code_simp
  have "registry_inv (snd (set_default demo_type ''loud'' demo_registry))"
    by (rule set_default_spec(1) [OF demo_registry_inv])
  moreover have "default_of (snd (set_default demo_type ''loud'' demo_registry)) 7 = Some ''loud''"
    by code_simp
  ultimately show "provided (snd (set_default demo_type ''loud'' demo_registry)) 7 ''loud'' \<noteq> None"
    using resolve_spec [of "snd (set_default demo_type ''loud'' demo_registry)" demo_type]
    by (simp add: demo_type_def)
qed

end
