(* ===== verification/Aik_Api.thy ===== *)
theory Aik_Api
  imports Aik_Error
begin

text \<open>
  The contracts the components share: the JSON values of requests and settings, who is asking
  and what for (src/crates/api/src/permission.rs), the context an operation runs under
  (src/crates/api/src/execution.rs) and the provenance labels of conversations
  (src/crates/api/src/provenance.rs).
\<close>

section \<open>JSON values\<close>

text \<open>The value type of the JSON library. An object is a map sorted by key; a number keeps the
  form the library reads it in, a float being written in one way for each value that compares
  equal to itself.\<close>

datatype json_number = PosInt nat | NegInt int | Float string

datatype json =
    JNull | JBool bool | JNumber json_number | JString string
  | JArray "json list" | JObject "(string \<times> json) list"

definition json_get :: "json \<Rightarrow> string \<Rightarrow> json option" where
  "json_get v key = (case v of JObject m \<Rightarrow> map_of m key | _ \<Rightarrow> None)"

definition json_as_str :: "json \<Rightarrow> string option" where
  "json_as_str v = (case v of JString s \<Rightarrow> Some s | _ \<Rightarrow> None)"

section \<open>Principals, requests and decisions\<close>

datatype principal_kind = User | Agent | Plugin | System | External

record principal =
  p_id :: string
  p_kind :: principal_kind
  p_on_behalf_of :: "string option"

definition principal_new :: "string \<Rightarrow> principal_kind \<Rightarrow> principal" where
  "principal_new i k = \<lparr>p_id = i, p_kind = k, p_on_behalf_of = None\<rparr>"

definition principal_system :: principal where
  "principal_system = principal_new ''system'' System"

definition on_behalf_of :: "principal \<Rightarrow> string \<Rightarrow> principal" where
  "on_behalf_of p owner = p\<lparr>p_on_behalf_of := Some owner\<rparr>"

definition may_act_for :: "principal \<Rightarrow> string \<Rightarrow> bool" where
  "may_act_for p owner \<longleftrightarrow> p_id p = owner \<or> p_on_behalf_of p = Some owner"

record permission_request =
  rq_principal :: principal
  rq_action :: string
  rq_resource :: "string option"
  rq_context :: json

datatype decision = Allow | Deny string | RequireApproval string

definition is_allowed :: "decision \<Rightarrow> bool" where
  "is_allowed d \<longleftrightarrow> d = Allow"

section \<open>The execution context\<close>

text \<open>A cancellation token is read where the code reads it; the context holds what it reads.
  Identifiers made from UUIDs are their textual form.\<close>

record execution_context =
  cx_correlation :: string
  cx_principal :: "principal option"
  cx_deadline :: "timestamp option"
  cx_cancelled :: bool
  cx_attributes :: "(string, json) btree_map"

definition with_attribute :: "execution_context \<Rightarrow> string \<Rightarrow> json \<Rightarrow> execution_context" where
  "with_attribute cx key v = cx\<lparr>cx_attributes := bt_insert key v (cx_attributes cx)\<rparr>"

text \<open>A child context shares everything; its own token is cancelled when the parent's is.\<close>

definition child :: "execution_context \<Rightarrow> execution_context" where
  "child cx =
     \<lparr>cx_correlation = cx_correlation cx, cx_principal = cx_principal cx,
      cx_deadline = cx_deadline cx, cx_cancelled = cx_cancelled cx,
      cx_attributes = cx_attributes cx\<rparr>"

definition principal_or_system :: "execution_context \<Rightarrow> principal" where
  "principal_or_system cx =
     (case cx_principal cx of None \<Rightarrow> principal_system | Some p \<Rightarrow> p)"

definition is_expired :: "execution_context \<Rightarrow> timestamp \<Rightarrow> bool" where
  "is_expired cx now \<longleftrightarrow>
     cx_cancelled cx \<or> (case cx_deadline cx of None \<Rightarrow> False | Some d \<Rightarrow> d \<le> now)"

section \<open>Provenance\<close>

datatype trust = Trusted | Untrusted

datatype reach = Contained | Mutating | ReachExternal

definition is_untrusted :: "trust \<Rightarrow> bool" where
  "is_untrusted t \<longleftrightarrow> t = Untrusted"

text \<open>\<^verbatim>\<open>min_with\<close>: the less trusted of the two.\<close>

definition min_with :: "trust \<Rightarrow> trust \<Rightarrow> trust" where
  "min_with a b = (if a = Untrusted \<or> b = Untrusted then Untrusted else Trusted)"

definition is_contained :: "reach \<Rightarrow> bool" where
  "is_contained r \<longleftrightarrow> r = Contained"

fun trust_str :: "trust \<Rightarrow> string" where
  "trust_str Trusted = ''trusted''"
| "trust_str Untrusted = ''untrusted''"

fun reach_str :: "reach \<Rightarrow> string" where
  "reach_str Contained = ''contained''"
| "reach_str Mutating = ''mutating''"
| "reach_str ReachExternal = ''external''"

section \<open>Ownership\<close>

text \<open>Sessions, memories and jobs belong to a principal and are guarded by the same test. The
  components that keep them share its facts.\<close>

lemma may_act_for_self [simp]: "may_act_for p (p_id p)"
  by (simp add: may_act_for_def)

lemma may_act_for_new [simp]: "may_act_for (principal_new i k) owner \<longleftrightarrow> i = owner"
  by (simp add: may_act_for_def principal_new_def)

lemma may_act_for_delegate [simp]: "may_act_for (on_behalf_of p owner) owner"
  by (simp add: may_act_for_def on_behalf_of_def)

lemma principal_or_system_child [simp]: "principal_or_system (child cx) = principal_or_system cx"
  by (simp add: principal_or_system_def child_def)

lemma principal_or_system_attr [simp]:
  "principal_or_system (with_attribute cx k v) = principal_or_system cx"
  by (simp add: principal_or_system_def with_attribute_def)

lemma min_with_untrusted [simp]: "min_with Untrusted t = Untrusted" "min_with t Untrusted = Untrusted"
  by (simp_all add: min_with_def)

lemma min_with_Trusted_iff: "min_with a b = Trusted \<longleftrightarrow> a = Trusted \<and> b = Trusted"
  by (auto simp: min_with_def intro: trust.exhaust)

end
