(* ===== verification/Aik_Config.thy ===== *)
theory Aik_Config
  imports Aik_Api
begin

text \<open>
  Layered configuration (src/crates/core/src/config.rs): a JSON tree built from layers, single
  settings and environment variables, and read by dotted paths. The JSON reader used for the
  values of environment variables and the deserialisation of typed settings are parameters.
\<close>

section \<open>Reading\<close>

fun as_object :: "json \<Rightarrow> (string, json) btree_map" where
  "as_object (JObject m) = m"
| "as_object _ = []"

definition is_object :: "json \<Rightarrow> bool" where
  "is_object v \<longleftrightarrow> (case v of JObject _ \<Rightarrow> True | _ \<Rightarrow> False)"

fun walk :: "json \<Rightarrow> string list \<Rightarrow> json option" where
  "walk current [] = Some current"
| "walk current (segment # rest) =
     (case current of
        JObject m \<Rightarrow>
          (case map_of m segment of None \<Rightarrow> None | Some v \<Rightarrow> walk v rest)
      | JArray items \<Rightarrow>
          (case parse_unsigned 64 segment of
             None \<Rightarrow> None
           | Some i \<Rightarrow> if i < length items then walk (items ! i) rest else None)
      | _ \<Rightarrow> None)"

definition config_value :: "json \<Rightarrow> string \<Rightarrow> json option" where
  "config_value root path = (if path = [] then Some root else walk root (split_on CHR ''.'' path))"

definition config_contains :: "json \<Rightarrow> string \<Rightarrow> bool" where
  "config_contains root path \<longleftrightarrow>
     (case config_value root path of None \<Rightarrow> False | Some v \<Rightarrow> v \<noteq> JNull)"

text \<open>\<open>de\<close> stands for \<^verbatim>\<open>serde_json::from_value\<close> at the type asked for; \<open>Inl\<close> is the
  text of its error.\<close>

definition get_optional ::
  "(json \<Rightarrow> string + 'a) \<Rightarrow> json \<Rightarrow> string \<Rightarrow> 'a option result" where
  "get_optional de root path =
     (case config_value root path of
        None \<Rightarrow> Inr None
      | Some v \<Rightarrow>
          if v = JNull then Inr None
          else (case de v of
                  Inl message \<Rightarrow> Inl (Config path message)
                | Inr x \<Rightarrow> Inr (Some x)))"

definition config_get :: "(json \<Rightarrow> string + 'a) \<Rightarrow> json \<Rightarrow> string \<Rightarrow> 'a result" where
  "config_get de root path =
     (case get_optional de root path of
        Inl e \<Rightarrow> Inl e
      | Inr (Some x) \<Rightarrow> Inr x
      | Inr None \<Rightarrow> Inl (Config path ''required setting is missing''))"

definition get_or_default :: "(json \<Rightarrow> string + 'a) \<Rightarrow> 'a \<Rightarrow> json \<Rightarrow> string \<Rightarrow> 'a result" where
  "get_or_default de dflt root path =
     (case get_optional de root path of
        Inl e \<Rightarrow> Inl e
      | Inr x \<Rightarrow> Inr (case x of None \<Rightarrow> dflt | Some y \<Rightarrow> y))"

definition section_of :: "json \<Rightarrow> string \<Rightarrow> json" where
  "section_of root path = (case config_value root path of None \<Rightarrow> JObject [] | Some v \<Rightarrow> v)"

section \<open>Building\<close>

fun merge :: "json \<Rightarrow> json \<Rightarrow> json"
  and merge_entries :: "(string, json) btree_map \<Rightarrow> (string, json) btree_map \<Rightarrow> (string, json) btree_map"
where
  "merge target layer =
     (case layer of
        JObject l \<Rightarrow>
          (case target of JObject t \<Rightarrow> JObject (merge_entries t l) | _ \<Rightarrow> layer)
      | _ \<Rightarrow> layer)"
| "merge_entries target [] = target"
| "merge_entries target (e # layer) =
     merge_entries
       (case map_of target (fst e) of
          Some existing \<Rightarrow> bt_insert (fst e) (merge existing (snd e)) target
        | None \<Rightarrow> bt_insert (fst e) (snd e) target) layer"

text \<open>The loop of \<^verbatim>\<open>set_path\<close> over the segments; a value that is not an object on the way
  is replaced by an empty one.\<close>

fun set_segments :: "json \<Rightarrow> string list \<Rightarrow> json \<Rightarrow> json" where
  "set_segments current [] v = current"
| "set_segments current [segment] v = JObject (bt_insert segment v (as_object current))"
| "set_segments current (segment # s # rest) v =
     (let m = as_object current;
          child = (case map_of m segment of None \<Rightarrow> JNull | Some c \<Rightarrow> c)
      in JObject (bt_insert segment (set_segments child (s # rest) v) m))"

definition set_path :: "json \<Rightarrow> string \<Rightarrow> json \<Rightarrow> json" where
  "set_path root path v =
     (if path = [] then v else set_segments root (split_on CHR ''.'' path) v)"

text \<open>\<^verbatim>\<open>split("__")\<close>: the leftmost matches, without overlap.\<close>

fun split_dunder :: "string \<Rightarrow> string list" where
  "split_dunder [] = [[]]"
| "split_dunder [c] = [[c]]"
| "split_dunder (c # d # cs) =
     (if c = CHR ''_'' \<and> d = CHR ''_'' then [] # split_dunder cs
      else (case split_dunder (d # cs) of [] \<Rightarrow> [[c]] | p # ps \<Rightarrow> (c # p) # ps))"

definition env_path :: "string \<Rightarrow> string" where
  "env_path rest = join_with ''.'' (map to_ascii_lowercase (split_dunder rest))"

fun env_from :: "(string \<Rightarrow> json option) \<Rightarrow> string \<Rightarrow> (string \<times> string) list \<Rightarrow> json \<Rightarrow> json" where
  "env_from parse prefix [] root = root"
| "env_from parse prefix (kv # vars) root =
     (case strip_prefix prefix (fst kv) of
        None \<Rightarrow> env_from parse prefix vars root
      | Some rest \<Rightarrow>
          if rest = [] then env_from parse prefix vars root
          else env_from parse prefix vars
                 (set_path root (env_path rest)
                   (case parse (snd kv) of None \<Rightarrow> JString (snd kv) | Some v \<Rightarrow> v)))"

section \<open>Well-formed trees\<close>

text \<open>Every object of a tree is a sorted map.\<close>

fun json_wf :: "json \<Rightarrow> bool" where
  "json_wf (JObject m) \<longleftrightarrow> bt_inv m \<and> (\<forall>e \<in> set m. json_wf (snd e))"
| "json_wf (JArray xs) \<longleftrightarrow> (\<forall>x \<in> set xs. json_wf x)"
| "json_wf _ \<longleftrightarrow> True"

lemma json_wf_as_object: "json_wf v \<Longrightarrow> bt_inv (as_object v) \<and> (\<forall>e \<in> set (as_object v). json_wf (snd e))"
  by (cases v) auto

lemma json_wf_insert:
  "json_wf (JObject m) \<Longrightarrow> json_wf v \<Longrightarrow> json_wf (JObject (bt_insert k v m))"
  using set_bt_insert [of k v m] by (fastforce simp: bt_insert_inv)

lemma json_wf_child: "json_wf (JObject m) \<Longrightarrow> map_of m k = Some c \<Longrightarrow> json_wf c"
  by (force dest: map_of_SomeD)

lemma set_segments_wf: "json_wf current \<Longrightarrow> json_wf v \<Longrightarrow> json_wf (set_segments current segs v)"
proof (induction current segs v rule: set_segments.induct)
  case (2 current segment v)
  then show ?case using json_wf_insert [of "as_object current" v segment] json_wf_as_object by auto
next
  case (3 current segment s rest v)
  let ?m = "as_object current"
  have m: "json_wf (JObject ?m)" using 3 json_wf_as_object by simp
  have "json_wf (case map_of ?m segment of None \<Rightarrow> JNull | Some c \<Rightarrow> c)"
    using json_wf_child [OF m] by (auto split: option.splits)
  with 3 have "json_wf (set_segments (case map_of ?m segment of None \<Rightarrow> JNull | Some c \<Rightarrow> c) (s # rest) v)"
    by simp
  with json_wf_insert [OF m] show ?case by (simp add: Let_def)
qed simp

lemma walk_set_segments: "json_wf current \<Longrightarrow> segs \<noteq> [] \<Longrightarrow> walk (set_segments current segs v) segs = Some v"
proof (induction current segs v rule: set_segments.induct)
  case (2 current segment v)
  then show ?case using json_wf_as_object by (simp add: bt_insert_get)
next
  case (3 current segment s rest v)
  let ?m = "as_object current"
  have m: "json_wf (JObject ?m)" using 3 json_wf_as_object by simp
  have "json_wf (case map_of ?m segment of None \<Rightarrow> JNull | Some c \<Rightarrow> c)"
    using json_wf_child [OF m] by (auto split: option.splits)
  with 3 m show ?case by (simp add: Let_def bt_insert_get)
qed simp

text \<open>Setting one path leaves another alone when they part ways, as long as what they share is
  made of objects.\<close>

fun parts :: "json \<Rightarrow> string list \<Rightarrow> string list \<Rightarrow> bool" where
  "parts v (s # ss) (t # ts) \<longleftrightarrow> is_object v \<and>
     (s \<noteq> t \<or> (case json_get v s of None \<Rightarrow> False | Some c \<Rightarrow> parts c ss ts))"
| "parts v _ _ \<longleftrightarrow> False"

lemma walk_set_other:
  "json_wf current \<Longrightarrow> parts current segs path \<Longrightarrow>
   walk (set_segments current segs v) path = walk current path"
proof (induction current segs v arbitrary: path rule: set_segments.induct)
  case (2 current segment v)
  then obtain m t ts where "current = JObject m" "path = t # ts" "segment \<noteq> t"
    by (cases path; cases current) (auto simp: is_object_def json_get_def split: option.splits)
  with 2 show ?case by (simp add: bt_insert_get)
next
  case (3 current segment s rest v)
  then obtain m t ts where o: "current = JObject m" "path = t # ts"
    by (cases path; cases current) (auto simp: is_object_def)
  with 3 have m: "bt_inv m" "json_wf (JObject m)" by auto
  show ?case
  proof (cases "segment = t")
    case False
    with o m show ?thesis by (simp add: Let_def bt_insert_get)
  next
    case True
    with 3(3) o obtain c where c: "map_of m t = Some c" "parts c (s # rest) ts"
      by (auto simp: json_get_def split: option.splits)
    with 3 o m True json_wf_child [OF m(2) c(1)] show ?thesis
      by (simp add: Let_def bt_insert_get)
  qed
qed simp

section \<open>Merging\<close>

declare merge.simps [simp del]

lemma merge_scalar: "\<not> is_object l \<Longrightarrow> merge t l = l"
  by (cases l) (simp_all add: merge.simps is_object_def)

lemma merge_onto_scalar: "\<not> is_object t \<Longrightarrow> merge t l = l"
  by (cases l; cases t) (simp_all add: merge.simps is_object_def)

lemma merge_objects: "merge (JObject t) (JObject l) = JObject (merge_entries t l)"
  by (simp add: merge.simps)

definition merge_option :: "json option \<Rightarrow> json option \<Rightarrow> json option" where
  "merge_option a b =
     (case b of None \<Rightarrow> a | Some l \<Rightarrow> Some (case a of None \<Rightarrow> l | Some t \<Rightarrow> merge t l))"

lemma merge_entries_get:
  "bt_inv t \<Longrightarrow> bt_inv l \<Longrightarrow> bt_inv (merge_entries t l) \<and>
   map_of (merge_entries t l) k = merge_option (map_of t k) (map_of l k)"
proof (induction l arbitrary: t)
  case (Cons e l)
  let ?v = "case map_of t (fst e) of None \<Rightarrow> snd e | Some x \<Rightarrow> merge x (snd e)"
  let ?t = "bt_insert (fst e) ?v t"
  have t: "merge_entries t (e # l) = merge_entries ?t l" by (cases "map_of t (fst e)") simp_all
  have inv: "bt_inv ?t" "bt_inv l" using Cons.prems by (simp_all add: bt_insert_inv)
  have new: "fst e \<notin> fst ` set l" using bt_inv_distinct [OF Cons.prems(2)] by simp
  then have none: "map_of l (fst e) = None" by (simp add: map_of_eq_None_iff)
  have get: "map_of ?t = (map_of t)(fst e \<mapsto> ?v)" using Cons.prems(1) by (rule bt_insert_get)
  have "map_of (merge_entries ?t l) k = merge_option (map_of ?t k) (map_of l k)"
    using Cons.IH [OF inv] by simp
  also have "\<dots> = merge_option (map_of t k) (map_of (e # l) k)"
    using none by (cases "k = fst e") (auto simp: get merge_option_def split: option.splits)
  finally show ?case using Cons.IH [OF inv] unfolding t by blast
qed (simp add: merge_option_def)

lemma merge_wf: "json_wf t \<Longrightarrow> json_wf l \<Longrightarrow> json_wf (merge t l)"
  and merge_entries_wf: "json_wf (JObject t') \<Longrightarrow> json_wf (JObject l') \<Longrightarrow> json_wf (JObject (merge_entries t' l'))"
proof (induction t l and t' l' rule: merge_merge_entries.induct)
  case (1 target layer)
  show ?case
  proof (cases "is_object target \<and> is_object layer")
    case True
    then obtain tm lm where o: "target = JObject tm" "layer = JObject lm"
      by (cases layer; cases target) (auto simp: is_object_def)
    from 1(1) [OF o(2,1)] 1(2,3) show ?thesis unfolding o merge_objects by blast
  next
    case False
    then have "merge target layer = layer" by (auto simp: merge_scalar merge_onto_scalar)
    with 1(3) show ?thesis by simp
  qed
next
  case (3 target e layer)
  let ?v = "case map_of target (fst e) of None \<Rightarrow> snd e | Some x \<Rightarrow> merge x (snd e)"
  have t: "merge_entries target (e # layer) = merge_entries (bt_insert (fst e) ?v target) layer"
    by (cases "map_of target (fst e)") simp_all
  have "json_wf ?v"
    using 3(1) 3(3,4) json_wf_child [OF 3(3)] by (auto split: option.splits)
  then have "json_wf (JObject (bt_insert (fst e) ?v target))" by (rule json_wf_insert [OF 3(3)])
  then show ?case using 3(2,4) by (cases "map_of target (fst e)") (simp_all add: t)
qed simp

text \<open>The layer decides every path at which it holds something other than an object.\<close>

lemma walk_merge_layer:
  "json_wf t \<Longrightarrow> json_wf l \<Longrightarrow> walk l segs = Some v \<Longrightarrow> \<not> is_object v \<Longrightarrow> walk (merge t l) segs = Some v"
proof (induction segs arbitrary: t l)
  case Nil
  then show ?case by (simp add: merge_scalar)
next
  case (Cons s segs)
  show ?case
  proof (cases "is_object l \<and> is_object t")
    case False
    with Cons.prems show ?thesis by (auto simp: merge_scalar merge_onto_scalar)
  next
    case True
    then obtain lm tm where o: "l = JObject lm" "t = JObject tm"
      by (cases l; cases t) (auto simp: is_object_def)
    with Cons.prems obtain c where c: "map_of lm s = Some c" "walk c segs = Some v"
      by (auto split: option.splits)
    have get: "map_of (merge_entries tm lm) s = merge_option (map_of tm s) (Some c)"
      using merge_entries_get [of tm lm s] Cons.prems o c by simp
    show ?thesis
    proof (cases "map_of tm s")
      case None
      with get c o show ?thesis by (simp add: merge_objects merge_option_def)
    next
      case (Some x)
      have "json_wf x" "json_wf c" using Cons.prems o Some c json_wf_child by blast+
      from Cons.IH [OF this c(2) Cons.prems(4)] get Some o show ?thesis
        by (simp add: merge_objects merge_option_def)
    qed
  qed
qed

text \<open>A layer is silent on a path that leaves it at an object with no such key.\<close>

fun silent :: "json \<Rightarrow> string list \<Rightarrow> bool" where
  "silent l [] \<longleftrightarrow> False"
| "silent l (s # segs) \<longleftrightarrow> is_object l \<and>
     (case json_get l s of None \<Rightarrow> True | Some c \<Rightarrow> silent c segs)"

fun through_objects :: "json \<Rightarrow> string list \<Rightarrow> bool" where
  "through_objects t [] \<longleftrightarrow> True"
| "through_objects t (s # segs) \<longleftrightarrow> is_object t \<and>
     (case json_get t s of None \<Rightarrow> True | Some c \<Rightarrow> through_objects c segs)"

lemma walk_silent: "silent l segs \<Longrightarrow> walk l segs = None"
  by (induction segs arbitrary: l)
     (auto simp: is_object_def json_get_def split: json.splits option.splits)

lemma walk_merge_silent:
  "json_wf t \<Longrightarrow> json_wf l \<Longrightarrow> silent l segs \<Longrightarrow> through_objects t segs \<Longrightarrow>
   walk (merge t l) segs = walk t segs"
proof (induction segs arbitrary: t l)
  case (Cons s segs)
  then obtain lm tm where o: "l = JObject lm" "t = JObject tm"
    by (cases l; cases t) (auto simp: is_object_def)
  have get: "map_of (merge_entries tm lm) s = merge_option (map_of tm s) (map_of lm s)"
    using merge_entries_get [of tm lm s] Cons.prems o by simp
  show ?case
  proof (cases "map_of lm s")
    case None
    with get o show ?thesis by (simp add: merge_objects merge_option_def)
  next
    case (Some c)
    then have sil: "silent c segs" using Cons.prems(3) o by (simp add: json_get_def)
    have wc: "json_wf c" using Cons.prems(2) o Some json_wf_child by blast
    show ?thesis
    proof (cases "map_of tm s")
      case None
      with get Some o sil show ?thesis by (simp add: merge_objects merge_option_def walk_silent)
    next
      case (Some x)
      have "json_wf x" "through_objects x segs"
        using Cons.prems o Some json_wf_child by (blast, simp add: json_get_def)
      from Cons.IH [OF this(1) wc sil this(2)] get Some \<open>map_of lm s = Some c\<close> o show ?thesis
        by (simp add: merge_objects merge_option_def)
    qed
  qed
qed simp

section \<open>Properties\<close>

lemma config_value_set: "json_wf root \<Longrightarrow> config_value (set_path root path v) path = Some v"
  by (simp add: config_value_def set_path_def walk_set_segments)

lemma env_from_append:
  "env_from parse prefix (xs @ ys) root = env_from parse prefix ys (env_from parse prefix xs root)"
  by (induction xs arbitrary: root) (auto split: option.splits)

lemma set_path_wf: "json_wf root \<Longrightarrow> json_wf v \<Longrightarrow> json_wf (set_path root path v)"
  by (simp add: set_path_def set_segments_wf)

lemma env_from_wf:
  "(\<And>s v. parse s = Some v \<Longrightarrow> json_wf v) \<Longrightarrow> json_wf root \<Longrightarrow> json_wf (env_from parse prefix vars root)"
  by (induction vars arbitrary: root) (auto simp: set_path_wf split: option.splits)

definition demo_config :: json where
  "demo_config = JObject [(''db'', JObject [(''host'', JString ''a''), (''port'', JNumber (PosInt 1))])]"

text \<open>A setting is read back where it was set, whatever was there before; settings on paths
  that part from it at an object are untouched; and the last environment variable with the
  prefix decides the path its name spells.\<close>

theorem config_set_get:
  assumes wf: "json_wf root" and parser: "\<forall>s v. parse s = Some v \<longrightarrow> json_wf v"
  shows "config_value (set_path root path v) path = Some v \<and>
    (path \<noteq> [] \<and> path' \<noteq> [] \<and> parts root (split_on CHR ''.'' path) (split_on CHR ''.'' path') \<longrightarrow>
       config_value (set_path root path v) path' = config_value root path') \<and>
    (rest \<noteq> [] \<longrightarrow>
       config_value (env_from parse prefix (vars @ [(prefix @ rest, raw)]) root) (env_path rest) =
         Some (case parse raw of None \<Rightarrow> JString raw | Some x \<Rightarrow> x))"
proof -
  have "json_wf (env_from parse prefix vars root)" using parser wf by (intro env_from_wf) auto
  moreover have "strip_prefix prefix (prefix @ rest) = Some rest" by (simp add: strip_prefix_iff)
  ultimately show ?thesis
    using wf by (simp add: config_value_set env_from_append split: option.splits)
      (simp add: config_value_def set_path_def walk_set_other)
qed

theorem config_set_get_witness:
  "config_value (set_path demo_config ''db.port'' (JBool True)) ''db.port'' = Some (JBool True) \<and>
   config_value (set_path demo_config ''db.port'' (JBool True)) ''db.host'' = Some (JString ''a'') \<and>
   config_value (env_from (\<lambda>s. None) ''AIK_'' [(''AIK_DB__HOST'', ''b'')] demo_config) ''db.host''
     = Some (JString ''b'')"
proof -
  have wf: "json_wf demo_config" by code_simp
  have p: "parts demo_config (split_on CHR ''.'' ''db.port'') (split_on CHR ''.'' ''db.host'')" by code_simp
  have e: "env_path ''DB__HOST'' = ''db.host''" by code_simp
  have h: "config_value demo_config ''db.host'' = Some (JString ''a'')" by code_simp
  show ?thesis
    using config_set_get [OF wf, of "\<lambda>s. None" "''db.port''" "JBool True" "''db.host''"
        "''DB__HOST''" "''AIK_''" "[]" "''b''"] p h by (simp add: e)
qed

text \<open>Layers: a later layer decides every path at which it holds a value other than an object,
  arrays replacing and not mixing with what was below, and says nothing about a path that leaves
  it at an object without that key, where the earlier value is kept.\<close>

theorem merge_layers:
  assumes "json_wf base" and "json_wf layer"
  shows "json_wf (merge base layer) \<and>
    (\<forall>v. config_value layer path = Some v \<and> \<not> is_object v \<longrightarrow>
       config_value (merge base layer) path = Some v) \<and>
    (path \<noteq> [] \<and> silent layer (split_on CHR ''.'' path) \<and>
     through_objects base (split_on CHR ''.'' path) \<longrightarrow>
       config_value (merge base layer) path = config_value base path)"
  using assms merge_wf walk_merge_layer walk_merge_silent
  by (auto simp: config_value_def merge_scalar)

theorem merge_layers_witness:
  "config_value (merge demo_config (JObject [(''db'', JObject [(''port'', JNull)])])) ''db.port'' = Some JNull \<and>
   config_value (merge demo_config (JObject [(''db'', JObject [(''port'', JNull)])])) ''db.host'' =
     Some (JString ''a'')"
proof -
  let ?l = "JObject [(''db'', JObject [(''port'', JNull)])]"
  have wf: "json_wf demo_config" "json_wf ?l" by code_simp+
  have l: "config_value ?l ''db.port'' = Some JNull" by code_simp
  have s: "silent ?l (split_on CHR ''.'' ''db.host'')"
    "through_objects demo_config (split_on CHR ''.'' ''db.host'')" by code_simp+
  have h: "config_value demo_config ''db.host'' = Some (JString ''a'')" by code_simp
  show ?thesis
    using merge_layers [OF wf, of "''db.port''"] merge_layers [OF wf, of "''db.host''"] l s h
    by (simp add: is_object_def)
qed

end
