(* ===== verification/Aik_Policy.thy ===== *)
theory Aik_Policy
  imports Aik_Config
begin

text \<open>
  The rule-based policy engine: patterns (src/crates/policy/src/pattern.rs), rules
  (src/crates/policy/src/rule.rs), the policy document (src/crates/policy/src/document.rs) and
  first-match evaluation with a default of deny (src/crates/policy/src/engine.rs).
\<close>

section \<open>Patterns\<close>

datatype pattern = Any | Prefix string | Exact string

definition pattern_parse :: "string \<Rightarrow> pattern" where
  "pattern_parse text =
     (if text = ''*'' then Any
      else (case strip_suffix ''*'' text of
              Some prefix \<Rightarrow> Prefix prefix
            | None \<Rightarrow> Exact text))"

fun pattern_matches :: "pattern \<Rightarrow> string \<Rightarrow> bool" where
  "pattern_matches Any v \<longleftrightarrow> True"
| "pattern_matches (Prefix prefix) v \<longleftrightarrow> starts_with v prefix"
| "pattern_matches (Exact exact) v \<longleftrightarrow> v = exact"

definition is_vacuous :: "pattern \<Rightarrow> bool" where
  "is_vacuous p \<longleftrightarrow> (case p of Exact exact \<Rightarrow> exact = [] | _ \<Rightarrow> False)"

fun pattern_display :: "pattern \<Rightarrow> string" where
  "pattern_display Any = ''*''"
| "pattern_display (Prefix prefix) = prefix @ ''*''"
| "pattern_display (Exact exact) = exact"

section \<open>Rules\<close>

record principal_matcher =
  pm_id_pattern :: pattern
  pm_kind :: "principal_kind option"
  pm_on_behalf_of :: "pattern option"

record policy_rule =
  ru_principal :: principal_matcher
  ru_action :: pattern
  ru_resource :: "pattern option"
  ru_context :: "(string, json) btree_map option"
  ru_effect :: decision
  ru_description :: "string option"

definition delegation_matches :: "pattern option \<Rightarrow> string option \<Rightarrow> bool" where
  "delegation_matches matcher behalf =
     (case matcher of
        None \<Rightarrow> True
      | Some p \<Rightarrow> (case behalf of None \<Rightarrow> False | Some owner \<Rightarrow> pattern_matches p owner))"

definition principal_matches :: "principal_matcher \<Rightarrow> principal \<Rightarrow> bool" where
  "principal_matches pm p \<longleftrightarrow>
     pattern_matches (pm_id_pattern pm) (p_id p) \<and>
     (case pm_kind pm of None \<Rightarrow> True | Some k \<Rightarrow> k = p_kind p) \<and>
     delegation_matches (pm_on_behalf_of pm) (p_on_behalf_of p)"

fun resource_matches :: "pattern option \<Rightarrow> string option \<Rightarrow> bool" where
  "resource_matches None None \<longleftrightarrow> True"
| "resource_matches None (Some _) \<longleftrightarrow> False"
| "resource_matches (Some Any) _ \<longleftrightarrow> True"
| "resource_matches (Some p) (Some resource) \<longleftrightarrow> pattern_matches p resource"
| "resource_matches (Some _) None \<longleftrightarrow> False"

definition context_matches ::
  "(string, json) btree_map option \<Rightarrow> permission_request \<Rightarrow> execution_context \<Rightarrow> bool" where
  "context_matches constraints request cx =
     (case constraints of
        None \<Rightarrow> True
      | Some cs \<Rightarrow>
          list_all (\<lambda>(key, expected).
            (case json_get (rq_context request) key of
               Some v \<Rightarrow> Some v
             | None \<Rightarrow> map_of (cx_attributes cx) key) = Some expected) cs)"

definition rule_matches :: "policy_rule \<Rightarrow> permission_request \<Rightarrow> execution_context \<Rightarrow> bool" where
  "rule_matches ru request cx \<longleftrightarrow>
     principal_matches (ru_principal ru) (rq_principal request) \<and>
     pattern_matches (ru_action ru) (rq_action request) \<and>
     resource_matches (ru_resource ru) (rq_resource request) \<and>
     context_matches (ru_context ru) request cx"

definition rule_validate :: "policy_rule \<Rightarrow> unit result" where
  "rule_validate ru =
     (if is_vacuous (ru_action ru)
      then Inl (Config ''action'' ''action pattern must not be empty'')
      else if is_vacuous (pm_id_pattern (ru_principal ru))
      then Inl (Config ''principal.id'' ''principal id pattern must not be empty'')
      else if (case pm_on_behalf_of (ru_principal ru) of None \<Rightarrow> False | Some p \<Rightarrow> is_vacuous p)
      then Inl (Config ''principal.on_behalf_of'' ''principal on_behalf_of pattern must not be empty'')
      else if (case ru_resource ru of None \<Rightarrow> False | Some p \<Rightarrow> is_vacuous p)
      then Inl (Config ''resource'' ''resource pattern must not be empty'')
      else (case ru_effect ru of
              Deny reason \<Rightarrow>
                if trim reason = [] then Inl (Config ''effect.reason'' ''deny reason must not be empty'')
                else Inr ()
            | RequireApproval prompt \<Rightarrow>
                if trim prompt = [] then Inl (Config ''effect.prompt'' ''approval prompt must not be empty'')
                else Inr ()
            | Allow \<Rightarrow> Inr ()))"

section \<open>The document and the engine\<close>

fun prefix_path :: "error \<Rightarrow> string \<Rightarrow> error" where
  "prefix_path (Config path message) prefix =
     Config (if path = [] then prefix else prefix @ ''.'' @ path) message"
| "prefix_path e prefix = e"

fun validate_from :: "nat \<Rightarrow> policy_rule list \<Rightarrow> unit result" where
  "validate_from index [] = Inr ()"
| "validate_from index (ru # rules) =
     (case rule_validate ru of
        Inl e \<Rightarrow> Inl (prefix_path e (''rules['' @ dec index @ '']''))
      | Inr _ \<Rightarrow> validate_from (Suc index) rules)"

definition document_validate :: "policy_rule list \<Rightarrow> unit result" where
  "document_validate rules = validate_from 0 rules"

text \<open>\<^verbatim>\<open>RuleBasedPolicyEngine::new\<close>: the engine is its validated rules.\<close>

definition engine_new :: "policy_rule list \<Rightarrow> policy_rule list result" where
  "engine_new rules =
     (case document_validate rules of Inl e \<Rightarrow> Inl e | Inr _ \<Rightarrow> Inr rules)"

text \<open>\<^verbatim>\<open>from_config\<close>: an absent document is the empty one.\<close>

definition engine_from_config ::
  "(json \<Rightarrow> string + policy_rule list) \<Rightarrow> json \<Rightarrow> string \<Rightarrow> policy_rule list result" where
  "engine_from_config de config path =
     (case get_or_default de [] config path of
        Inl e \<Rightarrow> Inl e
      | Inr rules \<Rightarrow> engine_new rules)"

fun evaluate :: "policy_rule list \<Rightarrow> permission_request \<Rightarrow> execution_context \<Rightarrow> decision" where
  "evaluate [] request cx = Deny ''no policy rule matched this request''"
| "evaluate (ru # rules) request cx =
     (if rule_matches ru request cx then ru_effect ru else evaluate rules request cx)"

section \<open>Facts\<close>

lemma pattern_display_parse: "pattern_display (pattern_parse text) = text"
  by (auto simp: pattern_parse_def strip_suffix_iff split: option.splits)

lemma pattern_parse_matches:
  "pattern_matches (pattern_parse text) v \<longleftrightarrow>
   (if ends_with text ''*'' then starts_with v (butlast text) else v = text)"
proof (cases "strip_suffix ''*'' text")
  case None
  then have "text \<noteq> ''*''" by (metis append_Nil strip_suffix_None_iff)
  with None show ?thesis by (simp add: pattern_parse_def ends_with_def)
next
  case (Some p)
  then have "text = p @ ''*''" by (simp add: strip_suffix_iff)
  with Some show ?thesis
    by (cases "p = []") (simp_all add: pattern_parse_def ends_with_def starts_with_def)
qed

lemma evaluate_first:
  "evaluate rules request cx =
     (case find (\<lambda>ru. rule_matches ru request cx) rules of
        None \<Rightarrow> Deny ''no policy rule matched this request''
      | Some ru \<Rightarrow> ru_effect ru)"
  by (induction rules) auto

lemma evaluate_append:
  "evaluate (xs @ ys) request cx =
     (if \<exists>ru \<in> set xs. rule_matches ru request cx then evaluate xs request cx
      else evaluate ys request cx)"
  by (induction xs) auto

lemma validate_from_ok:
  "validate_from n rules = Inr () \<longleftrightarrow> (\<forall>ru \<in> set rules. rule_validate ru = Inr ())"
  by (induction rules arbitrary: n) (auto split: sum.splits)

lemma validate_from_error:
  "validate_from n rules = Inl e \<Longrightarrow>
   \<exists>xs ru ys e0. rules = xs @ ru # ys \<and> (\<forall>r \<in> set xs. rule_validate r = Inr ()) \<and>
      rule_validate ru = Inl e0 \<and> e = prefix_path e0 (''rules['' @ dec (n + length xs) @ '']'')"
proof (induction rules arbitrary: n)
  case (Cons r rules)
  show ?case
  proof (cases "rule_validate r")
    case (Inl e0)
    with Cons.prems show ?thesis
      by (intro exI [of _ "[]"] exI [of _ r] exI [of _ rules] exI [of _ e0]) simp
  next
    case (Inr u)
    with Cons.prems have "validate_from (Suc n) rules = Inl e" by simp
    from Cons.IH [OF this] obtain xs ru ys e0 where
      "rules = xs @ ru # ys" "\<forall>r \<in> set xs. rule_validate r = Inr ()" "rule_validate ru = Inl e0"
      "e = prefix_path e0 (''rules['' @ dec (Suc n + length xs) @ '']'')" by blast
    with Inr show ?thesis
      by (intro exI [of _ "r # xs"] exI [of _ ru] exI [of _ ys] exI [of _ e0]) simp
  qed
qed simp

lemma rule_validate_error: "rule_validate ru = Inl e \<Longrightarrow> \<exists>path message. e = Config path message \<and> path \<noteq> []"
  by (auto simp: rule_validate_def split: if_splits decision.splits)

lemma is_vacuous_iff: "is_vacuous p \<longleftrightarrow> p = Exact []"
  by (cases p) (simp_all add: is_vacuous_def)

lemma rule_validate_ok:
  assumes "rule_validate ru = Inr ()"
  shows "ru_action ru \<noteq> Exact []" "pm_id_pattern (ru_principal ru) \<noteq> Exact []"
    "pm_on_behalf_of (ru_principal ru) \<noteq> Some (Exact [])" "ru_resource ru \<noteq> Some (Exact [])"
    "ru_effect ru = Deny reason \<Longrightarrow> trim reason \<noteq> []"
    "ru_effect ru = RequireApproval prompt \<Longrightarrow> trim prompt \<noteq> []"
  using assms unfolding rule_validate_def is_vacuous_iff
  by (auto split: if_splits option.splits decision.splits)

section \<open>Properties\<close>

definition demo_rule :: "string \<Rightarrow> decision \<Rightarrow> policy_rule" where
  "demo_rule action effect =
     \<lparr>ru_principal = \<lparr>pm_id_pattern = Any, pm_kind = None, pm_on_behalf_of = None\<rparr>,
      ru_action = pattern_parse action, ru_resource = Some Any, ru_context = None,
      ru_effect = effect, ru_description = None\<rparr>"

definition demo_request :: "string \<Rightarrow> permission_request" where
  "demo_request action =
     \<lparr>rq_principal = principal_new ''ada'' User, rq_action = action, rq_resource = None,
      rq_context = JNull\<rparr>"

definition demo_context :: execution_context where
  "demo_context = \<lparr>cx_correlation = ''c'', cx_principal = Some (principal_new ''ada'' User),
     cx_deadline = None, cx_cancelled = False, cx_attributes = []\<rparr>"

text \<open>C17. Evaluation is first-match with a default of deny: a request is allowed exactly when the
  first rule that matches it allows it; in particular an empty document, or one none of whose
  rules match, denies, and rules behind the first match, or ahead of it without matching, change
  nothing.\<close>

theorem evaluate_first_match:
  "is_allowed (evaluate rules request cx) \<longleftrightarrow>
     (\<exists>xs ru ys. rules = xs @ ru # ys \<and> rule_matches ru request cx \<and> ru_effect ru = Allow \<and>
        (\<forall>r \<in> set xs. \<not> rule_matches r request cx))"
proof
  assume "is_allowed (evaluate rules request cx)"
  then obtain ru where "find (\<lambda>ru. rule_matches ru request cx) rules = Some ru" "ru_effect ru = Allow"
    by (auto simp: evaluate_first is_allowed_def split: option.splits)
  then show "\<exists>xs ru ys. rules = xs @ ru # ys \<and> rule_matches ru request cx \<and> ru_effect ru = Allow \<and>
        (\<forall>r \<in> set xs. \<not> rule_matches r request cx)"
    by (blast dest: find_split)
next
  assume "\<exists>xs ru ys. rules = xs @ ru # ys \<and> rule_matches ru request cx \<and> ru_effect ru = Allow \<and>
        (\<forall>r \<in> set xs. \<not> rule_matches r request cx)"
  then show "is_allowed (evaluate rules request cx)"
    by (auto simp: evaluate_append is_allowed_def)
qed

theorem evaluate_first_match_witness:
  "is_allowed (evaluate [demo_rule ''fs.*'' (Deny ''no''), demo_rule ''*'' Allow]
      (demo_request ''clock.now'') demo_context) \<and>
   \<not> is_allowed (evaluate [demo_rule ''fs.*'' (Deny ''no''), demo_rule ''*'' Allow]
      (demo_request ''fs.read'') demo_context)"
proof
  have "\<not> rule_matches (demo_rule ''fs.*'' (Deny ''no'')) (demo_request ''clock.now'') demo_context"
    "rule_matches (demo_rule ''*'' Allow) (demo_request ''clock.now'') demo_context" by code_simp+
  then show "is_allowed (evaluate [demo_rule ''fs.*'' (Deny ''no''), demo_rule ''*'' Allow]
      (demo_request ''clock.now'') demo_context)"
    unfolding evaluate_first_match
    by (intro exI [of _ "[demo_rule ''fs.*'' (Deny ''no'')]"] exI [of _ "demo_rule ''*'' Allow"]
        exI [of _ "[]"]) (simp add: demo_rule_def)
  show "\<not> is_allowed (evaluate [demo_rule ''fs.*'' (Deny ''no''), demo_rule ''*'' Allow]
      (demo_request ''fs.read'') demo_context)" by code_simp
qed

text \<open>Patterns mean what they say and survive being written out: a text ending in a star
  matches exactly the values with the rest of it as a prefix, any other text only itself, and
  printing a parsed pattern gives the text back.\<close>

theorem pattern_meaning:
  "pattern_display (pattern_parse text) = text \<and>
   (pattern_matches (pattern_parse text) v \<longleftrightarrow>
      (if ends_with text ''*'' then (\<exists>r. v = butlast text @ r) else v = text))"
  by (simp add: pattern_display_parse pattern_parse_matches starts_with_iff)

text \<open>A document is accepted exactly when every rule is sound, and then no rule can hold an
  empty pattern or an unexplained refusal; a refusal names the first rule at fault by its
  index.\<close>

theorem document_validated:
  "(engine_new rules = Inr rules \<or> (\<exists>e. engine_new rules = Inl e)) \<and>
   (engine_new rules = Inr rules \<longrightarrow>
     (\<forall>ru \<in> set rules. ru_action ru \<noteq> Exact [] \<and> pm_id_pattern (ru_principal ru) \<noteq> Exact [] \<and>
        pm_on_behalf_of (ru_principal ru) \<noteq> Some (Exact []) \<and> ru_resource ru \<noteq> Some (Exact []) \<and>
        (\<forall>reason. ru_effect ru = Deny reason \<longrightarrow> trim reason \<noteq> []) \<and>
        (\<forall>prompt. ru_effect ru = RequireApproval prompt \<longrightarrow> trim prompt \<noteq> []))) \<and>
   (\<forall>e. engine_new rules = Inl e \<longrightarrow>
     (\<exists>xs ru ys path message. rules = xs @ ru # ys \<and> engine_new xs = Inr xs \<and>
        rule_validate ru = Inl (Config path message) \<and>
        e = Config (''rules['' @ dec (length xs) @ ''].'' @ path) message))"
proof (cases "document_validate rules")
  case (Inl e)
  from validate_from_error [of 0 rules e] Inl obtain xs ru ys e0 where
    v: "rules = xs @ ru # ys" "\<forall>r \<in> set xs. rule_validate r = Inr ()" "rule_validate ru = Inl e0"
    "e = prefix_path e0 (''rules['' @ dec (length xs) @ '']'')"
    by (auto simp: document_validate_def)
  moreover obtain path message where "e0 = Config path message" "path \<noteq> []"
    using rule_validate_error [OF v(3)] by blast
  moreover have "engine_new xs = Inr xs"
    using v(2) by (simp add: engine_new_def document_validate_def validate_from_ok split: sum.splits)
       (metis Inl_Inr_False validate_from_ok)
  ultimately show ?thesis using Inl by (auto simp: engine_new_def) 
next
  case (Inr u)
  then have "\<forall>ru \<in> set rules. rule_validate ru = Inr ()"
    by (simp add: document_validate_def validate_from_ok)
  with Inr show ?thesis by (auto simp: engine_new_def dest: rule_validate_ok)
qed

theorem document_validated_witness:
  "engine_new [demo_rule ''*'' Allow] = Inr [demo_rule ''*'' Allow] \<and>
   ru_action (demo_rule ''*'' Allow) \<noteq> Exact []"
proof -
  have "engine_new [demo_rule ''*'' Allow] = Inr [demo_rule ''*'' Allow]" by code_simp
  with document_validated [of "[demo_rule ''*'' Allow]"] show ?thesis by simp
qed

end
