(* ===== verification/Aik_Trust.thy ===== *)
theory Aik_Trust
  imports Aik_Api
begin

text \<open>
  The provenance ledger (src/crates/tools/src/trust.rs and the \<^verbatim>\<open>TrustLedger\<close> contract of
  src/crates/api/src/provenance.rs): which conversations have read untrusted content. The
  contract is a locale; the in-memory ledger, with its one-way saturation, is its
  interpretation.
\<close>

section \<open>The contract\<close>

text \<open>A history of observations, told to a ledger one by one.\<close>

fun observe_all ::
  "(string \<Rightarrow> trust \<Rightarrow> 'l \<Rightarrow> unit result \<times> 'l) \<Rightarrow> (string \<times> trust) list \<Rightarrow> 'l \<Rightarrow> 'l" where
  "observe_all obs [] l = l"
| "observe_all obs (e # es) l = observe_all obs es (snd (obs (fst e) (snd e) l))"

lemma observe_all_append:
  "observe_all obs (xs @ ys) l = observe_all obs ys (observe_all obs xs l)"
  by (induction xs arbitrary: l) simp_all

text \<open>What the tool registry relies on: recording a taint makes the scope untrusted, and nothing
  observed afterwards, about any scope, makes it trusted again.\<close>

locale trust_ledger =
  fixes observe :: "string \<Rightarrow> trust \<Rightarrow> 'l \<Rightarrow> unit result \<times> 'l"
    and trust_of :: "string \<Rightarrow> 'l \<Rightarrow> trust result"
  assumes observe_taints:
      "observe scope Untrusted l = (Inr (), l') \<Longrightarrow> trust_of scope l' = Inr Untrusted"
    and observe_keeps:
      "trust_of scope l = Inr Untrusted \<Longrightarrow>
       trust_of scope (snd (observe scope' t l)) = Inr Untrusted"
begin

lemma taint_is_forever:
  "trust_of scope l = Inr Untrusted \<Longrightarrow> trust_of scope (observe_all observe es l) = Inr Untrusted"
  by (induction es arbitrary: l) (simp_all add: observe_keeps)

lemma observed_taint_is_forever:
  assumes "fst (observe scope Untrusted l) = Inr ()"
  shows "trust_of scope (observe_all observe es (snd (observe scope Untrusted l))) = Inr Untrusted"
  using assms observe_taints [of scope l "snd (observe scope Untrusted l)"]
  by (intro taint_is_forever) (metis prod.collapse)

end

section \<open>The in-memory ledger\<close>

datatype trust_enforcement = EnforceApproval | EnforceDeny | EnforceObserve

record in_memory_ledger =
  l_tainted :: "string list"
  l_saturated :: bool
  l_capacity :: nat

definition default_capacity :: nat where
  "default_capacity = 65536"

definition ledger_with_capacity :: "nat \<Rightarrow> in_memory_ledger" where
  "ledger_with_capacity capacity =
     \<lparr>l_tainted = [], l_saturated = False, l_capacity = capacity\<rparr>"

definition ledger_observe :: "string \<Rightarrow> trust \<Rightarrow> in_memory_ledger \<Rightarrow> unit result \<times> in_memory_ledger" where
  "ledger_observe scope t l =
     (if \<not> is_untrusted t then (Inr (), l)
      else if l_saturated l \<or> scope \<in> set (l_tainted l) then (Inr (), l)
      else if length (l_tainted l) \<ge> l_capacity l
      then (Inr (), l\<lparr>l_saturated := True, l_tainted := []\<rparr>)
      else (Inr (), l\<lparr>l_tainted := scope # l_tainted l\<rparr>))"

definition ledger_trust_of :: "string \<Rightarrow> in_memory_ledger \<Rightarrow> trust result" where
  "ledger_trust_of scope l =
     (if l_saturated l \<or> scope \<in> set (l_tainted l) then Inr Untrusted else Inr Trusted)"

definition tainted_count :: "in_memory_ledger \<Rightarrow> nat" where
  "tainted_count l = length (l_tainted l)"

interpretation mem_ledger: trust_ledger ledger_observe ledger_trust_of
  by unfold_locales
     (auto simp: ledger_observe_def ledger_trust_of_def is_untrusted_def split: if_splits)

text \<open>The set of tainted scopes has no duplicates and respects the capacity; saturation empties it.\<close>

definition ledger_inv :: "in_memory_ledger \<Rightarrow> bool" where
  "ledger_inv l \<longleftrightarrow> distinct (l_tainted l) \<and> length (l_tainted l) \<le> l_capacity l \<and>
     (l_saturated l \<longrightarrow> l_tainted l = [])"

lemma ledger_inv_new [simp]: "ledger_inv (ledger_with_capacity n)"
  by (simp add: ledger_inv_def ledger_with_capacity_def)

lemma ledger_inv_observe: "ledger_inv l \<Longrightarrow> ledger_inv (snd (ledger_observe scope t l))"
  by (auto simp: ledger_inv_def ledger_observe_def)

lemma ledger_capacity_observe [simp]: "l_capacity (snd (ledger_observe scope t l)) = l_capacity l"
  by (simp add: ledger_observe_def)

section \<open>Properties\<close>

text \<open>The ledger after a history of observations, and the scopes that history taints.\<close>

definition observed :: "nat \<Rightarrow> (string \<times> trust) list \<Rightarrow> in_memory_ledger" where
  "observed capacity es = observe_all ledger_observe es (ledger_with_capacity capacity)"

definition tainted_scopes :: "(string \<times> trust) list \<Rightarrow> string set" where
  "tainted_scopes es = {s. (s, Untrusted) \<in> set es}"

lemma finite_tainted_scopes [simp]: "finite (tainted_scopes es)"
proof -
  have "tainted_scopes es \<subseteq> fst ` set es" by (force simp: tainted_scopes_def)
  then show ?thesis by (rule finite_subset) simp
qed

lemma tainted_scopes_snoc:
  "tainted_scopes (es @ [(s, t)]) = (if t = Untrusted then insert s (tainted_scopes es) else tainted_scopes es)"
  by (auto simp: tainted_scopes_def)

text \<open>Before saturation the ledger is exact, and it saturates only on one taint too many.\<close>

lemma observed_state:
  "ledger_inv (observed n es) \<and> l_capacity (observed n es) = n \<and>
   (if l_saturated (observed n es) then n < card (tainted_scopes es)
    else set (l_tainted (observed n es)) = tainted_scopes es)"
proof (induction es rule: rev_induct)
  case Nil
  then show ?case by (simp add: observed_def ledger_with_capacity_def ledger_inv_def tainted_scopes_def)
next
  case (snoc e es)
  obtain s t where e: "e = (s, t)" by (cases e)
  let ?l = "observed n es"
  have l': "observed n (es @ [e]) = snd (ledger_observe s t ?l)"
    by (simp add: observed_def observe_all_append e)
  have inv: "ledger_inv (observed n (es @ [e]))" using snoc by (simp add: l' ledger_inv_observe)
  have cap: "l_capacity (observed n (es @ [e])) = n" using snoc by (simp add: l')
  show ?case
  proof (cases "t = Untrusted \<and> \<not> l_saturated ?l \<and> s \<notin> set (l_tainted ?l)")
    case False
    then have same: "observed n (es @ [e]) = ?l"
      by (cases t) (auto simp: l' ledger_observe_def is_untrusted_def)
    have "card (tainted_scopes es) \<le> card (tainted_scopes (es @ [e]))"
      by (rule card_mono) (auto simp: e tainted_scopes_snoc)
    moreover have "tainted_scopes (es @ [e]) = tainted_scopes es" if "\<not> l_saturated ?l"
      using False that snoc by (auto simp: e tainted_scopes_snoc)
    ultimately show ?thesis using snoc same inv cap by auto
  next
    case True
    then have exact: "set (l_tainted ?l) = tainted_scopes es" and new: "s \<notin> tainted_scopes es"
      using snoc by auto
    have "distinct (l_tainted ?l)" using snoc by (simp add: ledger_inv_def)
    then have len: "length (l_tainted ?l) = card (tainted_scopes es)"
      by (metis distinct_card exact)
    have "card (tainted_scopes (es @ [e])) = Suc (card (tainted_scopes es))"
      using new True by (simp add: e tainted_scopes_snoc)
    moreover have "l_capacity ?l = n" using snoc by simp
    moreover have "observed n (es @ [e]) =
        (if n \<le> card (tainted_scopes es) then ?l\<lparr>l_saturated := True, l_tainted := []\<rparr>
         else ?l\<lparr>l_tainted := s # l_tainted ?l\<rparr>)"
      using True len \<open>l_capacity ?l = n\<close> unfolding l' by (simp add: ledger_observe_def is_untrusted_def)
    moreover have "tainted_scopes (es @ [e]) = insert s (tainted_scopes es)"
      using True by (simp add: e tainted_scopes_snoc)
    ultimately show ?thesis using inv cap True exact by (auto split: if_splits)
  qed
qed

text \<open>C16. Taint is never lost: whatever is observed, in whatever order and however many scopes there
  are, a scope about which anything untrusted was observed is untrusted from then on; the ledger
  never holds more scopes than its capacity; and it calls an innocent scope untrusted only when
  more scopes were tainted than it can tell apart.\<close>

theorem taint_never_lost:
  "((scope, Untrusted) \<in> set es \<longrightarrow> ledger_trust_of scope (observed capacity es) = Inr Untrusted) \<and>
   tainted_count (observed capacity es) \<le> capacity \<and>
   ((scope, Untrusted) \<notin> set es \<and> card (tainted_scopes es) \<le> capacity \<longrightarrow>
      ledger_trust_of scope (observed capacity es) = Inr Trusted)"
  using observed_state [of capacity es]
  by (auto simp: ledger_trust_of_def tainted_count_def tainted_scopes_def ledger_inv_def)

theorem taint_never_lost_witness:
  "ledger_trust_of ''a'' (observed 1 [(''a'', Untrusted), (''b'', Untrusted), (''a'', Trusted)]) = Inr Untrusted \<and>
   l_saturated (observed 1 [(''a'', Untrusted), (''b'', Untrusted), (''a'', Trusted)])"
proof
  show "ledger_trust_of ''a'' (observed 1 [(''a'', Untrusted), (''b'', Untrusted), (''a'', Trusted)])
      = Inr Untrusted"
    using taint_never_lost [of "''a''" "[(''a'', Untrusted), (''b'', Untrusted), (''a'', Trusted)]" 1]
    by simp
  show "l_saturated (observed 1 [(''a'', Untrusted), (''b'', Untrusted), (''a'', Trusted)])" by code_simp
qed

end
