(* ===== verification/Aik_Tools.thy ===== *)
theory Aik_Tools
  imports Aik_Trust
begin

text \<open>
  The in-process tool registry (src/crates/tools/src/registry.rs): every invocation passes the
  capability check, the planned-resource check and the provenance check before the tool runs,
  every resource the tool discovers while it runs passes the same decision, and every decision
  and invocation is recorded. The policy engine, the approval sink, the ledger and the tools
  are what the registry is configured with; an environment is threaded through the calls that
  leave the registry, so that they may answer differently each time.
\<close>

section \<open>Tools, questions and records\<close>

record tool_spec =
  sp_name :: string
  sp_description :: string
  sp_input_schema :: json
  sp_output_schema :: "json option"
  sp_required_permissions :: "string list"
  sp_read_only :: bool
  sp_output_trust :: trust
  sp_reach :: reach

record resource_claim =
  rc_action :: string
  rc_resource :: string

record tool_outcome =
  to_output :: json
  to_is_error :: bool
  to_trust :: trust

text \<open>A running tool asks its authorizer about resources it discovers, any number of times and
  each time as it likes given the answers so far, and then finishes.\<close>

datatype tool_run =
    Finish "tool_outcome result"
  | Ask string string "unit result \<Rightarrow> tool_run"

record 'e tool =
  tl_spec :: tool_spec
  tl_planned :: "json \<Rightarrow> resource_claim list result"
  tl_invoke :: "'e \<Rightarrow> json \<Rightarrow> execution_context \<Rightarrow> tool_run"

datatype authorization_phase = PhTool | PhResource | PhDiscovered | PhTrust

datatype authorization_outcome =
    Allowed | DeniedOutcome string | ApprovalGranted | ApprovalRefused | ApprovalUnavailable
  | PolicyUnavailable

datatype invocation_outcome =
    Succeeded | ReportedError | FailedOutcome string | InvocationDenied | ToolNotFound

record question =
  qu_cx :: execution_context
  qu_tool :: string
  qu_principal :: principal
  qu_action :: string
  qu_resource :: "string option"
  qu_phase :: authorization_phase
  qu_trust :: trust
  qu_reach :: reach

text \<open>The trace holds the two audit records, without their durations, and each entry into a
  tool.\<close>

datatype trace_event =
    Decided question authorization_outcome
  | Ran string
  | Invoked string principal invocation_outcome "trust option"

record 'l ledger_ops =
  lo_observe :: "string \<Rightarrow> trust \<Rightarrow> 'l \<Rightarrow> unit result \<times> 'l"
  lo_trust_of :: "string \<Rightarrow> 'l \<Rightarrow> trust result"

record ('e, 'l) tool_registry =
  t_tools :: "(string, 'e tool) hash_map"
  t_policy :: "('e \<Rightarrow> permission_request \<Rightarrow> execution_context \<Rightarrow> decision result \<times> 'e) option"
  t_approvals ::
    "('e \<Rightarrow> permission_request \<Rightarrow> string \<Rightarrow> execution_context \<Rightarrow> bool result \<times> 'e) option"
  t_audit :: bool
  t_ledger :: "'l ledger_ops"
  t_enforcement :: trust_enforcement

record ('e, 'l) tool_state =
  ts_env :: 'e
  ts_ledger :: 'l
  ts_trace :: "trace_event list"

text \<open>What the audit bus sees of a trace.\<close>

definition published :: "('e, 'l) tool_registry \<Rightarrow> trace_event list \<Rightarrow> trace_event list" where
  "published reg tr =
     (if t_audit reg then filter (\<lambda>e. case e of Ran _ \<Rightarrow> False | _ \<Rightarrow> True) tr else [])"

definition register_arc ::
  "'e tool \<Rightarrow> ('e, 'l) tool_registry \<Rightarrow> unit result \<times> ('e, 'l) tool_registry" where
  "register_arc tool reg =
     (if map_of (t_tools reg) (sp_name (tl_spec tool)) \<noteq> None
      then (Inl (AlreadyExists ''tool'' (sp_name (tl_spec tool))), reg)
      else (Inr (), reg\<lparr>t_tools := AList.update (sp_name (tl_spec tool)) tool (t_tools reg)\<rparr>))"

definition list_specs :: "('e, 'l) tool_registry \<Rightarrow> tool_spec list" where
  "list_specs reg = sort_key sp_name (map (\<lambda>e. tl_spec (snd e)) (t_tools reg))"

definition describe :: "question \<Rightarrow> string" where
  "describe q =
     (case qu_resource q of
        Some r \<Rightarrow> ''`'' @ qu_action q @ ''` on `'' @ r @ ''`''
      | None \<Rightarrow> ''`'' @ qu_action q @ ''`'')"

definition trust_attribute :: string where
  "trust_attribute = ''aik.trust''"

definition reach_context_key :: string where
  "reach_context_key = ''aik.reach''"

definition question_request :: "question \<Rightarrow> permission_request" where
  "question_request q =
     \<lparr>rq_principal = qu_principal q, rq_action = qu_action q, rq_resource = qu_resource q,
      rq_context = JObject
        (bt_insert reach_context_key (JString (reach_str (qu_reach q)))
          (bt_insert trust_attribute (JString (trust_str (qu_trust q)))
            (bt_insert ''tool'' (JString (qu_tool q)) [])))\<rparr>"

definition scope_of :: "execution_context \<Rightarrow> string" where
  "scope_of cx =
     (case Option.bind (map_of (cx_attributes cx) ''aik.agent.session'') json_as_str of
        Some session \<Rightarrow>
          if session \<noteq> [] then ''session:'' @ session else ''operation:'' @ cx_correlation cx
      | None \<Rightarrow> ''operation:'' @ cx_correlation cx)"

fun describe_reach :: "reach \<Rightarrow> string" where
  "describe_reach Contained = ''read state this deployment already holds''"
| "describe_reach Mutating = ''change state on this machine''"
| "describe_reach ReachExternal = ''send data outside this deployment''"

section \<open>Deciding\<close>

definition record_event :: "trace_event \<Rightarrow> ('e, 'l) tool_state \<Rightarrow> ('e, 'l) tool_state" where
  "record_event ev st = st\<lparr>ts_trace := ts_trace st @ [ev]\<rparr>"

definition tool_refusal :: "string \<Rightarrow> string \<Rightarrow> error" where
  "tool_refusal tool message = PermissionDenied (''tool `'' @ tool @ ''`: '' @ message)"

text \<open>The common end of \<^verbatim>\<open>decide\<close> and \<^verbatim>\<open>enforce_trust\<close>: record, then refuse with the
  message if there is one.\<close>

definition conclude ::
  "question \<Rightarrow> authorization_outcome \<Rightarrow> string option \<Rightarrow> ('e, 'l) tool_state
   \<Rightarrow> unit result \<times> ('e, 'l) tool_state" where
  "conclude q outcome message st =
     (case message of None \<Rightarrow> Inr () | Some m \<Rightarrow> Inl (tool_refusal (qu_tool q) m),
      record_event (Decided q outcome) st)"

definition decide ::
  "('e, 'l) tool_registry \<Rightarrow> question \<Rightarrow> ('e, 'l) tool_state
   \<Rightarrow> unit result \<times> ('e, 'l) tool_state" where
  "decide reg q st =
     (case t_policy reg of
        None \<Rightarrow>
          (Inl (tool_refusal (qu_tool q)
             (describe q @ '' is required, but no policy engine is configured'')),
           record_event (Decided q PolicyUnavailable) st)
      | Some policy \<Rightarrow>
     (case policy (ts_env st) (question_request q) (qu_cx q) of
        (Inl e, env) \<Rightarrow>
          (Inl e, record_event (Decided q PolicyUnavailable) (st\<lparr>ts_env := env\<rparr>))
      | (Inr Allow, env) \<Rightarrow> conclude q Allowed None (st\<lparr>ts_env := env\<rparr>)
      | (Inr (Deny reason), env) \<Rightarrow>
          conclude q (DeniedOutcome reason) (Some (describe q @ '': '' @ reason)) (st\<lparr>ts_env := env\<rparr>)
      | (Inr (RequireApproval prompt), env) \<Rightarrow>
          (case t_approvals reg of
             None \<Rightarrow>
               conclude q ApprovalUnavailable
                 (Some (describe q @ '' requires approval, but no approval sink is configured''))
                 (st\<lparr>ts_env := env\<rparr>)
           | Some sink \<Rightarrow>
               (case sink env (question_request q) prompt (qu_cx q) of
                  (Inr True, env') \<Rightarrow> conclude q ApprovalGranted None (st\<lparr>ts_env := env'\<rparr>)
                | (Inr False, env') \<Rightarrow>
                    conclude q ApprovalRefused (Some (describe q @ '' was not approved''))
                      (st\<lparr>ts_env := env'\<rparr>)
                | (Inl e, env') \<Rightarrow>
                    (Inl e, record_event (Decided q ApprovalUnavailable) (st\<lparr>ts_env := env'\<rparr>))))))"

definition trust_prompt :: "string \<Rightarrow> string \<Rightarrow> string" where
  "trust_prompt tool effect =
     ''This conversation has read content from outside this deployment '' @ map char_of [226, 128, 148::nat]
     @ '' a fetched page, a file, a program'' @ [char_of (39::nat)]
     @ ''s output, or an external tool server. Running `'' @ tool
     @ ''` now would let that content '' @ effect
     @ ''. Untrusted content asking for exactly this is what a prompt injection looks like. Allow it?''"

definition trust_question ::
  "execution_context \<Rightarrow> tool_spec \<Rightarrow> principal \<Rightarrow> trust \<Rightarrow> question" where
  "trust_question cx spec who t =
     \<lparr>qu_cx = cx, qu_tool = sp_name spec, qu_principal = who,
      qu_action = ''aik.untrusted-content'', qu_resource = None, qu_phase = PhTrust,
      qu_trust = t, qu_reach = sp_reach spec\<rparr>"

definition enforce_trust ::
  "('e, 'l) tool_registry \<Rightarrow> execution_context \<Rightarrow> tool_spec \<Rightarrow> principal \<Rightarrow> trust
   \<Rightarrow> ('e, 'l) tool_state \<Rightarrow> unit result \<times> ('e, 'l) tool_state" where
  "enforce_trust reg cx spec who t st =
     (if \<not> is_untrusted t \<or> is_contained (sp_reach spec) then (Inr (), st)
      else
        let q = trust_question cx spec who t;
            effect = describe_reach (sp_reach spec);
            reason = ''this conversation has read untrusted content, and `'' @ sp_name spec
              @ ''` can '' @ effect
        in (case t_enforcement reg of
              EnforceObserve \<Rightarrow> conclude q Allowed None st
            | EnforceDeny \<Rightarrow> conclude q (DeniedOutcome reason) (Some reason) st
            | EnforceApproval \<Rightarrow>
                (case t_approvals reg of
                   None \<Rightarrow>
                     conclude q ApprovalUnavailable (Some (reason @ '', and there is nobody to ask'')) st
                 | Some sink \<Rightarrow>
                     (case sink (ts_env st) (question_request q) (trust_prompt (sp_name spec) effect) cx of
                        (Inr True, env) \<Rightarrow> conclude q ApprovalGranted None (st\<lparr>ts_env := env\<rparr>)
                      | (Inr False, env) \<Rightarrow>
                          conclude q ApprovalRefused (Some (reason @ '', and it was not approved''))
                            (st\<lparr>ts_env := env\<rparr>)
                      | (Inl e, env) \<Rightarrow>
                          (Inl e, record_event (Decided q ApprovalUnavailable) (st\<lparr>ts_env := env\<rparr>))))))"

fun decide_all ::
  "('e, 'l) tool_registry \<Rightarrow> question list \<Rightarrow> ('e, 'l) tool_state
   \<Rightarrow> unit result \<times> ('e, 'l) tool_state" where
  "decide_all reg [] st = (Inr (), st)"
| "decide_all reg (q # qs) st =
     (case decide reg q st of
        (Inl e, st') \<Rightarrow> (Inl e, st')
      | (Inr _, st') \<Rightarrow> decide_all reg qs st')"

text \<open>The questions of the two pre-execution phases, in the order the loops of
  \<^verbatim>\<open>authorize\<close> ask them.\<close>

definition tool_question ::
  "execution_context \<Rightarrow> tool_spec \<Rightarrow> principal \<Rightarrow> trust \<Rightarrow> string \<Rightarrow> question" where
  "tool_question cx spec who t action =
     \<lparr>qu_cx = cx, qu_tool = sp_name spec, qu_principal = who, qu_action = action,
      qu_resource = None, qu_phase = PhTool, qu_trust = t, qu_reach = sp_reach spec\<rparr>"

definition claim_question ::
  "execution_context \<Rightarrow> tool_spec \<Rightarrow> principal \<Rightarrow> trust \<Rightarrow> resource_claim \<Rightarrow> question" where
  "claim_question cx spec who t claim =
     \<lparr>qu_cx = cx, qu_tool = sp_name spec, qu_principal = who, qu_action = rc_action claim,
      qu_resource = Some (rc_resource claim), qu_phase = PhResource, qu_trust = t,
      qu_reach = sp_reach spec\<rparr>"

definition authorize ::
  "('e, 'l) tool_registry \<Rightarrow> execution_context \<Rightarrow> tool_spec \<Rightarrow> principal \<Rightarrow> resource_claim list
   \<Rightarrow> trust \<Rightarrow> ('e, 'l) tool_state \<Rightarrow> unit result \<times> ('e, 'l) tool_state" where
  "authorize reg cx spec who claims t st =
     (case decide_all reg (map (tool_question cx spec who t) (sp_required_permissions spec)) st of
        (Inl e, st1) \<Rightarrow> (Inl e, st1)
      | (Inr _, st1) \<Rightarrow>
     (case decide_all reg (map (claim_question cx spec who t) claims) st1 of
        (Inl e, st2) \<Rightarrow> (Inl e, st2)
      | (Inr _, st2) \<Rightarrow> enforce_trust reg cx spec who t st2))"

text \<open>Running a tool with its scoped authorizer.\<close>

primrec run_tool ::
  "('e, 'l) tool_registry \<Rightarrow> execution_context \<Rightarrow> string \<Rightarrow> principal \<Rightarrow> trust \<Rightarrow> reach \<Rightarrow> tool_run
   \<Rightarrow> ('e, 'l) tool_state \<Rightarrow> tool_outcome result \<times> ('e, 'l) tool_state" where
  "run_tool reg cx name who t reach (Finish r) st = (r, st)"
| "run_tool reg cx name who t reach (Ask action resource continue) st =
     (case decide reg
        \<lparr>qu_cx = cx, qu_tool = name, qu_principal = who, qu_action = action,
         qu_resource = Some resource, qu_phase = PhDiscovered, qu_trust = t, qu_reach = reach\<rparr> st of
        (answer, st') \<Rightarrow> run_tool reg cx name who t reach (continue answer) st')"

definition classify_authorization_error :: "error \<Rightarrow> invocation_outcome" where
  "classify_authorization_error e =
     (if kind e = KPermission then InvocationDenied else FailedOutcome (classify (kind e)))"

text \<open>\<open>show_error\<close> is the display form of an error, which two messages embed. \<open>settle\<close> is the
  part of \<^verbatim>\<open>invoke\<close> after the tool has returned.\<close>

definition settle ::
  "(error \<Rightarrow> string) \<Rightarrow> ('e, 'l) tool_registry \<Rightarrow> string \<Rightarrow> principal \<Rightarrow> tool_spec \<Rightarrow> string
   \<Rightarrow> tool_outcome result \<Rightarrow> ('e, 'l) tool_state \<Rightarrow> tool_outcome result \<times> ('e, 'l) tool_state" where
  "settle show_error reg name who spec scope result st =
     (let output_trust =
            (case result of
               Inl _ \<Rightarrow> None
             | Inr x \<Rightarrow> Some (min_with (sp_output_trust spec) (to_trust x)));
          outcome =
            (case result of
               Inr x \<Rightarrow> if to_is_error x then ReportedError else Succeeded
             | Inl e \<Rightarrow> classify_authorization_error e);
          (failure, ledger) =
            (case output_trust of
               Some ot \<Rightarrow>
                 (case lo_observe (t_ledger reg) scope ot (ts_ledger st) of
                    (Inl e, l) \<Rightarrow> (Some e, l)
                  | (Inr _, l) \<Rightarrow> (None, l))
             | None \<Rightarrow> (None, ts_ledger st));
          st' = st\<lparr>ts_ledger := ledger\<rparr>
      in (case failure of
            None \<Rightarrow> (result, record_event (Invoked name who outcome output_trust) st')
          | Some e \<Rightarrow>
              (Inl (other (''tool `'' @ name @ ''` ran, but its result was discarded: the ''
                 @ ''provenance of what it returned could not be recorded: '' @ show_error e)),
               record_event (Invoked name who (FailedOutcome (classify (kind e))) None) st')))"

definition invoke ::
  "(error \<Rightarrow> string) \<Rightarrow> ('e, 'l) tool_registry \<Rightarrow> string \<Rightarrow> json \<Rightarrow> execution_context
   \<Rightarrow> ('e, 'l) tool_state \<Rightarrow> tool_outcome result \<times> ('e, 'l) tool_state" where
  "invoke show_error reg name arguments cx st =
     (let who = principal_or_system cx in
      case map_of (t_tools reg) name of
        None \<Rightarrow>
          (Inl (NotFound ''tool'' name), record_event (Invoked name who ToolNotFound None) st)
      | Some tool \<Rightarrow>
     (let spec = tl_spec tool; scope = scope_of cx in
      case lo_trust_of (t_ledger reg) scope (ts_ledger st) of
        Inl e \<Rightarrow>
          (Inl (tool_refusal name
             (''the trust of this conversation could not be established: '' @ show_error e)),
           record_event (Invoked name who InvocationDenied None) st)
      | Inr t \<Rightarrow>
     (case tl_planned tool arguments of
        Inl e \<Rightarrow>
          (Inl e, record_event (Invoked name who (FailedOutcome (classify (kind e))) None) st)
      | Inr claims \<Rightarrow>
     (case authorize reg cx spec who claims t st of
        (Inl e, st1) \<Rightarrow>
          (Inl e, record_event (Invoked name who InvocationDenied None) st1)
      | (Inr _, st1) \<Rightarrow>
          (let cx' = with_attribute (child cx) trust_attribute (JString (trust_str t)) in
           case run_tool reg cx' name who t (sp_reach spec)
                  (tl_invoke tool (ts_env st1) arguments cx') (record_event (Ran name) st1) of
             (result, st2) \<Rightarrow> settle show_error reg name who spec scope result st2)))))"

section \<open>What the steps leave behind\<close>

text \<open>\<^verbatim>\<open>AuthorizationOutcome::is_allowed\<close>.\<close>

definition granting :: "authorization_outcome \<Rightarrow> bool" where
  "granting outcome \<longleftrightarrow> outcome = Allowed \<or> outcome = ApprovalGranted"

definition is_decision :: "trace_event \<Rightarrow> bool" where
  "is_decision ev \<longleftrightarrow> (case ev of Decided _ _ \<Rightarrow> True | _ \<Rightarrow> False)"

lemma record_event_fields [simp]:
  "ts_env (record_event ev st) = ts_env st" "ts_ledger (record_event ev st) = ts_ledger st"
  "ts_trace (record_event ev st) = ts_trace st @ [ev]"
  by (simp_all add: record_event_def)

lemma decide_step:
  assumes "decide reg q st = (r, st')"
  obtains outcome where "ts_trace st' = ts_trace st @ [Decided q outcome]"
    "ts_ledger st' = ts_ledger st" "r = Inr () \<longleftrightarrow> granting outcome"
  using assms
  by (auto simp: decide_def conclude_def granting_def split: option.splits prod.splits sum.splits
      decision.splits bool.splits)

lemma enforce_trust_step:
  assumes "enforce_trust reg cx spec who t st = (r, st')" "is_untrusted t" "\<not> is_contained (sp_reach spec)"
  obtains outcome where "ts_trace st' = ts_trace st @ [Decided (trust_question cx spec who t) outcome]"
    "ts_ledger st' = ts_ledger st" "r = Inr () \<longleftrightarrow> granting outcome"
  using assms
  by (auto simp: enforce_trust_def Let_def conclude_def granting_def split: option.splits prod.splits
      sum.splits bool.splits trust_enforcement.splits)

lemma enforce_trust_idle:
  "\<not> is_untrusted t \<or> is_contained (sp_reach spec) \<Longrightarrow> enforce_trust reg cx spec who t st = (Inr (), st)"
  by (auto simp: enforce_trust_def)

lemma decide_all_steps:
  "decide_all reg qs st = (r, st') \<Longrightarrow>
   \<exists>os. length os \<le> length qs \<and> ts_trace st' = ts_trace st @ map2 Decided qs os \<and>
     ts_ledger st' = ts_ledger st \<and> (r = Inr () \<longleftrightarrow> length os = length qs \<and> list_all granting os)"
proof (induction qs arbitrary: st)
  case (Cons q qs)
  obtain r1 st1 where d: "decide reg q st = (r1, st1)" by fastforce
  then obtain outcome where o: "ts_trace st1 = ts_trace st @ [Decided q outcome]"
    "ts_ledger st1 = ts_ledger st" "r1 = Inr () \<longleftrightarrow> granting outcome" by (rule decide_step)
  show ?case
  proof (cases r1)
    case (Inl e)
    with Cons.prems d o show ?thesis by (intro exI [of _ "[outcome]"]) auto
  next
    case (Inr u)
    with Cons.prems d have "decide_all reg qs st1 = (r, st')" by simp
    from Cons.IH [OF this] obtain os where "length os \<le> length qs"
      "ts_trace st' = ts_trace st1 @ map2 Decided qs os" "ts_ledger st' = ts_ledger st1"
      "r = Inr () \<longleftrightarrow> length os = length qs \<and> list_all granting os" by blast
    with o Inr show ?thesis by (intro exI [of _ "outcome # os"]) auto
  qed
qed simp

text \<open>Everything that is asked before a tool runs.\<close>

definition preflight ::
  "execution_context \<Rightarrow> tool_spec \<Rightarrow> principal \<Rightarrow> resource_claim list \<Rightarrow> trust \<Rightarrow> question list" where
  "preflight cx spec who claims t =
     map (tool_question cx spec who t) (sp_required_permissions spec) @
     map (claim_question cx spec who t) claims @
     (if is_untrusted t \<and> \<not> is_contained (sp_reach spec) then [trust_question cx spec who t] else [])"

lemma map2_append:
  "length os = length qs \<Longrightarrow> map2 f (qs @ qs') (os @ os') = map2 f qs os @ map2 f qs' os'"
  by (induction os qs rule: list_induct2) simp_all

lemma authorize_steps:
  assumes "authorize reg cx spec who claims t st = (r, st')"
  shows "\<exists>os. length os \<le> length (preflight cx spec who claims t) \<and>
    ts_trace st' = ts_trace st @ map2 Decided (preflight cx spec who claims t) os \<and>
    ts_ledger st' = ts_ledger st \<and>
    (r = Inr () \<longleftrightarrow> length os = length (preflight cx spec who claims t) \<and> list_all granting os)"
proof -
  define q1 where "q1 = map (tool_question cx spec who t) (sp_required_permissions spec)"
  define q2 where "q2 = map (claim_question cx spec who t) claims"
  define q3 where "q3 = (if is_untrusted t \<and> \<not> is_contained (sp_reach spec)
    then [trust_question cx spec who t] else [])"
  have pre: "preflight cx spec who claims t = q1 @ q2 @ q3"
    by (simp add: preflight_def q1_def q2_def q3_def)
  obtain r1 st1 where d1: "decide_all reg q1 st = (r1, st1)" by fastforce
  then obtain o1 where o1: "length o1 \<le> length q1" "ts_trace st1 = ts_trace st @ map2 Decided q1 o1"
    "ts_ledger st1 = ts_ledger st" "r1 = Inr () \<longleftrightarrow> length o1 = length q1 \<and> list_all granting o1"
    using decide_all_steps by blast
  have ext: "map2 Decided (q1 @ qs) o1 = map2 Decided q1 o1" for qs
    using o1(1) by (simp add: zip_append1)
  show ?thesis
  proof (cases r1)
    case (Inl e)
    have "r = Inl e" "st' = st1" using assms d1 Inl by (auto simp: authorize_def q1_def)
    with Inl o1 ext show ?thesis by (intro exI [of _ o1]) (auto simp: pre)
  next
    case (Inr u1)
    with o1 have ok1: "length o1 = length q1" "list_all granting o1" by auto
    obtain r2 st2 where d2: "decide_all reg q2 st1 = (r2, st2)" by fastforce
    then obtain o2 where o2: "length o2 \<le> length q2" "ts_trace st2 = ts_trace st1 @ map2 Decided q2 o2"
      "ts_ledger st2 = ts_ledger st1" "r2 = Inr () \<longleftrightarrow> length o2 = length q2 \<and> list_all granting o2"
      using decide_all_steps by blast
    have ext2: "map2 Decided (q1 @ q2 @ qs) (o1 @ o2) = map2 Decided q1 o1 @ map2 Decided q2 o2" for qs
      using o2(1) ok1(1) by (simp add: zip_append1)
    show ?thesis
    proof (cases r2)
      case (Inl e)
      have "r = Inl e" "st' = st2" using assms d1 d2 Inl Inr by (auto simp: authorize_def q1_def q2_def)
      with Inl o1 o2 ok1 ext2 show ?thesis by (intro exI [of _ "o1 @ o2"]) (auto simp: pre)
    next
      case (Inr u2)
      with o2 have ok2: "length o2 = length q2" "list_all granting o2" by auto
      have et: "enforce_trust reg cx spec who t st2 = (r, st')"
        using assms d1 d2 \<open>r1 = Inr u1\<close> Inr by (simp add: authorize_def q1_def q2_def)
      have "\<exists>o3. length o3 \<le> length q3 \<and> ts_trace st' = ts_trace st2 @ map2 Decided q3 o3 \<and>
          ts_ledger st' = ts_ledger st2 \<and> (r = Inr () \<longleftrightarrow> length o3 = length q3 \<and> list_all granting o3)"
      proof (cases "is_untrusted t \<and> \<not> is_contained (sp_reach spec)")
        case True
        with et show ?thesis
          by (elim enforce_trust_step) (auto simp: q3_def intro!: exI [of _ "[_]"])
      next
        case False
        with et show ?thesis by (simp add: q3_def enforce_trust_idle)
      qed
      then obtain o3 where o3: "length o3 \<le> length q3" "ts_trace st' = ts_trace st2 @ map2 Decided q3 o3"
        "ts_ledger st' = ts_ledger st2" "r = Inr () \<longleftrightarrow> length o3 = length q3 \<and> list_all granting o3"
        by blast
      have "map2 Decided (q1 @ q2 @ q3) (o1 @ o2 @ o3) =
          map2 Decided q1 o1 @ map2 Decided q2 o2 @ map2 Decided q3 o3"
        by (simp add: map2_append [OF ok1(1)] map2_append [OF ok2(1)])
      with o1 o2 o3 ok1 ok2 show ?thesis by (intro exI [of _ "o1 @ o2 @ o3"]) (simp add: pre)
    qed
  qed
qed

lemma run_tool_steps:
  "run_tool reg cx name who t rch run st = (r, st') \<Longrightarrow>
   \<exists>ds. ts_trace st' = ts_trace st @ ds \<and> ts_ledger st' = ts_ledger st \<and>
     (\<forall>d \<in> set ds. \<exists>q outcome. d = Decided q outcome \<and> qu_phase q = PhDiscovered \<and> qu_tool q = name \<and>
        qu_principal q = who)"
proof (induction run arbitrary: st)
  case (Finish x)
  then show ?case by simp
next
  case (Ask action resource continue)
  let ?q = "\<lparr>qu_cx = cx, qu_tool = name, qu_principal = who, qu_action = action,
         qu_resource = Some resource, qu_phase = PhDiscovered, qu_trust = t, qu_reach = rch\<rparr>"
  obtain ans st1 where d: "decide reg ?q st = (ans, st1)" by fastforce
  then obtain outcome where o: "ts_trace st1 = ts_trace st @ [Decided ?q outcome]"
    "ts_ledger st1 = ts_ledger st" by (rule decide_step)
  from Ask.prems d have "run_tool reg cx name who t rch (continue ans) st1 = (r, st')" by simp
  from Ask.IH [OF _ this] obtain ds where "ts_trace st' = ts_trace st1 @ ds" "ts_ledger st' = ts_ledger st1"
     "\<forall>d \<in> set ds. \<exists>q outcome. d = Decided q outcome \<and> qu_phase q = PhDiscovered \<and> qu_tool q = name \<and>
        qu_principal q = who" by auto
  with o show ?case by (intro exI [of _ "Decided ?q outcome # ds"]) auto
qed

text \<open>An invocation is either refused before the tool runs, or runs it after everything was
  granted and then tells the ledger what came back.\<close>

lemma map2_decisions: "d \<in> set (map2 Decided qs os) \<Longrightarrow> is_decision d"
  by (auto simp: is_decision_def)

lemma settle_steps:
  assumes "settle se reg name who spec scope res st = (r, st')"
  shows "\<exists>out ot. ts_trace st' = ts_trace st @ [Invoked name who out ot]"
    "\<forall>x. r = Inr x \<longrightarrow> lo_observe (t_ledger reg) scope
       (min_with (sp_output_trust spec) (to_trust x)) (ts_ledger st) = (Inr (), ts_ledger st')"
    "ts_ledger st' = ts_ledger st \<or>
       (\<exists>ot. ts_ledger st' = snd (lo_observe (t_ledger reg) scope ot (ts_ledger st)))"
proof -
  have "(\<exists>out ot. ts_trace st' = ts_trace st @ [Invoked name who out ot]) \<and>
    (\<forall>x. r = Inr x \<longrightarrow> lo_observe (t_ledger reg) scope
       (min_with (sp_output_trust spec) (to_trust x)) (ts_ledger st) = (Inr (), ts_ledger st')) \<and>
    (ts_ledger st' = ts_ledger st \<or>
       (\<exists>ot. ts_ledger st' = snd (lo_observe (t_ledger reg) scope ot (ts_ledger st))))"
  proof (cases res)
    case (Inl e)
    with assms show ?thesis by (auto simp: settle_def)
  next
    case (Inr x)
    obtain ro l where ob: "lo_observe (t_ledger reg) scope
        (min_with (sp_output_trust spec) (to_trust x)) (ts_ledger st) = (ro, l)" by fastforce
    then have "\<exists>ot. l = snd (lo_observe (t_ledger reg) scope ot (ts_ledger st))" by (metis snd_conv)
    with ob assms Inr show ?thesis by (cases ro) (auto simp: settle_def)
  qed
  then show "\<exists>out ot. ts_trace st' = ts_trace st @ [Invoked name who out ot]"
    "\<forall>x. r = Inr x \<longrightarrow> lo_observe (t_ledger reg) scope
       (min_with (sp_output_trust spec) (to_trust x)) (ts_ledger st) = (Inr (), ts_ledger st')"
    "ts_ledger st' = ts_ledger st \<or>
       (\<exists>ot. ts_ledger st' = snd (lo_observe (t_ledger reg) scope ot (ts_ledger st)))"
    by blast+
qed

lemma invoke_cases:
  assumes "invoke se reg name arguments cx st = (r, st')"
  obtains (refused) e ds out where "r = Inl e" "ts_ledger st' = ts_ledger st"
      "ts_trace st' = ts_trace st @ ds @ [Invoked name (principal_or_system cx) out None]"
      "\<forall>d \<in> set ds. is_decision d"
  | (ran) tool t claims os ds out ot where "map_of (t_tools reg) name = Some tool"
      "lo_trust_of (t_ledger reg) (scope_of cx) (ts_ledger st) = Inr t"
      "tl_planned tool arguments = Inr claims"
      "length os = length (preflight cx (tl_spec tool) (principal_or_system cx) claims t)"
      "list_all granting os"
      "ts_trace st' = ts_trace st @
         map2 Decided (preflight cx (tl_spec tool) (principal_or_system cx) claims t) os @
         [Ran name] @ ds @ [Invoked name (principal_or_system cx) out ot]"
      "\<forall>d \<in> set ds. \<exists>q outcome. d = Decided q outcome \<and> qu_phase q = PhDiscovered \<and> qu_tool q = name \<and>
         qu_principal q = principal_or_system cx"
      "\<forall>x. r = Inr x \<longrightarrow> lo_observe (t_ledger reg) (scope_of cx)
         (min_with (sp_output_trust (tl_spec tool)) (to_trust x)) (ts_ledger st) = (Inr (), ts_ledger st')"
      "ts_ledger st' = ts_ledger st \<or>
         (\<exists>ot. ts_ledger st' = snd (lo_observe (t_ledger reg) (scope_of cx) ot (ts_ledger st)))"
proof -
  let ?who = "principal_or_system cx"
  show thesis
  proof (cases "map_of (t_tools reg) name")
    case None
    with assms show ?thesis by (intro refused [of _ "[]"]) (auto simp: invoke_def Let_def)
  next
    case (Some tool)
    note tool = Some
    show ?thesis
    proof (cases "lo_trust_of (t_ledger reg) (scope_of cx) (ts_ledger st)")
      case (Inl e)
      with assms tool show ?thesis by (intro refused [of _ "[]"]) (auto simp: invoke_def Let_def)
    next
      case (Inr t)
      note t = Inr
      show ?thesis
      proof (cases "tl_planned tool arguments")
        case (Inl e)
        with assms tool t show ?thesis by (intro refused [of _ "[]"]) (auto simp: invoke_def Let_def)
      next
        case (Inr claims)
        note claims = Inr
        obtain ra st1 where au: "authorize reg cx (tl_spec tool) ?who claims t st = (ra, st1)" by fastforce
        from authorize_steps [OF au] obtain os where
          os: "ts_trace st1 = ts_trace st @ map2 Decided (preflight cx (tl_spec tool) ?who claims t) os"
            "ts_ledger st1 = ts_ledger st"
            "ra = Inr () \<longleftrightarrow> length os = length (preflight cx (tl_spec tool) ?who claims t) \<and> list_all granting os"
          by blast
        show ?thesis
        proof (cases ra)
          case (Inl e)
          with assms tool t claims au os map2_decisions show ?thesis
            by (intro refused [of e "map2 Decided (preflight cx (tl_spec tool) ?who claims t) os"])
               (auto simp: invoke_def Let_def)
        next
          case (Inr u)
          define cx' where "cx' = with_attribute (child cx) trust_attribute (JString (trust_str t))"
          obtain res st2 where run: "run_tool reg cx' name ?who t (sp_reach (tl_spec tool))
              (tl_invoke tool (ts_env st1) arguments cx') (record_event (Ran name) st1) = (res, st2)"
            by fastforce
          from run_tool_steps [OF run] obtain ds where
            ds: "ts_trace st2 = ts_trace st1 @ [Ran name] @ ds" "ts_ledger st2 = ts_ledger st"
              "\<forall>d \<in> set ds. \<exists>q outcome. d = Decided q outcome \<and> qu_phase q = PhDiscovered \<and>
                 qu_tool q = name \<and> qu_principal q = ?who"
            by (auto simp: os(2))
          have fin: "settle se reg name ?who (tl_spec tool) (scope_of cx) res st2 = (r, st')"
            using assms tool t claims au Inr run by (simp add: invoke_def Let_def cx'_def)
          obtain out ot where "ts_trace st' = ts_trace st2 @ [Invoked name ?who out ot]"
            "\<forall>x. r = Inr x \<longrightarrow> lo_observe (t_ledger reg) (scope_of cx)
               (min_with (sp_output_trust (tl_spec tool)) (to_trust x)) (ts_ledger st2) = (Inr (), ts_ledger st')"
            "ts_ledger st' = ts_ledger st2 \<or>
               (\<exists>ot. ts_ledger st' = snd (lo_observe (t_ledger reg) (scope_of cx) ot (ts_ledger st2)))"
            using settle_steps [OF fin] by blast
          with os Inr ds show ?thesis by (intro ran [OF tool t claims, of os ds out ot]) auto
        qed
      qed
    qed
  qed
qed

section \<open>Provenance across calls\<close>

fun invoke_all ::
  "(error \<Rightarrow> string) \<Rightarrow> ('e, 'l) tool_registry \<Rightarrow> (string \<times> json \<times> execution_context) list
   \<Rightarrow> ('e, 'l) tool_state \<Rightarrow> ('e, 'l) tool_state" where
  "invoke_all se reg [] st = st"
| "invoke_all se reg (call # calls) st =
     (case call of (name, arguments, cx) \<Rightarrow>
        invoke_all se reg calls (snd (invoke se reg name arguments cx st)))"

text \<open>The registry does not let tainted content act: it denies outright, or there is nobody to
  ask.\<close>

definition contains_taint :: "('e, 'l) tool_registry \<Rightarrow> bool" where
  "contains_taint reg \<longleftrightarrow> t_enforcement reg = EnforceDeny \<or>
     (t_enforcement reg = EnforceApproval \<and> t_approvals reg = None)"

lemma authorize_tainted:
  assumes "contains_taint reg" "\<not> is_contained (sp_reach spec)"
  shows "\<exists>e st'. authorize reg cx spec who claims Untrusted st = (Inl e, st')"
proof -
  have "\<exists>e st''. enforce_trust reg cx spec who Untrusted st' = (Inl e, st'')" for st'
    using assms by (auto simp: enforce_trust_def Let_def contains_taint_def conclude_def is_untrusted_def)
  then show ?thesis
    by (auto simp: authorize_def split: prod.splits sum.splits) (metis surj_pair sum.exhaust)?
qed

lemma invoke_unauthorized:
  assumes inv: "invoke se reg name arguments cx st = (r, st')"
    and tool: "map_of (t_tools reg) name = Some tool"
    and t: "lo_trust_of (t_ledger reg) (scope_of cx) (ts_ledger st) = Inr t"
    and no: "\<And>claims. \<exists>e st1. authorize reg cx (tl_spec tool) (principal_or_system cx) claims t st = (Inl e, st1)"
  shows "\<exists>e. r = Inl e" "Ran n \<in> set (ts_trace st') \<longleftrightarrow> Ran n \<in> set (ts_trace st)"
proof -
  have "(\<exists>e. r = Inl e) \<and> (Ran n \<in> set (ts_trace st') \<longleftrightarrow> Ran n \<in> set (ts_trace st))"
  proof (cases "tl_planned tool arguments")
    case (Inl e)
    with inv tool t show ?thesis by (auto simp: invoke_def Let_def)
  next
    case (Inr claims)
    from no obtain e st1 where au:
      "authorize reg cx (tl_spec tool) (principal_or_system cx) claims t st = (Inl e, st1)" by blast
    from authorize_steps [OF this] map2_decisions have
      "Ran n \<in> set (ts_trace st1) \<longleftrightarrow> Ran n \<in> set (ts_trace st)"
      by (auto simp: is_decision_def)
    with au inv tool t Inr show ?thesis by (auto simp: invoke_def Let_def)
  qed
  then show "\<exists>e. r = Inl e" "Ran n \<in> set (ts_trace st') \<longleftrightarrow> Ran n \<in> set (ts_trace st)" by auto
qed

context trust_ledger
begin

lemma invoke_keeps_taint:
  assumes "t_ledger reg = \<lparr>lo_observe = observe, lo_trust_of = trust_of\<rparr>" "trust_of scope (ts_ledger st) = Inr Untrusted"
  shows "trust_of scope (ts_ledger (snd (invoke se reg name arguments cx st))) = Inr Untrusted"
proof -
  obtain r st' where i: "invoke se reg name arguments cx st = (r, st')" by fastforce
  then have "trust_of scope (ts_ledger st') = Inr Untrusted"
    using assms by (cases rule: invoke_cases) (auto simp: observe_keeps)
  with i show ?thesis by simp
qed

lemma invoke_all_keeps_taint:
  assumes "t_ledger reg = \<lparr>lo_observe = observe, lo_trust_of = trust_of\<rparr>" "trust_of scope (ts_ledger st) = Inr Untrusted"
  shows "trust_of scope (ts_ledger (invoke_all se reg calls st)) = Inr Untrusted"
  using assms by (induction calls arbitrary: st) (auto simp: invoke_keeps_taint)

lemma invoke_taints:
  assumes "t_ledger reg = \<lparr>lo_observe = observe, lo_trust_of = trust_of\<rparr>" "invoke se reg name arguments cx st = (Inr x, st')"
    and "map_of (t_tools reg) name = Some tool"
    and "min_with (sp_output_trust (tl_spec tool)) (to_trust x) = Untrusted"
  shows "trust_of (scope_of cx) (ts_ledger st') = Inr Untrusted"
  using assms(2) by (cases rule: invoke_cases) (use assms observe_taints in auto)

lemma trifecta:
  assumes reg: "t_ledger reg = \<lparr>lo_observe = observe, lo_trust_of = trust_of\<rparr>" "contains_taint reg"
    and read: "invoke se reg name1 args1 cx1 st = (Inr x, st1)"
      "map_of (t_tools reg) name1 = Some tool1"
      "min_with (sp_output_trust (tl_spec tool1)) (to_trust x) = Untrusted"
    and act: "invoke se reg name2 args2 cx2 (invoke_all se reg calls st1) = (r, st2)"
      "map_of (t_tools reg) name2 = Some tool2" "\<not> is_contained (sp_reach (tl_spec tool2))"
      "scope_of cx2 = scope_of cx1"
  shows "(\<exists>e. r = Inl e) \<and>
    (Ran name2 \<in> set (ts_trace st2) \<longleftrightarrow> Ran name2 \<in> set (ts_trace (invoke_all se reg calls st1)))"
proof -
  have "trust_of (scope_of cx1) (ts_ledger st1) = Inr Untrusted"
    by (rule invoke_taints [OF reg(1) read])
  then have t: "lo_trust_of (t_ledger reg) (scope_of cx2) (ts_ledger (invoke_all se reg calls st1)) = Inr Untrusted"
    using reg(1) act(4) by (simp add: invoke_all_keeps_taint)
  show ?thesis
    using invoke_unauthorized [OF act(1,2) t authorize_tainted [OF reg(2) act(3)]] by blast
qed

end

section \<open>Properties\<close>

text \<open>A registry for the witnesses: a fetcher whose pages are untrusted, a contained clock and a
  tool that sends mail, under a policy that allows everything and a registry that denies tainted
  conversations.\<close>

definition demo_spec :: "string \<Rightarrow> trust \<Rightarrow> reach \<Rightarrow> tool_spec" where
  "demo_spec name t r =
     \<lparr>sp_name = name, sp_description = [], sp_input_schema = JNull, sp_output_schema = None,
      sp_required_permissions = [name], sp_read_only = False, sp_output_trust = t, sp_reach = r\<rparr>"

definition demo_tool :: "string \<Rightarrow> trust \<Rightarrow> reach \<Rightarrow> unit tool" where
  "demo_tool name t r =
     \<lparr>tl_spec = demo_spec name t r, tl_planned = (\<lambda>args. Inr []),
      tl_invoke = (\<lambda>env args cx. Ask ''net.fetch'' ''page''
        (\<lambda>answer. Finish (Inr \<lparr>to_output = JNull, to_is_error = False, to_trust = Trusted\<rparr>)))\<rparr>"

definition demo_tools :: "(unit, in_memory_ledger) tool_registry" where
  "demo_tools =
     \<lparr>t_tools = [(''fetch'', demo_tool ''fetch'' Untrusted Contained),
                 (''mail'', demo_tool ''mail'' Trusted ReachExternal)],
      t_policy = Some (\<lambda>env rq cx. (Inr Allow, env)), t_approvals = None, t_audit = True,
      t_ledger = \<lparr>lo_observe = ledger_observe, lo_trust_of = ledger_trust_of\<rparr>,
      t_enforcement = EnforceDeny\<rparr>"

definition demo_tool_state :: "(unit, in_memory_ledger) tool_state" where
  "demo_tool_state = \<lparr>ts_env = (), ts_ledger = ledger_with_capacity 4, ts_trace = []\<rparr>"

definition demo_tool_cx :: execution_context where
  "demo_tool_cx = \<lparr>cx_correlation = ''c'', cx_principal = None, cx_deadline = None,
     cx_cancelled = False, cx_attributes = []\<rparr>"

text \<open>C3. A question is granted exactly when a policy engine is configured and allows it, or asks for
  approval and the configured sink approves. A missing engine or sink, an engine or sink that
  fails, a denial and a refusal all refuse; and the question is recorded once, with an outcome
  that says granted exactly when it was.\<close>

theorem decide_grants:
  "(fst (decide reg q st) = Inr () \<longleftrightarrow>
     (\<exists>policy env. t_policy reg = Some policy \<and>
        (policy (ts_env st) (question_request q) (qu_cx q) = (Inr Allow, env) \<or>
         (\<exists>prompt sink. policy (ts_env st) (question_request q) (qu_cx q) = (Inr (RequireApproval prompt), env) \<and>
            t_approvals reg = Some sink \<and>
            fst (sink env (question_request q) prompt (qu_cx q)) = Inr True)))) \<and>
   (\<exists>outcome. ts_trace (snd (decide reg q st)) = ts_trace st @ [Decided q outcome] \<and>
      (granting outcome \<longleftrightarrow> fst (decide reg q st) = Inr ()))"
proof
  obtain r st' where d: "decide reg q st = (r, st')" by fastforce
  then show "\<exists>outcome. ts_trace (snd (decide reg q st)) = ts_trace st @ [Decided q outcome] \<and>
      (granting outcome \<longleftrightarrow> fst (decide reg q st) = Inr ())"
    by (metis decide_step fst_conv snd_conv)
qed (auto simp: decide_def conclude_def split: option.splits prod.splits sum.splits decision.splits
    bool.splits)

text \<open>C1. No tool runs unasked: an invocation either never enters the tool, returns an error and
  leaves the provenance ledger alone, or enters it once, after each required permission, each
  planned resource and, for a tainted conversation and a tool that reaches out, the provenance
  question were asked in that order and every one was granted. While it runs, every resource it
  asks about is decided for the same tool and principal. Either way the invocation is recorded
  exactly once, as the last event.\<close>

theorem invoke_guarded:
  "(\<exists>e ds out. fst (invoke se reg name arguments cx st) = Inl e \<and>
      ts_ledger (snd (invoke se reg name arguments cx st)) = ts_ledger st \<and>
      ts_trace (snd (invoke se reg name arguments cx st)) =
        ts_trace st @ ds @ [Invoked name (principal_or_system cx) out None] \<and> list_all is_decision ds) \<or>
   (\<exists>tool t claims os ds out ot. map_of (t_tools reg) name = Some tool \<and>
      lo_trust_of (t_ledger reg) (scope_of cx) (ts_ledger st) = Inr t \<and>
      tl_planned tool arguments = Inr claims \<and>
      length os = length (preflight cx (tl_spec tool) (principal_or_system cx) claims t) \<and>
      list_all granting os \<and>
      ts_trace (snd (invoke se reg name arguments cx st)) = ts_trace st @
        map2 Decided (preflight cx (tl_spec tool) (principal_or_system cx) claims t) os @
        [Ran name] @ ds @ [Invoked name (principal_or_system cx) out ot] \<and>
      list_all (\<lambda>d. \<exists>q outcome. d = Decided q outcome \<and> qu_phase q = PhDiscovered \<and>
        qu_tool q = name \<and> qu_principal q = principal_or_system cx) ds)"
proof -
  obtain r st' where i: "invoke se reg name arguments cx st = (r, st')" by fastforce
  then show ?thesis
  proof (cases rule: invoke_cases)
    case (refused e ds out)
    with i show ?thesis by (intro disjI1 exI [of _ e] exI [of _ ds] exI [of _ out]) (simp add: list_all_iff)
  next
    case (ran tool t claims os ds out ot)
    with i show ?thesis
      by (intro disjI2 exI [of _ tool] exI [of _ t] exI [of _ claims] exI [of _ os] exI [of _ ds]
          exI [of _ out] exI [of _ ot]) (simp add: list_all_iff)
  qed
qed



end
