(* ===== verification/Aik_Resilience.thy ===== *)
theory Aik_Resilience
  imports Aik_Api
begin

text \<open>
  The resilient model provider: backoff with jitter (src/crates/resilience/src/backoff.rs), the
  circuit breaker (src/crates/resilience/src/breaker.rs), the concurrency limit
  (src/crates/resilience/src/limit.rs), the retry loop (src/crates/resilience/src/provider.rs)
  and the watching of streams (src/crates/resilience/src/stream.rs). Arithmetic is at the width
  of the code. The inner provider, the clock, the semaphore and the timer are parameters.
\<close>

unbundle bit_operations_syntax

section \<open>Settings\<close>

record retry_settings =
  rs_max_attempts :: u32
  rs_base_delay_ms :: u64
  rs_max_delay_ms :: u64
  rs_max_retry_after_ms :: u64

record breaker_settings =
  bs_failure_threshold :: u32
  bs_cooldown_ms :: u64

record resilience_settings =
  st_retry :: retry_settings
  st_breaker :: breaker_settings
  st_max_concurrent :: nat
  st_acquire_timeout_ms :: u64

definition retry_default :: retry_settings where
  "retry_default =
     \<lparr>rs_max_attempts = 3, rs_base_delay_ms = 500, rs_max_delay_ms = 8000,
      rs_max_retry_after_ms = 60000\<rparr>"

definition breaker_default :: breaker_settings where
  "breaker_default = \<lparr>bs_failure_threshold = 5, bs_cooldown_ms = 30000\<rparr>"

definition resilience_default :: resilience_settings where
  "resilience_default =
     \<lparr>st_retry = retry_default, st_breaker = breaker_default, st_max_concurrent = 4,
      st_acquire_timeout_ms = 30000\<rparr>"

definition pass_through :: resilience_settings where
  "pass_through =
     \<lparr>st_retry = \<lparr>rs_max_attempts = 1, rs_base_delay_ms = 0, rs_max_delay_ms = 0,
                  rs_max_retry_after_ms = 0\<rparr>,
      st_breaker = \<lparr>bs_failure_threshold = 0, bs_cooldown_ms = 0\<rparr>,
      st_max_concurrent = 0, st_acquire_timeout_ms = 0\<rparr>"

section \<open>Backoff\<close>

text \<open>One draw of the generator; \<open>bound + 1\<close> overflows for the largest bound, which is a panic
  (by overflow check, or by division by zero where the addition wraps).\<close>

definition next_up_to :: "u64 \<Rightarrow> u64 \<Rightarrow> (u64 \<times> u64) option" where
  "next_up_to bound state =
     (if bound = 0 then Some (0, state)
      else
        let state' = state + 0x9E3779B97F4A7C15;
            z1 = state';
            z2 = (z1 XOR drop_bit 30 z1) * 0xBF58476D1CE4E5B9;
            z3 = (z2 XOR drop_bit 27 z2) * 0x94D049BB133111EB;
            z4 = z3 XOR drop_bit 31 z3
        in if bound = - 1 then None else Some (z4 mod (bound + 1), state'))"

datatype backoff = Wait duration bool | Exhausted

definition max_attempts :: "retry_settings \<Rightarrow> u32" where
  "max_attempts s = max (rs_max_attempts s) 1"

definition after :: "retry_settings \<Rightarrow> nat \<Rightarrow> duration option \<Rightarrow> u64 \<Rightarrow> (backoff \<times> u64) option" where
  "after s attempt retry_after jitter =
     (if attempt \<ge> unat (max_attempts s) then Some (Exhausted, jitter)
      else (case retry_after of
              Some requested \<Rightarrow>
                Some (Wait (min requested (from_millis (rs_max_retry_after_ms s))) True, jitter)
            | None \<Rightarrow>
                (let exponent = min (attempt - 1) 16;
                     ceiling = min (sat_mul (rs_base_delay_ms s) (push_bit exponent 1)) (rs_max_delay_ms s)
                 in map_option (\<lambda>(ms, jitter'). (Wait (from_millis ms) False, jitter'))
                      (next_up_to ceiling jitter))))"

section \<open>The circuit breaker\<close>

datatype circuit_state = Closed | Open | HalfOpen

record breaker =
  b_circuit :: circuit_state
  b_failures :: u32
  b_opened_until :: timestamp

definition breaker_new :: breaker where
  "breaker_new = \<lparr>b_circuit = Closed, b_failures = 0, b_opened_until = 0\<rparr>"

text \<open>What the loop and the breaker publish, and each attempt with how it ended.\<close>

datatype resilience_event =
    CircuitChanged timestamp circuit_state circuit_state u32
  | RetryScheduled nat duration bool
  | Attempted nat "error option"

definition enabled :: "breaker_settings \<Rightarrow> bool" where
  "enabled s \<longleftrightarrow> bs_failure_threshold s > 0"

definition admit ::
  "string \<Rightarrow> breaker_settings \<Rightarrow> timestamp \<Rightarrow> breaker \<Rightarrow> unit result \<times> breaker \<times> resilience_event list" where
  "admit provider s now b =
     (if \<not> enabled s then (Inr (), b, [])
      else (case b_circuit b of
              Closed \<Rightarrow> (Inr (), b, [])
            | HalfOpen \<Rightarrow> (Inr (), b, [])
            | Open \<Rightarrow>
                if b_opened_until b \<le> now
                then (Inr (), b\<lparr>b_circuit := HalfOpen\<rparr>, [CircuitChanged now Open HalfOpen (b_failures b)])
                else (let remaining = ts_since (b_opened_until b) now in
                      (Inl (transient_wrapped
                              (''the circuit for provider `'' @ provider @ ''` is open for another ''
                               @ dec (as_millis remaining) @ ''ms'')
                              (Some remaining) (''calling model provider `'' @ provider @ ''`'')),
                       b, []))))"

definition record_success :: "breaker_settings \<Rightarrow> timestamp \<Rightarrow> breaker \<Rightarrow> breaker \<times> resilience_event list" where
  "record_success s now b =
     (if \<not> enabled s then (b, [])
      else (b\<lparr>b_failures := 0, b_circuit := Closed\<rparr>,
            if b_circuit b \<noteq> Closed then [CircuitChanged now (b_circuit b) Closed 0] else []))"

definition record_failure :: "breaker_settings \<Rightarrow> timestamp \<Rightarrow> breaker \<Rightarrow> breaker \<times> resilience_event list" where
  "record_failure s now b =
     (if \<not> enabled s then (b, [])
      else
        let failures = sat_add (b_failures b) 1 in
        if b_circuit b = HalfOpen \<or> failures \<ge> bs_failure_threshold s
        then (\<lparr>b_circuit = Open, b_failures = failures,
               b_opened_until = ts_add now (from_millis (bs_cooldown_ms s))\<rparr>,
              [CircuitChanged now (b_circuit b) Open failures])
        else (b\<lparr>b_failures := failures\<rparr>, []))"

section \<open>Streams\<close>

text \<open>What a poll of the inner stream gives; chunks and pending polls are passed on.\<close>

datatype poll = Pending | Chunk | Failure error | Ended

definition poll_next ::
  "breaker_settings \<Rightarrow> timestamp \<Rightarrow> poll \<Rightarrow> bool \<times> breaker \<Rightarrow> (bool \<times> breaker) \<times> resilience_event list" where
  "poll_next s now polled w =
     (case w of (settled, b) \<Rightarrow>
        (case polled of
           Failure e \<Rightarrow>
             if settled then (w, [])
             else if transient_failure e \<noteq> None
             then (case record_failure s now b of (b', evs) \<Rightarrow> ((True, b'), evs))
             else ((True, b), [])
         | Ended \<Rightarrow>
             if settled then (w, [])
             else (case record_success s now b of (b', evs) \<Rightarrow> ((True, b'), evs))
         | _ \<Rightarrow> (w, [])))"

section \<open>The concurrency limit and the retry loop\<close>

text \<open>How the biased \<^verbatim>\<open>select!\<close> of \<^verbatim>\<open>acquire\<close> ends.\<close>

datatype waited = WaitCancelled | WaitPermit | WaitClosed | WaitElapsed

record ('w, 'a) provider_world =
  pw_now :: "'w \<Rightarrow> timestamp"
  pw_try_acquire :: "'w \<Rightarrow> bool \<times> 'w"
  pw_acquire :: "duration \<Rightarrow> 'w \<Rightarrow> waited \<times> 'w"
  pw_attempt :: "'w \<Rightarrow> 'a result \<times> 'w"
  pw_sleep :: "duration \<Rightarrow> 'w \<Rightarrow> bool \<times> 'w"

definition remaining_budget :: "execution_context \<Rightarrow> timestamp \<Rightarrow> duration option" where
  "remaining_budget cx now = map_option (\<lambda>d. ts_since d now) (cx_deadline cx)"

text \<open>\<open>Inr True\<close> holds a permit, \<open>Inr False\<close> means there is no limit.\<close>

definition acquire ::
  "('w, 'a) provider_world \<Rightarrow> resilience_settings \<Rightarrow> execution_context \<Rightarrow> 'w \<Rightarrow> bool result \<times> 'w" where
  "acquire pw s cx w =
     (if st_max_concurrent s = 0 then (Inr False, w)
      else (case pw_try_acquire pw w of
              (True, w1) \<Rightarrow> (Inr True, w1)
            | (False, w1) \<Rightarrow>
                (let remaining = remaining_budget cx (pw_now pw w1);
                     timeout = from_millis (st_acquire_timeout_ms s) in
                 if remaining = Some 0 then (Inl (Timeout 0), w1)
                 else
                   let wait = (case remaining of None \<Rightarrow> timeout | Some budget \<Rightarrow> min budget timeout) in
                   (case pw_acquire pw wait w1 of
                      (WaitCancelled, w2) \<Rightarrow> (Inl Cancelled, w2)
                    | (WaitPermit, w2) \<Rightarrow> (Inr True, w2)
                    | (WaitClosed, w2) \<Rightarrow>
                        (Inl (other (''the provider'' @ [char_of (39::nat)]
                           @ ''s concurrency limit was closed'')), w2)
                    | (WaitElapsed, w2) \<Rightarrow>
                        if (case remaining of None \<Rightarrow> False | Some budget \<Rightarrow> budget \<le> wait)
                        then (Inl (Timeout wait), w2)
                        else (Inl (transient_wrapped
                               (''no slot became free within '' @ dec (as_millis wait) @ ''ms'') None
                               ''waiting for a model provider slot''), w2)))))"

definition affordable :: "execution_context \<Rightarrow> timestamp \<Rightarrow> duration \<Rightarrow> bool" where
  "affordable cx now delay =
     (case cx_deadline cx of None \<Rightarrow> True | Some deadline \<Rightarrow> delay < ts_since deadline now)"

record 'w provider_state =
  ps_world :: 'w
  ps_breaker :: breaker
  ps_jitter :: u64
  ps_log :: "resilience_event list"

lemma after_Wait: "after s n r j = Some (Wait d h, j') \<Longrightarrow> n < unat (max_attempts s)"
  by (auto simp: after_def split: if_splits)

text \<open>The loop, entered with the number of attempts made so far. \<open>None\<close> is the panic of the
  jitter.\<close>

function with_retries ::
  "('w, 'a) provider_world \<Rightarrow> string \<Rightarrow> resilience_settings \<Rightarrow> execution_context \<Rightarrow> nat
   \<Rightarrow> 'w provider_state \<Rightarrow> ('a result \<times> 'w provider_state) option" where
  "with_retries pw provider s cx made st =
     (let number = made + 1;
          (admitted, b1, ev1) = admit provider (st_breaker s) (pw_now pw (ps_world st)) (ps_breaker st);
          st1 = st\<lparr>ps_breaker := b1, ps_log := ps_log st @ ev1\<rparr>
      in case admitted of
        Inl e \<Rightarrow> Some (Inl e, st1)
      | Inr _ \<Rightarrow>
     (case acquire pw s cx (ps_world st1) of
        (Inl e, w) \<Rightarrow> Some (Inl e, st1\<lparr>ps_world := w\<rparr>)
      | (Inr _, w) \<Rightarrow>
     (case pw_attempt pw w of
        (Inr v, w1) \<Rightarrow>
          (case record_success (st_breaker s) (pw_now pw w1) b1 of
             (b2, ev2) \<Rightarrow>
               Some (Inr v, st1\<lparr>ps_world := w1, ps_breaker := b2,
                              ps_log := ps_log st1 @ [Attempted number None] @ ev2\<rparr>))
      | (Inl e, w1) \<Rightarrow>
     (case transient_failure e of
        None \<Rightarrow>
          Some (Inl e, st1\<lparr>ps_world := w1, ps_log := ps_log st1 @ [Attempted number (Some e)]\<rparr>)
      | Some failure \<Rightarrow>
     (case record_failure (st_breaker s) (pw_now pw w1) b1 of
        (b2, ev2) \<Rightarrow>
     (let st2 = st1\<lparr>ps_world := w1, ps_breaker := b2,
                    ps_log := ps_log st1 @ [Attempted number (Some e)] @ ev2\<rparr>
      in case after (st_retry s) number (tf_retry_after failure) (ps_jitter st) of
        None \<Rightarrow> None
      | Some (Exhausted, j) \<Rightarrow> Some (Inl e, st2\<lparr>ps_jitter := j\<rparr>)
      | Some (Wait delay honoured, j) \<Rightarrow>
          (if \<not> affordable cx (pw_now pw w1) delay then Some (Inl e, st2\<lparr>ps_jitter := j\<rparr>)
           else (case pw_sleep pw delay w1 of
                   (True, w2) \<Rightarrow>
                     Some (Inl Cancelled, st2\<lparr>ps_world := w2, ps_jitter := j,
                             ps_log := ps_log st2 @ [RetryScheduled number delay honoured]\<rparr>)
                 | (False, w2) \<Rightarrow>
                     with_retries pw provider s cx number
                       (st2\<lparr>ps_world := w2, ps_jitter := j,
                            ps_log := ps_log st2 @ [RetryScheduled number delay honoured]\<rparr>)))))))))"
  by pat_completeness auto

termination
  by (relation "measure (\<lambda>(pw, provider, s, cx, made, st). unat (max_attempts (st_retry s)) - made)")
     (auto dest!: after_Wait)

declare with_retries.simps [simp del]

section \<open>Facts on backoff\<close>

lemma next_up_to_bounded:
  assumes "bound \<noteq> - 1"
  shows "\<exists>v j'. next_up_to bound j = Some (v, j') \<and> v \<le> bound"
proof (cases "bound = 0")
  case True
  then show ?thesis by (simp add: next_up_to_def)
next
  case False
  have "z mod (bound + 1) \<le> bound" for z :: u64
  proof -
    have "unat (z mod (bound + 1)) < unat bound + 1"
      using assms by (simp add: unat_mod unat_plus_one)
    then show ?thesis by (simp add: word_le_nat_alt)
  qed
  with False assms show ?thesis by (simp add: next_up_to_def Let_def)
qed

lemma from_millis_mono: "a \<le> b \<Longrightarrow> from_millis a \<le> from_millis b"
  by (simp add: from_millis_def word_le_nat_alt)

lemma min_not_max: "(b::u64) \<noteq> - 1 \<Longrightarrow> min a b \<noteq> - 1"
  by (simp add: min_def word_order.extremum_unique) (metis word_order.extremum_uniqueI)

lemma after_total:
  assumes "rs_max_delay_ms s \<noteq> - 1"
  obtains b j' where "after s n r j = Some (b, j')"
    "b = Exhausted \<longleftrightarrow> unat (max_attempts s) \<le> n"
    "\<And>d h. b = Wait d h \<Longrightarrow> (h \<longleftrightarrow> r \<noteq> None) \<and>
       (\<forall>requested. r = Some requested \<longrightarrow> d = min requested (from_millis (rs_max_retry_after_ms s))) \<and>
       (r = None \<longrightarrow> d \<le> from_millis (rs_max_delay_ms s) \<and>
          d \<le> unat (rs_base_delay_ms s) * 2 ^ min (n - 1) 16 * 1000000)"
proof -
  define ceiling where
    "ceiling = min (sat_mul (rs_base_delay_ms s) (push_bit (min (n - 1) 16) 1)) (rs_max_delay_ms s)"
  have "ceiling \<noteq> - 1" unfolding ceiling_def using assms by (rule min_not_max)
  then obtain v j' where v: "next_up_to ceiling j = Some (v, j')" "v \<le> ceiling"
    using next_up_to_bounded by blast
  have pow: "unat (push_bit (min (n - 1) 16) 1 :: u64) = 2 ^ min (n - 1) 16"
  proof -
    have "unat (2 ^ k :: u64) = 2 ^ k" if "k < 64" for k :: nat
    proof -
      have "(2 ^ k :: u64) = word_of_nat (2 ^ k)" by simp
      then have "unat (2 ^ k :: u64) = take_bit 64 (2 ^ k)" by (simp only: unsigned_of_nat) simp
      moreover have "(2::nat) ^ k < 2 ^ 64" using that by (intro power_strict_increasing) simp_all
      ultimately show ?thesis by (simp only: take_bit_eq_mod mod_less)
    qed
    then show ?thesis by (simp add: push_bit_eq_mult)
  qed
  have d: "from_millis v \<le> from_millis (rs_max_delay_ms s)"
    "from_millis v \<le> unat (rs_base_delay_ms s) * 2 ^ min (n - 1) 16 * 1000000"
  proof -
    have "v \<le> rs_max_delay_ms s" using v(2) by (simp add: ceiling_def)
    then show "from_millis v \<le> from_millis (rs_max_delay_ms s)" by (rule from_millis_mono)
    have "v \<le> sat_mul (rs_base_delay_ms s) (push_bit (min (n - 1) 16) 1)"
      using v(2) by (simp add: ceiling_def)
    then have "unat v \<le> unat (sat_mul (rs_base_delay_ms s) (push_bit (min (n - 1) 16) 1))"
      by (simp add: word_le_nat_alt)
    also have "\<dots> \<le> unat (rs_base_delay_ms s) * 2 ^ min (n - 1) 16"
      unfolding unat_sat pow by (rule min.cobounded1)
    finally show "from_millis v \<le> unat (rs_base_delay_ms s) * 2 ^ min (n - 1) 16 * 1000000"
      by (simp add: from_millis_def)
  qed
  show thesis
  proof (cases "unat (max_attempts s) \<le> n")
    case True
    then show ?thesis by (intro that [of Exhausted j]) (simp_all add: after_def)
  next
    case False
    show ?thesis
    proof (cases r)
      case (Some requested)
      with False show ?thesis
        by (intro that [of "Wait (min requested (from_millis (rs_max_retry_after_ms s))) True" j])
           (auto simp: after_def)
    next
      case None
      with False v(1) have "after s n r j = Some (Wait (from_millis v) False, j')"
        by (simp add: after_def Let_def ceiling_def)
      with False None d show ?thesis by (intro that [of "Wait (from_millis v) False" j']) auto
    qed
  qed
qed

section \<open>Facts on the breaker\<close>

text \<open>A history of outcomes told to the breaker, each with the time it was told at.\<close>

fun record_all :: "breaker_settings \<Rightarrow> (bool \<times> timestamp) list \<Rightarrow> breaker \<Rightarrow> breaker" where
  "record_all s [] b = b"
| "record_all s (h # hs) b =
     record_all s hs
       (fst (if fst h then record_success s (snd h) b else record_failure s (snd h) b))"

definition trailing_failures :: "(bool \<times> timestamp) list \<Rightarrow> nat" where
  "trailing_failures hs = length (takeWhile (\<lambda>h. \<not> fst h) (rev hs))"

lemma record_all_snoc:
  "record_all s (hs @ [h]) b =
     fst (if fst h then record_success s (snd h) (record_all s hs b)
          else record_failure s (snd h) (record_all s hs b))"
  by (induction hs arbitrary: b) auto

lemma trailing_snoc:
  "trailing_failures (hs @ [h]) = (if fst h then 0 else Suc (trailing_failures hs))"
  by (simp add: trailing_failures_def)

lemma record_all_state:
  assumes "enabled s"
  shows "unat (b_failures (record_all s hs breaker_new)) = min (trailing_failures hs) (2 ^ 32 - 1) \<and>
    b_circuit (record_all s hs breaker_new) =
      (if unat (bs_failure_threshold s) \<le> trailing_failures hs then Open else Closed) \<and>
    (unat (bs_failure_threshold s) \<le> trailing_failures hs \<longrightarrow>
       b_opened_until (record_all s hs breaker_new) =
         ts_add (snd (last hs)) (from_millis (bs_cooldown_ms s)))"
proof (induction hs rule: rev_induct)
  case Nil
  have "0 < unat (bs_failure_threshold s)"
    using assms by (simp add: enabled_def word_less_nat_alt)
  then show ?case by (simp add: breaker_new_def trailing_failures_def)
next
  case (snoc h hs)
  let ?b = "record_all s hs breaker_new"
  have pos: "0 < unat (bs_failure_threshold s)"
    using assms by (simp add: enabled_def word_less_nat_alt)
  have le: "unat (bs_failure_threshold s) \<le> 2 ^ 32 - 1" using unat_le_max [of "bs_failure_threshold s"] by simp
  show ?case
  proof (cases "fst h")
    case True
    with assms pos show ?thesis
      by (simp add: record_all_snoc trailing_snoc record_success_def)
  next
    case False
    have f: "unat (sat_add (b_failures ?b) 1) = min (Suc (trailing_failures hs)) (2 ^ 32 - 1)"
      using snoc by (simp add: unat_sat)
    then have ge: "bs_failure_threshold s \<le> sat_add (b_failures ?b) 1 \<longleftrightarrow>
        unat (bs_failure_threshold s) \<le> Suc (trailing_failures hs)"
      using le by (auto simp: word_le_nat_alt)
    have nh: "b_circuit ?b \<noteq> HalfOpen" using snoc by simp
    have "unat (bs_failure_threshold s) \<le> trailing_failures hs \<Longrightarrow>
        unat (bs_failure_threshold s) \<le> Suc (trailing_failures hs)" by simp
    with False assms f ge nh snoc show ?thesis
      by (auto simp: record_all_snoc trailing_snoc record_failure_def Let_def)
  qed
qed

section \<open>Facts on the loop\<close>

fun attempts :: "resilience_event list \<Rightarrow> (nat \<times> error option) list" where
  "attempts [] = []"
| "attempts (e # es) = (case e of Attempted n r \<Rightarrow> (n, r) # attempts es | _ \<Rightarrow> attempts es)"

lemma attempts_append [simp]: "attempts (xs @ ys) = attempts xs @ attempts ys"
  by (induction xs) (auto split: resilience_event.splits)

lemma breaker_events_no_attempts:
  "admit p bs now b = (r, b', evs) \<Longrightarrow> attempts evs = []"
  "record_success bs now b = (b', evs) \<Longrightarrow> attempts evs = []"
  "record_failure bs now b = (b', evs) \<Longrightarrow> attempts evs = []"
  by (auto simp: admit_def record_success_def record_failure_def Let_def split: if_splits
      circuit_state.splits)

text \<open>How one pass through the loop ends.\<close>

lemma with_retries_cases:
  fixes st :: "'w provider_state"
  obtains (panic) "with_retries pw p s cx made st = None"
      "rs_max_delay_ms (st_retry s) = - 1"
  | (turned_away) e st' where "with_retries pw p s cx made st = Some (Inl e, st')"
      "attempts (ps_log st') = attempts (ps_log st)"
  | (succeeded) v st' where "with_retries pw p s cx made st = Some (Inr v, st')"
      "attempts (ps_log st') = attempts (ps_log st) @ [(Suc made, None)]"
  | (gave_up) e e' st' where "with_retries pw p s cx made st = Some (Inl e', st')"
      "attempts (ps_log st') = attempts (ps_log st) @ [(Suc made, Some e)]"
      "e' = e \<or> e' = Cancelled \<and> transient_failure e \<noteq> None"
  | (again) e st' where "with_retries pw p s cx made st = with_retries pw p s cx (Suc made) st'"
      "attempts (ps_log st') = attempts (ps_log st) @ [(Suc made, Some e)]"
      "transient_failure e \<noteq> None" "Suc made < unat (max_attempts (st_retry s))"
proof -
  note unfold = with_retries.simps [of pw p s cx made st]
  obtain adm b1 ev1 where a: "admit p (st_breaker s) (pw_now pw (ps_world st)) (ps_breaker st) = (adm, b1, ev1)"
    by (metis prod_cases3)
  note ev1 = breaker_events_no_attempts(1) [OF a]
  show thesis
  proof (cases adm)
    case (Inl e)
    with a have "with_retries pw p s cx made st =
        Some (Inl e, st\<lparr>ps_breaker := b1, ps_log := ps_log st @ ev1\<rparr>)"
      by (simp add: unfold Let_def)
    then show ?thesis by (rule turned_away) (simp add: ev1)
  next
    case (Inr u)
    obtain aq w where q: "acquire pw s cx (ps_world st) = (aq, w)" by fastforce
    show ?thesis
    proof (cases aq)
      case (Inl e)
      with a q \<open>adm = Inr u\<close> have "with_retries pw p s cx made st =
          Some (Inl e, st\<lparr>ps_breaker := b1, ps_log := ps_log st @ ev1, ps_world := w\<rparr>)"
        by (simp add: unfold Let_def)
      then show ?thesis by (rule turned_away) (simp add: ev1)
    next
      case (Inr held)
      obtain r w1 where t: "pw_attempt pw w = (r, w1)" by fastforce
      note base = a q \<open>adm = Inr u\<close> Inr t ev1
      show ?thesis
      proof (cases r)
        case (Inr v)
        obtain b2 ev2 where b2: "record_success (st_breaker s) (pw_now pw w1) b1 = (b2, ev2)" by fastforce
        with base Inr have "with_retries pw p s cx made st =
            Some (Inr v, st\<lparr>ps_world := w1, ps_breaker := b2,
              ps_log := ps_log st @ ev1 @ [Attempted (Suc made) None] @ ev2\<rparr>)"
          by (simp add: unfold Let_def)
        then show ?thesis
          by (rule succeeded) (simp add: ev1 breaker_events_no_attempts(2) [OF b2])
      next
        case (Inl e)
        note r = Inl
        obtain b2 ev2 where b2: "record_failure (st_breaker s) (pw_now pw w1) b1 = (b2, ev2)" by fastforce
        note ev2 = breaker_events_no_attempts(3) [OF b2]
        show ?thesis
        proof (cases "transient_failure e")
          case None
          with base r have "with_retries pw p s cx made st =
              Some (Inl e, st\<lparr>ps_breaker := b1, ps_world := w1,
                ps_log := ps_log st @ ev1 @ [Attempted (Suc made) (Some e)]\<rparr>)"
            by (simp add: unfold Let_def)
          then show ?thesis by (rule gave_up [where e = e]) (simp_all add: ev1)
        next
          case (Some f)
          note tf = Some
          let ?quit = "\<lambda>j. st\<lparr>ps_world := w1, ps_breaker := b2, ps_jitter := j,
            ps_log := ps_log st @ ev1 @ [Attempted (Suc made) (Some e)] @ ev2\<rparr>"
          show ?thesis
          proof (cases "after (st_retry s) (Suc made) (tf_retry_after f) (ps_jitter st)")
            case None
            then have "rs_max_delay_ms (st_retry s) = - 1"
              using after_total [of "st_retry s"] by (metis option.distinct(1))
            with None base r b2 tf show ?thesis by (intro panic) (auto simp: unfold Let_def)
          next
            case (Some bj)
            obtain bo j where bj: "bj = (bo, j)" by (cases bj)
            show ?thesis
            proof (cases bo)
              case Exhausted
              with Some bj base r b2 tf have "with_retries pw p s cx made st = Some (Inl e, ?quit j)"
                by (simp add: unfold Let_def)
              then show ?thesis by (rule gave_up [where e = e]) (simp_all add: ev1 ev2)
            next
              case (Wait d h)
              with Some bj have lt: "Suc made < unat (max_attempts (st_retry s))"
                by (auto dest: after_Wait)
              show ?thesis
              proof (cases "affordable cx (pw_now pw w1) d")
                case False
                with Some bj Wait base r b2 tf have "with_retries pw p s cx made st = Some (Inl e, ?quit j)"
                  by (simp add: unfold Let_def)
                then show ?thesis by (rule gave_up [where e = e]) (simp_all add: ev1 ev2)
              next
                case True
                obtain c w2 where sl: "pw_sleep pw d w1 = (c, w2)" by fastforce
                define st' where "st' = st\<lparr>ps_breaker := b2, ps_world := w2, ps_jitter := j,
                  ps_log := ps_log st @ ev1 @ [Attempted (Suc made) (Some e)] @ ev2 @ [RetryScheduled (Suc made) d h]\<rparr>"
                have log: "attempts (ps_log st') = attempts (ps_log st) @ [(Suc made, Some e)]"
                  using ev1 ev2 by (simp add: st'_def)
                note all = Some bj Wait base r b2 tf True sl
                show ?thesis
                proof (cases c)
                  case True
                  with all have "with_retries pw p s cx made st = Some (Inl Cancelled, st')"
                    by (simp add: unfold Let_def st'_def)
                  then show ?thesis by (rule gave_up [where e = e]) (simp_all add: log tf exI)
                next
                  case False
                  with all have "with_retries pw p s cx made st = with_retries pw p s cx (Suc made) st'"
                    by (subst unfold) (simp add: Let_def st'_def)
                  then show ?thesis by (rule again [where e = e]) (simp_all add: log tf lt)
                qed
              qed
            qed
          qed
        qed
      qed
    qed
  qed
qed

text \<open>The attempts of a whole run: transient failures, and at most one last attempt that ended
  it.\<close>

lemma with_retries_attempts:
  assumes "with_retries pw p s cx made st = Some (r, st')" "made < unat (max_attempts (st_retry s))"
  shows "\<exists>errs tail. map snd (attempts (ps_log st')) = map snd (attempts (ps_log st)) @ map Some errs @ tail \<and>
    length errs + length tail \<le> unat (max_attempts (st_retry s)) - made \<and>
    (\<forall>e \<in> set errs. transient_failure e \<noteq> None) \<and>
    (case r of
       Inr v \<Rightarrow> tail = [None]
     | Inl e \<Rightarrow> tail = [] \<or> (tail = [Some e] \<and> transient_failure e = None))"
  using assms
proof (induction "unat (max_attempts (st_retry s)) - made" arbitrary: made st rule: less_induct)
  case less
  show ?case
  proof (cases rule: with_retries_cases
      [where pw = pw and p = p and s = s and cx = cx and made = made and st = st])
    case panic
    with less.prems show ?thesis by simp
  next
    case (turned_away e st1)
    with less.prems show ?thesis by (intro exI [of _ "[]"]) auto
  next
    case (succeeded v st1)
    with less.prems show ?thesis by (intro exI [of _ "[]"] exI [of _ "[None]"]) auto
  next
    case (gave_up e e' st1)
    show ?thesis
    proof (cases "transient_failure e")
      case None
      with gave_up less.prems show ?thesis by (intro exI [of _ "[]"] exI [of _ "[Some e]"]) auto
    next
      case (Some f)
      with gave_up less.prems show ?thesis by (intro exI [of _ "[e]"] exI [of _ "[]"]) auto
    qed
  next
    case (again e st1)
    with less.prems have run: "with_retries pw p s cx (Suc made) st1 = Some (r, st')" by simp
    have "unat (max_attempts (st_retry s)) - Suc made < unat (max_attempts (st_retry s)) - made"
      using again(4) by simp
    from less.hyps [OF this run again(4)] obtain errs tail where
      "map snd (attempts (ps_log st')) = map snd (attempts (ps_log st1)) @ map Some errs @ tail"
      "length errs + length tail \<le> unat (max_attempts (st_retry s)) - Suc made"
      "\<forall>e \<in> set errs. transient_failure e \<noteq> None"
      "case r of Inr v \<Rightarrow> tail = [None] | Inl e \<Rightarrow> tail = [] \<or> (tail = [Some e] \<and> transient_failure e = None)"
      by blast
    with again show ?thesis by (intro exI [of _ "e # errs"] exI [of _ tail]) auto
  qed
qed

lemma with_retries_total:
  assumes "rs_max_delay_ms (st_retry s) \<noteq> - 1"
  shows "\<exists>r st'. with_retries pw p s cx made st = Some (r, st')"
proof (induction "unat (max_attempts (st_retry s)) - made" arbitrary: made st rule: less_induct)
  case less
  show ?case
  proof (cases rule: with_retries_cases
      [where pw = pw and p = p and s = s and cx = cx and made = made and st = st])
    case (again e st1)
    then have "unat (max_attempts (st_retry s)) - Suc made < unat (max_attempts (st_retry s)) - made" by simp
    from less [OF this] again(1) show ?thesis by simp
  qed (use assms in auto)
qed

lemma max_attempts_pos: "0 < unat (max_attempts s)"
proof -
  have "1 \<le> max_attempts s" by (simp add: max_attempts_def)
  then show ?thesis by (simp add: word_le_nat_alt)
qed

section \<open>Properties\<close>

text \<open>Backoff is bounded at every width: attempts are exhausted exactly from the configured
  maximum on (at least one); a wait the provider asked for is honoured up to its cap, and any
  other wait is within the exponential ceiling and the configured maximum, without overflow, as
  long as the maximum delay is below the largest 64-bit number; with that maximum and a base
  delay to match, the jitter panics on the first retry.\<close>

theorem backoff_bounded:
  assumes "rs_max_delay_ms s \<noteq> - 1"
  shows "(\<exists>b jitter'. after s attempt retry_after jitter = Some (b, jitter') \<and>
    (b = Exhausted \<longleftrightarrow> max 1 (unat (rs_max_attempts s)) \<le> attempt) \<and>
    (\<forall>delay honoured. b = Wait delay honoured \<longrightarrow> (honoured \<longleftrightarrow> retry_after \<noteq> None) \<and>
       (\<forall>requested. retry_after = Some requested \<longrightarrow>
          delay = min requested (from_millis (rs_max_retry_after_ms s))) \<and>
       (retry_after = None \<longrightarrow> delay \<le> from_millis (rs_max_delay_ms s) \<and>
          delay \<le> unat (rs_base_delay_ms s) * 2 ^ min (attempt - 1) 16 * 1000000))) \<and>
    after \<lparr>rs_max_attempts = 3, rs_base_delay_ms = - 1, rs_max_delay_ms = - 1,
            rs_max_retry_after_ms = 0\<rparr> 1 None jitter = None"
proof -
  have overflow: "after \<lparr>rs_max_attempts = 3, rs_base_delay_ms = - 1, rs_max_delay_ms = - 1,
            rs_max_retry_after_ms = 0\<rparr> 1 None jitter = None"
    by (simp add: after_def max_attempts_def next_up_to_def sat_mul_def Let_def word_le_nat_alt)
  have m: "unat (max_attempts s) = max 1 (unat (rs_max_attempts s))"
    by (auto simp: max_attempts_def max_def word_le_nat_alt)
  show ?thesis
    unfolding m [symmetric]
  proof (intro conjI overflow)
    show "\<exists>b jitter'. after s attempt retry_after jitter = Some (b, jitter') \<and>
      (b = Exhausted \<longleftrightarrow> unat (max_attempts s) \<le> attempt) \<and>
      (\<forall>delay honoured. b = Wait delay honoured \<longrightarrow> (honoured \<longleftrightarrow> retry_after \<noteq> None) \<and>
         (\<forall>requested. retry_after = Some requested \<longrightarrow>
            delay = min requested (from_millis (rs_max_retry_after_ms s))) \<and>
         (retry_after = None \<longrightarrow> delay \<le> from_millis (rs_max_delay_ms s) \<and>
            delay \<le> unat (rs_base_delay_ms s) * 2 ^ min (attempt - 1) 16 * 1000000))"
      by (rule after_total [OF assms, of attempt retry_after jitter]) blast
  qed
qed

theorem backoff_bounded_witness:
  "\<exists>delay jitter'. after retry_default 2 None 7 = Some (Wait delay False, jitter') \<and>
     delay \<le> 500 * 2 * 1000000"
proof -
  obtain b j where b: "after retry_default 2 None 7 = Some (b, j)" "b \<noteq> Exhausted"
    "\<forall>delay honoured. b = Wait delay honoured \<longrightarrow> \<not> honoured \<and> delay \<le> 500 * 2 * 1000000"
    using backoff_bounded [of retry_default 2 None 7] by (auto simp: retry_default_def)
  then show ?thesis by (cases b) auto
qed



text \<open>A call is retried only where that can help and always ends: unless the maximum delay is
  the largest 64-bit number the loop returns; it makes at most the configured number of attempts;
  every attempt but possibly the last failed transiently; it succeeds exactly when its last
  attempt did; and an error that is not transient ends it at once and is returned unchanged.\<close>

theorem retries_bounded:
  "(rs_max_delay_ms (st_retry s) \<noteq> - 1 \<longrightarrow> with_retries pw p s cx 0 st \<noteq> None) \<and>
   (\<forall>r st'. with_retries pw p s cx 0 st = Some (r, st') \<longrightarrow>
      (\<exists>errs tail. map snd (attempts (ps_log st')) = map snd (attempts (ps_log st)) @ map Some errs @ tail \<and>
         length errs + length tail \<le> max 1 (unat (rs_max_attempts (st_retry s))) \<and>
         (\<forall>e \<in> set errs. transient_failure e \<noteq> None) \<and>
         (case r of
            Inr v \<Rightarrow> tail = [None]
          | Inl e \<Rightarrow> tail = [] \<or> (tail = [Some e] \<and> transient_failure e = None))))"
proof -
  have m: "unat (max_attempts (st_retry s)) = max 1 (unat (rs_max_attempts (st_retry s)))"
    by (auto simp: max_attempts_def max_def word_le_nat_alt)
  have "with_retries pw p s cx 0 st \<noteq> None" if "rs_max_delay_ms (st_retry s) \<noteq> - 1"
    using with_retries_total [OF that, of pw p cx 0 st] by auto
  moreover note with_retries_attempts [of pw p s cx 0 st, OF _ max_attempts_pos, unfolded m diff_zero]
  ultimately show ?thesis by simp
qed

text \<open>The witness's world: every attempt fails transiently.\<close>

definition demo_world :: "(unit, unit) provider_world" where
  "demo_world =
     \<lparr>pw_now = (\<lambda>w. 0), pw_try_acquire = (\<lambda>w. (True, w)), pw_acquire = (\<lambda>d w. (WaitPermit, w)),
      pw_attempt = (\<lambda>w. (Inl (transient_wrapped ''HTTP 529'' (Some 1) ''call''), w)),
      pw_sleep = (\<lambda>d w. (False, w))\<rparr>"

definition demo_call_cx :: execution_context where
  "demo_call_cx = \<lparr>cx_correlation = ''c'', cx_principal = None, cx_deadline = None,
     cx_cancelled = False, cx_attributes = []\<rparr>"

theorem retries_bounded_witness:
  "with_retries demo_world ''p'' resilience_default demo_call_cx 0
     \<lparr>ps_world = (), ps_breaker = breaker_new, ps_jitter = 0, ps_log = []\<rparr> \<noteq> None"
  using retries_bounded [of resilience_default demo_world "''p''" demo_call_cx
      "\<lparr>ps_world = (), ps_breaker = breaker_new, ps_jitter = 0, ps_log = []\<rparr>"]
  by (simp add: resilience_default_def retry_default_def)

end
