(* ===== verification/Aik_Approval.thy ===== *)
theory Aik_Approval
  imports Aik_Api
begin

text \<open>
  The approval broker and its gates (src/crates/approval/src/broker.rs and
  src/crates/approval/src/gate.rs). A request waits in a shared map for an answer that comes over
  a one-shot channel; the requester, the gates and whoever closes the broker run concurrently.
  Each operation that holds the lock is one step, a request being two: it begins, and later it
  is woken by a cancellation, its timer or its channel, whichever the biased select prefers. All
  interleavings are the runs of a step relation.
\<close>

section \<open>State\<close>

record pending_approval =
  pa_id :: string
  pa_request :: permission_request
  pa_prompt :: string
  pa_correlation :: string
  pa_requested_at :: timestamp
  pa_expires_at :: timestamp

record approval_settings =
  as_timeout :: duration
  as_max_pending :: nat

definition approval_default :: approval_settings where
  "approval_default = \<lparr>as_timeout = 120 * 1000000000, as_max_pending = 16\<rparr>"

text \<open>The one-shot channel of a request whose receiver is alive: nothing sent yet, an answer under
  way, or the sender dropped. The sender is alive and unused exactly while the request waits in
  the map.\<close>

datatype channel = Unsent | Sent bool | SenderGone

record broker =
  bk_waiting :: "(string, pending_approval) hash_map"
  bk_channels :: "(string, channel) hash_map"
  bk_gates :: nat
  bk_closed :: bool
  bk_settings :: approval_settings

definition broker_new :: "approval_settings \<Rightarrow> broker" where
  "broker_new settings =
     \<lparr>bk_waiting = [], bk_channels = [], bk_gates = 0, bk_closed = False, bk_settings = settings\<rparr>"

section \<open>Operations\<close>

definition attach_gate :: "broker \<Rightarrow> broker" where
  "attach_gate b = b\<lparr>bk_gates := bk_gates b + 1\<rparr>"

definition drop_gate :: "broker \<Rightarrow> broker" where
  "drop_gate b = b\<lparr>bk_gates := bk_gates b - 1\<rparr>"

text \<open>Removing a waiter drops its sender unless it is used first.\<close>

definition withdraw :: "string \<Rightarrow> broker \<Rightarrow> broker" where
  "withdraw i b = b\<lparr>bk_waiting := AList.delete i (bk_waiting b)\<rparr>"

definition close :: "broker \<Rightarrow> broker" where
  "close b =
     b\<lparr>bk_closed := True, bk_waiting := [],
       bk_channels := map (\<lambda>(i, c). (i, if map_of (bk_waiting b) i \<noteq> None then SenderGone else c))
         (bk_channels b)\<rparr>"

definition expiry :: "broker \<Rightarrow> timestamp \<Rightarrow> execution_context \<Rightarrow> timestamp" where
  "expiry b now cx =
     (let configured = ts_add now (as_timeout (bk_settings b)) in
      case cx_deadline cx of
        Some deadline \<Rightarrow> if deadline < configured then deadline else configured
      | None \<Rightarrow> configured)"

definition enqueue :: "pending_approval \<Rightarrow> broker \<Rightarrow> unit result \<times> broker" where
  "enqueue pending b =
     (if bk_closed b then (Inl Cancelled, b)
      else if as_max_pending (bk_settings b) \<le> length (bk_waiting b)
      then (Inl (PermissionDenied (dec (length (bk_waiting b))
              @ '' approval requests are already awaiting an answer'')), b)
      else (Inr (), b\<lparr>bk_waiting := AList.update (pa_id pending) pending (bk_waiting b),
                      bk_channels := AList.update (pa_id pending) Unsent (bk_channels b)\<rparr>))"

text \<open>\<^verbatim>\<open>request_approval\<close> up to the point where it waits: \<open>Inr\<close> is how long it will wait.
  \<open>i\<close> is the identifier it draws.\<close>

definition request_begin ::
  "string \<Rightarrow> permission_request \<Rightarrow> string \<Rightarrow> execution_context \<Rightarrow> timestamp \<Rightarrow> broker
   \<Rightarrow> duration result \<times> broker" where
  "request_begin i request prompt cx now b =
     (if bk_closed b then (Inl Cancelled, b)
      else if cx_cancelled cx then (Inl Cancelled, b)
      else if bk_gates b = 0
      then (Inl (PermissionDenied ''no approval responder is attached, so nobody can answer''), b)
      else
        let expires_at = expiry b now cx; remaining = ts_since expires_at now in
        if remaining = 0 then (Inl (Timeout 0), b)
        else (case enqueue
                \<lparr>pa_id = i, pa_request = request, pa_prompt = prompt,
                 pa_correlation = cx_correlation cx, pa_requested_at = now,
                 pa_expires_at = expires_at\<rparr> b of
                (Inl e, b') \<Rightarrow> (Inl e, b')
              | (Inr _, b') \<Rightarrow> (Inr remaining, b')))"

text \<open>What wakes a waiting request, and what it then returns; leaving drops the withdrawal guard.
  The channel wakes it only once something was sent or the sender is gone.\<close>

datatype wake = ByCancellation | ByTimer duration | ByChannel

definition wake_result :: "wake \<Rightarrow> channel \<Rightarrow> bool result option" where
  "wake_result wk c =
     (case wk of
        ByCancellation \<Rightarrow> Some (Inl Cancelled)
      | ByTimer remaining \<Rightarrow> Some (Inl (Timeout remaining))
      | ByChannel \<Rightarrow>
          (case c of
             Unsent \<Rightarrow> None
           | Sent granted \<Rightarrow> Some (Inr granted)
           | SenderGone \<Rightarrow>
               Some (Inl (PermissionDenied ''the approval mechanism closed before an answer arrived''))))"

definition leave :: "string \<Rightarrow> broker \<Rightarrow> broker" where
  "leave i b = withdraw i (b\<lparr>bk_channels := AList.delete i (bk_channels b)\<rparr>)"

text \<open>A gate's answer: the waiter is taken out of the map and its channel used, which fails when
  the requester is gone.\<close>

definition answer :: "string \<Rightarrow> bool \<Rightarrow> broker \<Rightarrow> unit result \<times> broker" where
  "answer i granted b =
     (if map_of (bk_waiting b) i = None then (Inl (NotFound ''pending approval'' i), b)
      else if map_of (bk_channels b) i = None
      then (Inl (NotFound ''pending approval'' i), withdraw i b)
      else (Inr (), withdraw i (b\<lparr>bk_channels := AList.update i (Sent granted) (bk_channels b)\<rparr>)))"

definition approve :: "string \<Rightarrow> broker \<Rightarrow> unit result \<times> broker" where
  "approve i b = answer i True b"

definition deny :: "string \<Rightarrow> broker \<Rightarrow> unit result \<times> broker" where
  "deny i b = answer i False b"

definition pending_list :: "broker \<Rightarrow> pending_approval list" where
  "pending_list b =
     sort_key (\<lambda>p. (pa_requested_at p, pa_id p)) (map snd (bk_waiting b))"

section \<open>Runs\<close>

text \<open>What happened: a request began or was refused at once, a gate answered, a request ended.\<close>

datatype approval_event =
    Began string
  | RefusedAtOnce error
  | Answered string bool "unit result"
  | Ended string "bool result"
  | BrokerClosed
  | GatesChanged

inductive broker_step :: "broker \<Rightarrow> approval_event \<Rightarrow> broker \<Rightarrow> bool" where
  step_begin:
    "map_of (bk_channels b) i = None \<Longrightarrow> map_of (bk_waiting b) i = None \<Longrightarrow>
     request_begin i rq prompt cx now b = (Inr remaining, b') \<Longrightarrow> broker_step b (Began i) b'"
| step_refuse:
    "request_begin i rq prompt cx now b = (Inl e, b') \<Longrightarrow> broker_step b (RefusedAtOnce e) b'"
| step_answer: "answer i g b = (r, b') \<Longrightarrow> broker_step b (Answered i g r) b'"
| step_end:
    "map_of (bk_channels b) i = Some c \<Longrightarrow> wake_result wk c = Some r \<Longrightarrow>
     broker_step b (Ended i r) (leave i b)"
| step_close: "broker_step b BrokerClosed (close b)"
| step_attach: "broker_step b GatesChanged (attach_gate b)"
| step_drop: "0 < bk_gates b \<Longrightarrow> broker_step b GatesChanged (drop_gate b)"

inductive broker_run :: "approval_settings \<Rightarrow> approval_event list \<Rightarrow> broker \<Rightarrow> bool" for s where
  run_start: "broker_run s [] (broker_new s)"
| run_step:
    "broker_run s evs b \<Longrightarrow> broker_step b ev b' \<Longrightarrow> (\<forall>i. ev = Began i \<longrightarrow> Began i \<notin> set evs) \<Longrightarrow>
     broker_run s (evs @ [ev]) b'"

text \<open>Identifiers are random UUIDs; a run assumes that none is drawn twice.\<close>

inductive_cases broker_stepE: "broker_step b ev b'"

section \<open>Invariant\<close>

declare map_of_eq_Some_iff [simp del]

text \<open>A request waits in the map exactly while its channel is unused; the bound holds; a closed
  broker has nobody waiting.\<close>

definition broker_inv :: "broker \<Rightarrow> bool" where
  "broker_inv b \<longleftrightarrow> hm_inv (bk_waiting b) \<and> hm_inv (bk_channels b) \<and>
     (\<forall>i. map_of (bk_waiting b) i \<noteq> None \<longleftrightarrow> map_of (bk_channels b) i = Some Unsent) \<and>
     length (bk_waiting b) \<le> as_max_pending (bk_settings b) \<and>
     (bk_closed b \<longrightarrow> bk_waiting b = [])"

lemma broker_inv_new [simp]: "broker_inv (broker_new s)"
  by (simp add: broker_inv_def broker_new_def)

lemma length_update_new: "map_of m k = None \<Longrightarrow> length (AList.update k v m) = Suc (length m)"
  by (induction m) auto

lemma length_delete_le: "length (AList.delete k m) \<le> length m"
  by (simp add: AList.delete_eq)

lemma request_begin_ok:
  assumes "request_begin i rq prompt cx now b = (Inr remaining, b')"
  shows "\<not> bk_closed b" "\<not> cx_cancelled cx" "0 < bk_gates b" "remaining = ts_since (expiry b now cx) now"
    "0 < remaining" "length (bk_waiting b) < as_max_pending (bk_settings b)"
    "b' = b\<lparr>bk_waiting := AList.update i
              \<lparr>pa_id = i, pa_request = rq, pa_prompt = prompt, pa_correlation = cx_correlation cx,
               pa_requested_at = now, pa_expires_at = expiry b now cx\<rparr> (bk_waiting b),
            bk_channels := AList.update i Unsent (bk_channels b)\<rparr>"
  using assms
  by (auto simp: request_begin_def enqueue_def Let_def split: if_splits prod.splits sum.splits)

lemma request_begin_refused:
  "request_begin i rq prompt cx now b = (Inl e, b') \<Longrightarrow> b' = b"
  by (auto simp: request_begin_def enqueue_def Let_def split: if_splits prod.splits sum.splits)

lemma map_of_map_snd: "map_of (map (\<lambda>(k, v). (k, f k v)) m) k = map_option (f k) (map_of m k)"
  by (induction m) auto

lemma close_channels:
  "map_of (bk_channels (close b)) i =
     map_option (\<lambda>c. if map_of (bk_waiting b) i \<noteq> None then SenderGone else c) (map_of (bk_channels b) i)"
  by (simp add: close_def map_of_map_snd)

lemma broker_inv_step:
  assumes "broker_step b ev b'" "broker_inv b"
  shows "broker_inv b' \<and> bk_settings b' = bk_settings b"
  using assms
proof (cases rule: broker_step.cases)
  case (step_begin i rq prompt cx now remaining)
  note ok = request_begin_ok [OF step_begin(4)]
  with step_begin(2,3) assms(2) show ?thesis
    by (auto simp: broker_inv_def distinct_update update_conv' length_update_new)
next
  case (step_refuse i rq prompt cx now e)
  with assms(2) show ?thesis by (auto dest: request_begin_refused)
next
  case (step_answer i g r)
  with assms(2) length_delete_le [of i "bk_waiting b"] show ?thesis
    by (auto simp: broker_inv_def answer_def withdraw_def distinct_update distinct_delete update_conv'
        delete_conv' split: if_splits)
next
  case (step_end i c wk r)
  with assms(2) length_delete_le [of i "bk_waiting b"] show ?thesis
    by (auto simp: broker_inv_def leave_def withdraw_def distinct_delete delete_conv' split: if_splits)
next
  case step_close
  have "map_of (bk_channels (close b)) i \<noteq> Some Unsent" for i
    using assms(2) by (auto simp: close_channels broker_inv_def)
  moreover have "map fst (bk_channels (close b)) = map fst (bk_channels b)"
    by (auto simp: close_def)
  then have "hm_inv (bk_channels (close b))" using assms(2) by (simp only: broker_inv_def)
  moreover have "bk_waiting (close b) = []" "bk_settings (close b) = bk_settings b"
    by (simp_all add: close_def)
  ultimately show ?thesis using step_close by (simp add: broker_inv_def)
qed (auto simp: broker_inv_def attach_gate_def drop_gate_def)

lemma broker_run_inv: "broker_run s evs b \<Longrightarrow> broker_inv b \<and> bk_settings b = s"
proof (induction rule: broker_run.induct)
  case run_start
  then show ?case by simp (simp add: broker_new_def)
next
  case (run_step evs b ev b')
  with broker_inv_step show ?case by metis
qed

text \<open>What the events so far say about the channels.\<close>

definition history_inv :: "approval_event list \<Rightarrow> broker \<Rightarrow> bool" where
  "history_inv evs b \<longleftrightarrow>
     (\<forall>i c. map_of (bk_channels b) i = Some c \<longrightarrow> Began i \<in> set evs) \<and>
     (\<forall>i g. map_of (bk_channels b) i = Some (Sent g) \<longrightarrow> Answered i g (Inr ()) \<in> set evs) \<and>
     (\<forall>i g. Answered i g (Inr ()) \<in> set evs \<longrightarrow> Began i \<in> set evs \<and>
        (map_of (bk_channels b) i = Some (Sent g) \<or> map_of (bk_channels b) i = None)) \<and>
     (\<forall>i. \<not> (Answered i True (Inr ()) \<in> set evs \<and> Answered i False (Inr ()) \<in> set evs))"

lemma history_inv_step:
  assumes "broker_step b ev b'" "broker_inv b" "history_inv evs b" "\<forall>i. ev = Began i \<longrightarrow> Began i \<notin> set evs"
  shows "history_inv (evs @ [ev]) b'"
  using assms(1)
proof (cases rule: broker_step.cases)
  case (step_begin i rq prompt cx now remaining)
  have ch: "map_of (bk_channels b') = (map_of (bk_channels b))(i \<mapsto> Unsent)"
    using request_begin_ok(7) [OF step_begin(4)] by (simp add: update_conv')
  have "Answered i g (Inr ()) \<notin> set evs" for g
    using assms(3,4) step_begin(1) by (auto simp: history_inv_def)
  with assms(3) show ?thesis unfolding history_inv_def ch step_begin(1) by auto
next
  case (step_refuse i rq prompt cx now e)
  then have "b' = b" by (auto dest: request_begin_refused)
  with assms(3) step_refuse(1) show ?thesis by (auto simp: history_inv_def)
next
  case (step_answer i g r)
  show ?thesis
  proof (cases r)
    case (Inl e)
    with step_answer have "bk_channels b' = bk_channels b"
      by (auto simp: answer_def withdraw_def split: if_splits)
    with assms(3) step_answer(1) Inl show ?thesis by (auto simp: history_inv_def)
  next
    case (Inr u)
    with step_answer have w: "map_of (bk_waiting b) i \<noteq> None"
      and ch: "map_of (bk_channels b') = (map_of (bk_channels b))(i \<mapsto> Sent g)"
      by (auto simp: answer_def withdraw_def update_conv' split: if_splits)
    have un: "map_of (bk_channels b) i = Some Unsent" using w assms(2) by (simp add: broker_inv_def)
    then have "Answered i h (Inr ()) \<notin> set evs" for h
      using assms(3) unfolding history_inv_def by fastforce
    with un assms(3) step_answer(1) Inr show ?thesis unfolding history_inv_def ch by auto
  qed
next
  case (step_end i c wk r)
  then have ch: "map_of (bk_channels b') = (map_of (bk_channels b))(i := None)"
    by (simp add: leave_def withdraw_def delete_conv')
  from assms(3) step_end(1) show ?thesis unfolding history_inv_def ch by auto
next
  case step_close
  have "map_of (bk_channels b') i = Some c \<longleftrightarrow>
      (map_of (bk_channels b) i = Some c \<and> c \<noteq> Unsent) \<or> (c = SenderGone \<and> map_of (bk_channels b) i = Some Unsent)" for i c
    using assms(2) step_close(2) by (auto simp: close_channels broker_inv_def)
  moreover have "map_of (bk_channels b') i = None \<longleftrightarrow> map_of (bk_channels b) i = None" for i
    using step_close(2) by (simp add: close_channels)
  ultimately show ?thesis using assms(3) step_close(1) by (simp add: history_inv_def)
qed (use assms(3) in \<open>auto simp: history_inv_def attach_gate_def drop_gate_def\<close>)

lemma history_run: "broker_run s evs b \<Longrightarrow> history_inv evs b"
proof (induction rule: broker_run.induct)
  case run_start
  then show ?case by (simp add: history_inv_def broker_new_def)
next
  case (run_step evs b ev b')
  with history_inv_step broker_run_inv show ?case by blast
qed

lemma broker_run_split:
  assumes "broker_run s evs b" "evs = xs @ ev # ys"
  shows "\<exists>b0 b1. broker_run s xs b0 \<and> broker_step b0 ev b1"
  using assms
proof (induction arbitrary: ys rule: broker_run.induct)
  case (run_step evs b e b')
  show ?case
  proof (cases ys rule: rev_cases)
    case Nil
    with run_step show ?thesis by auto
  next
    case (snoc zs z)
    with run_step.prems have "evs = xs @ ev # zs" by simp
    with run_step.IH show ?thesis by blast
  qed
qed simp

section \<open>Properties\<close>


text \<open>The broker stays within its bounds in every interleaving: never more requests wait than
  the settings allow; a request waits exactly as long as nobody answered, withdrew or closed;
  after closing nobody waits and every new request is cancelled at once; and an answer to a
  request that does not wait is refused and changes nothing.\<close>

theorem broker_bounded:
  assumes "broker_run s evs b"
  shows "length (pending_list b) \<le> as_max_pending s \<and>
    (map_of (bk_waiting b) i \<noteq> None \<longleftrightarrow> map_of (bk_channels b) i = Some Unsent) \<and>
    (bk_closed b \<longrightarrow> pending_list b = [] \<and> request_begin j rq prompt cx now b = (Inl Cancelled, b)) \<and>
    (map_of (bk_waiting b) i = None \<longrightarrow> answer i g b = (Inl (NotFound ''pending approval'' i), b))"
  using broker_run_inv [OF assms]
  by (auto simp: broker_inv_def pending_list_def request_begin_def answer_def)

text \<open>A request is put to a human only when that makes sense, and never waits past its time: it
  is refused at once when the broker is closed, the operation is cancelled, no gate is attached,
  no time is left or too many wait already; otherwise it waits, for no longer than the configured
  timeout and not past the operation's deadline, and leaving takes it out of the list.\<close>

theorem request_admission:
  "(case request_begin i rq prompt cx now b of
      (Inr remaining, b') \<Rightarrow>
        \<not> bk_closed b \<and> \<not> cx_cancelled cx \<and> 0 < bk_gates b \<and> 0 < remaining \<and>
        length (bk_waiting b) < as_max_pending (bk_settings b) \<and>
        remaining \<le> as_timeout (bk_settings b) \<and>
        (case cx_deadline cx of None \<Rightarrow> True | Some d \<Rightarrow> remaining \<le> ts_since d now) \<and>
        map_of (bk_waiting b') i \<noteq> None \<and> map_of (bk_waiting (leave i b')) i = None
    | (Inl e, b') \<Rightarrow> b' = b \<and>
        (e = Cancelled \<and> (bk_closed b \<or> cx_cancelled cx) \<or>
         kind e = KPermission \<and> (bk_gates b = 0 \<or> as_max_pending (bk_settings b) \<le> length (bk_waiting b)) \<or>
         e = Timeout 0 \<and> expiry b now cx \<le> now))"
proof -
  obtain r b' where rb: "request_begin i rq prompt cx now b = (r, b')" by fastforce
  show ?thesis
  proof (cases r)
    case (Inr remaining)
    note ok = request_begin_ok [OF rb [unfolded Inr]]
    have "expiry b now cx \<le> ts_add now (as_timeout (bk_settings b))"
      by (auto simp: expiry_def Let_def split: option.splits)
    from ts_since_mono [OF this, of now] have "remaining \<le> as_timeout (bk_settings b)"
      using ts_since_ts_add [of now "as_timeout (bk_settings b)"] ok(4) by simp
    moreover have "remaining \<le> ts_since d now" if "cx_deadline cx = Some d" for d
      unfolding ok(4) by (rule ts_since_mono) (auto simp: expiry_def Let_def that)
    ultimately show ?thesis
      using ok by (simp add: rb Inr leave_def withdraw_def update_conv' delete_conv' split: option.splits)
  next
    case (Inl e)
    then have "b' = b" using rb request_begin_refused by simp
    moreover have "e = Cancelled \<and> (bk_closed b \<or> cx_cancelled cx) \<or>
         kind e = KPermission \<and> (bk_gates b = 0 \<or> as_max_pending (bk_settings b) \<le> length (bk_waiting b)) \<or>
         e = Timeout 0 \<and> expiry b now cx \<le> now"
      using rb Inl
      by (auto simp: request_begin_def enqueue_def Let_def ts_since_zero_iff split: if_splits)
    ultimately show ?thesis by (simp add: rb Inl)
  qed
qed

section \<open>Witnesses\<close>

definition demo_ask :: permission_request where
  "demo_ask = \<lparr>rq_principal = principal_system, rq_action = ''a'', rq_resource = None, rq_context = JNull\<rparr>"

definition demo_asker :: execution_context where
  "demo_asker = \<lparr>cx_correlation = ''c'', cx_principal = None, cx_deadline = None,
     cx_cancelled = False, cx_attributes = []\<rparr>"

definition demo_settings_approval :: approval_settings where
  "demo_settings_approval = \<lparr>as_timeout = 5000000, as_max_pending = 1\<rparr>"

definition demo_waiting :: broker where
  "demo_waiting = snd (request_begin ''r'' demo_ask [] demo_asker 0
     (attach_gate (broker_new demo_settings_approval)))"

lemma demo_run:
  "broker_run demo_settings_approval
     [GatesChanged, Began ''r'', Answered ''r'' True (Inr ()), Ended ''r'' (Inr True)]
     (leave ''r'' (snd (answer ''r'' True demo_waiting)))"
proof -
  let ?s = demo_settings_approval
  let ?b1 = "attach_gate (broker_new ?s)"
  have r0: "broker_run ?s [GatesChanged] ?b1"
    using run_step [OF run_start step_attach] by simp
  have beg: "request_begin ''r'' demo_ask [] demo_asker 0 ?b1 = (Inr 5000000, demo_waiting)"
    by (simp add: demo_waiting_def request_begin_def enqueue_def attach_gate_def broker_new_def
        demo_settings_approval_def demo_asker_def expiry_def Let_def ts_add_def ts_since_def
        as_millis_def from_millis_def sat_add_def sat_sub_def)
  have free: "map_of (bk_channels ?b1) ''r'' = None" "map_of (bk_waiting ?b1) ''r'' = None"
    by (simp_all add: attach_gate_def broker_new_def)
  have r1: "broker_run ?s [GatesChanged, Began ''r''] demo_waiting"
    using run_step [OF r0 step_begin [OF free beg]] by simp
  have w: "map_of (bk_waiting demo_waiting) ''r'' \<noteq> None" "map_of (bk_channels demo_waiting) ''r'' \<noteq> None"
    by (simp_all add: request_begin_ok(7) [OF beg] update_conv')
  have an: "answer ''r'' True demo_waiting = (Inr (), snd (answer ''r'' True demo_waiting))"
    using w by (simp add: answer_def)
  have r2: "broker_run ?s [GatesChanged, Began ''r'', Answered ''r'' True (Inr ())]
      (snd (answer ''r'' True demo_waiting))"
    using run_step [OF r1 step_answer [OF an]] by simp
  have "map_of (bk_channels (snd (answer ''r'' True demo_waiting))) ''r'' = Some (Sent True)"
    using w by (auto simp: answer_def withdraw_def update_conv')
  then show ?thesis
    using run_step [OF r2 step_end [of _ _ "Sent True" ByChannel "Inr True"]]
    by (simp add: wake_result_def)
qed


theorem broker_bounded_witness:
  "length (pending_list (leave ''r'' (snd (answer ''r'' True demo_waiting)))) \<le> 1"
  using broker_bounded [OF demo_run] by (simp add: demo_settings_approval_def)

end
