(* ===== verification/Aik_Quota.thy ===== *)
theory Aik_Quota
  imports Aik_Policy
begin

text \<open>
  Usage quotas: the price and limit document (src/crates/quota/src/document.rs), the windows
  limits are counted in (src/crates/quota/src/period.rs), the usage ledger
  (src/crates/quota/src/ledger.rs) and the guard that checks and records
  (src/crates/quota/src/guard.rs). Counters are 64-bit and saturate. Calendar arithmetic is the
  date library's and a parameter.
\<close>

section \<open>Dimensions, periods and counters\<close>

datatype quota_dimension = Turns | InputTokens | OutputTokens | TotalTokens | CostMicros

fun dimension_display :: "quota_dimension \<Rightarrow> string" where
  "dimension_display Turns = ''model turns''"
| "dimension_display InputTokens = ''input tokens''"
| "dimension_display OutputTokens = ''output tokens''"
| "dimension_display TotalTokens = ''tokens''"
| "dimension_display CostMicros = ''cost (micros)''"

datatype quota_period = Hour | Day | Week | Month | Total

text \<open>The derived order of the periods.\<close>

fun period_rank :: "quota_period \<Rightarrow> nat" where
  "period_rank Hour = 0"
| "period_rank Day = 1"
| "period_rank Week = 2"
| "period_rank Month = 3"
| "period_rank Total = 4"

lemma period_rank_inj: "period_rank p = period_rank q \<longleftrightarrow> p = q"
  by (cases p; cases q) simp_all

instantiation quota_period :: linorder
begin

definition less_eq_quota_period :: "quota_period \<Rightarrow> quota_period \<Rightarrow> bool" where
  "less_eq_quota_period p q \<longleftrightarrow> period_rank p \<le> period_rank q"

definition less_quota_period :: "quota_period \<Rightarrow> quota_period \<Rightarrow> bool" where
  "less_quota_period p q \<longleftrightarrow> period_rank p < period_rank q"

instance
  by standard (auto simp: less_eq_quota_period_def less_quota_period_def period_rank_inj)

end

fun period_prefix :: "quota_period \<Rightarrow> string" where
  "period_prefix Hour = ''hour:''"
| "period_prefix Day = ''day:''"
| "period_prefix Week = ''week:''"
| "period_prefix Month = ''month:''"
| "period_prefix Total = ''total''"

fun period_display :: "quota_period \<Rightarrow> string" where
  "period_display Hour = ''hour''"
| "period_display Day = ''day''"
| "period_display Week = ''week''"
| "period_display Month = ''month''"
| "period_display Total = ''total''"

record window =
  wi_key :: string
  wi_ends :: "timestamp option"

text \<open>What the code uses of the date library: the instant of a count of milliseconds, the text of
  the window of a period with its prefix taken off, the end of the window, the milliseconds of an
  instant and its text.\<close>

record 'd calendar =
  ca_from_millis :: "int \<Rightarrow> 'd option"
  ca_label :: "quota_period \<Rightarrow> 'd \<Rightarrow> string"
  ca_end :: "quota_period \<Rightarrow> 'd \<Rightarrow> 'd option"
  ca_millis :: "'d \<Rightarrow> int"
  ca_text :: "'d \<Rightarrow> string"

definition utc :: "'d calendar \<Rightarrow> timestamp \<Rightarrow> 'd result" where
  "utc cal at =
     (case Option.bind (i64_of at) (ca_from_millis cal) of
        None \<Rightarrow> Inl (other (''the clock reported '' @ dec (unat at)
                  @ ''ms since the epoch, which is not a representable instant''))
      | Some d \<Rightarrow> Inr d)"

definition timestamp_of :: "'d calendar \<Rightarrow> 'd \<Rightarrow> timestamp" where
  "timestamp_of cal d =
     (let ms = ca_millis cal d in if 0 \<le> ms then u64_try_from (nat ms) else - 1)"

fun period_debug :: "quota_period \<Rightarrow> string" where
  "period_debug Hour = ''Hour''"
| "period_debug Day = ''Day''"
| "period_debug Week = ''Week''"
| "period_debug Month = ''Month''"
| "period_debug Total = ''Total''"

definition period_window :: "'d calendar \<Rightarrow> quota_period \<Rightarrow> timestamp \<Rightarrow> window result" where
  "period_window cal p at =
     (if p = Total then Inr \<lparr>wi_key = period_prefix Total, wi_ends = None\<rparr>
      else (case utc cal at of
              Inl e \<Rightarrow> Inl e
            | Inr now \<Rightarrow>
                (case ca_end cal p now of
                   None \<Rightarrow> Inl (other (''the end of the '' @ period_debug p @ '' window containing ''
                             @ dec (unat at) @ ''ms is not representable''))
                 | Some ends \<Rightarrow>
                     Inr \<lparr>wi_key = period_prefix p @ ca_label cal p now,
                          wi_ends = Some (timestamp_of cal ends)\<rparr>)))"

record counters =
  ct_turns :: u64
  ct_input_tokens :: u64
  ct_output_tokens :: u64
  ct_cost_micros :: u64

definition counters_zero :: counters where
  "counters_zero = \<lparr>ct_turns = 0, ct_input_tokens = 0, ct_output_tokens = 0, ct_cost_micros = 0\<rparr>"

definition counters_add :: "counters \<Rightarrow> counters \<Rightarrow> counters" where
  "counters_add a b =
     \<lparr>ct_turns = sat_add (ct_turns a) (ct_turns b),
      ct_input_tokens = sat_add (ct_input_tokens a) (ct_input_tokens b),
      ct_output_tokens = sat_add (ct_output_tokens a) (ct_output_tokens b),
      ct_cost_micros = sat_add (ct_cost_micros a) (ct_cost_micros b)\<rparr>"

fun counters_get :: "counters \<Rightarrow> quota_dimension \<Rightarrow> u64" where
  "counters_get c Turns = ct_turns c"
| "counters_get c InputTokens = ct_input_tokens c"
| "counters_get c OutputTokens = ct_output_tokens c"
| "counters_get c TotalTokens = sat_add (ct_input_tokens c) (ct_output_tokens c)"
| "counters_get c CostMicros = ct_cost_micros c"

section \<open>The usage ledger\<close>

text \<open>\<^verbatim>\<open>BTreeMap::range(a..b)\<close> panics when the bounds are crossed; that is \<open>None\<close>.\<close>

type_synonym usage_rows = "(string \<times> string, counters) btree_map"

definition bt_range_keys :: "'k::linorder \<Rightarrow> 'k \<Rightarrow> ('k, 'v) btree_map \<Rightarrow> 'k list option" where
  "bt_range_keys lo hi m =
     (if hi < lo then None else Some (filter (\<lambda>k. lo \<le> k \<and> k < hi) (map fst m)))"

definition usage_read :: "string \<Rightarrow> string \<Rightarrow> usage_rows \<Rightarrow> counters" where
  "usage_read subject window rows =
     (case map_of rows (subject, window) of None \<Rightarrow> counters_zero | Some c \<Rightarrow> c)"

definition usage_add ::
  "string \<Rightarrow> quota_period \<Rightarrow> string \<Rightarrow> counters \<Rightarrow> usage_rows \<Rightarrow> usage_rows option" where
  "usage_add subject p window delta rows =
     (let updated = counters_add (usage_read subject window rows) delta;
          rows' = bt_insert (subject, window) updated rows
      in map_option (\<lambda>closed. fold bt_remove closed rows')
           (bt_range_keys (subject, period_prefix p) (subject, window) rows'))"

text \<open>The contract the guard relies on: reading gives the sum of what was added in a window, and
  adding to one window leaves the open windows of others alone. An implementation may fail.\<close>

record 'l usage_ops =
  uo_read :: "string \<Rightarrow> string \<Rightarrow> 'l \<Rightarrow> counters result"
  uo_add :: "string \<Rightarrow> quota_period \<Rightarrow> string \<Rightarrow> counters \<Rightarrow> 'l \<Rightarrow> (unit result \<times> 'l) option"

definition memory_ops :: "usage_rows usage_ops" where
  "memory_ops =
     \<lparr>uo_read = (\<lambda>subject window rows. Inr (usage_read subject window rows)),
      uo_add = (\<lambda>subject p window delta rows.
        map_option (Pair (Inr ())) (usage_add subject p window delta rows))\<rparr>"

section \<open>The document\<close>

record usage_charge =
  uc_model :: string
  uc_turns :: u64
  uc_input_tokens :: u64
  uc_output_tokens :: u64
  uc_estimated :: bool

record model_price =
  mp_input_micros_per_million :: u64
  mp_output_micros_per_million :: u64

text \<open>The products and the sum are 128-bit, the sum saturating.\<close>

definition cost_micros :: "model_price \<Rightarrow> usage_charge \<Rightarrow> u64" where
  "cost_micros price charge =
     (let cost = min (unat (uc_input_tokens charge) * unat (mp_input_micros_per_million price)
                      + unat (uc_output_tokens charge) * unat (mp_output_micros_per_million price))
                     (2 ^ 128 - 1)
      in u64_try_from (cost div 1000000))"

record quota_rule =
  qr_subject :: pattern
  qr_period :: quota_period
  qr_max_turns :: "u64 option"
  qr_max_input_tokens :: "u64 option"
  qr_max_output_tokens :: "u64 option"
  qr_max_total_tokens :: "u64 option"
  qr_max_cost_micros :: "u64 option"
  qr_description :: "string option"

definition ceilings :: "quota_rule \<Rightarrow> (quota_dimension \<times> u64) list" where
  "ceilings r =
     List.map_filter (\<lambda>(d, limit). map_option (Pair d) limit)
       [(Turns, qr_max_turns r), (InputTokens, qr_max_input_tokens r),
        (OutputTokens, qr_max_output_tokens r), (TotalTokens, qr_max_total_tokens r),
        (CostMicros, qr_max_cost_micros r)]"

fun key_for :: "quota_dimension \<Rightarrow> string" where
  "key_for Turns = ''max_turns''"
| "key_for InputTokens = ''max_input_tokens''"
| "key_for OutputTokens = ''max_output_tokens''"
| "key_for TotalTokens = ''max_total_tokens''"
| "key_for CostMicros = ''max_cost_micros''"

definition quota_rule_validate :: "quota_rule \<Rightarrow> unit result" where
  "quota_rule_validate r =
     (if is_vacuous (qr_subject r)
      then Inl (Config ''subject'' ''an empty subject matches nothing; use `*` for every principal'')
      else if ceilings r = []
      then Inl (Config [] (''this rule sets no ceiling; give it at least one of max_turns, ''
             @ ''max_input_tokens, max_output_tokens, max_total_tokens or max_cost_micros''))
      else (case find (\<lambda>c. snd c = 0) (ceilings r) of
              Some (d, _) \<Rightarrow>
                Inl (Config (key_for d) (''a ceiling of zero '' @ dimension_display d
                  @ '' would refuse every request from this subject; ''
                  @ ''deny the action in the policy document instead''))
            | None \<Rightarrow>
                if (case qr_description r of None \<Rightarrow> False | Some text \<Rightarrow> trim text = [])
                then Inl (Config ''description'' ''a blank description says nothing'')
                else Inr ()))"

record quota_document =
  qd_limits :: "quota_rule list"
  qd_prices :: "(string, model_price) btree_map"

fun join_path :: "string \<Rightarrow> string \<Rightarrow> string" where
  "join_path left right =
     (if left = [] then right else if right = [] then left else left @ ''.'' @ right)"

fun quota_prefix :: "error \<Rightarrow> string \<Rightarrow> error" where
  "quota_prefix (Config inner message) path = Config (join_path path inner) message"
| "quota_prefix e path = e"

fun validate_limits :: "string \<Rightarrow> nat \<Rightarrow> quota_rule list \<Rightarrow> unit result" where
  "validate_limits section index [] = Inr ()"
| "validate_limits section index (r # rs) =
     (case quota_rule_validate r of
        Inl e \<Rightarrow> Inl (quota_prefix e (join_path section (''limits['' @ dec index @ '']'')))
      | Inr _ \<Rightarrow> validate_limits section (Suc index) rs)"

definition validate_at :: "quota_document \<Rightarrow> string \<Rightarrow> unit result" where
  "validate_at doc section =
     (case validate_limits section 0 (qd_limits doc) of
        Inl e \<Rightarrow> Inl e
      | Inr _ \<Rightarrow>
          if list_ex (\<lambda>model. is_vacuous (pattern_parse model)) (map fst (qd_prices doc))
          then Inl (Config (join_path section ''prices'')
                 ''a price keyed by the empty string matches no model; use `*` for every model'')
          else Inr ())"

text \<open>\<^verbatim>\<open>max_by_key\<close> returns the last of the largest.\<close>

fun max_by_key :: "('a \<Rightarrow> nat) \<Rightarrow> 'a list \<Rightarrow> 'a option" where
  "max_by_key f [] = None"
| "max_by_key f (x # xs) =
     (case max_by_key f xs of
        None \<Rightarrow> Some x
      | Some y \<Rightarrow> if f x > f y then Some x else Some y)"

definition price :: "quota_document \<Rightarrow> string \<Rightarrow> model_price option" where
  "price doc model =
     (case map_of (qd_prices doc) model of
        Some p \<Rightarrow> Some p
      | None \<Rightarrow>
          map_option snd (max_by_key fst
            (List.map_filter (\<lambda>(key, p).
               (case pattern_parse key of
                  Any \<Rightarrow> Some (0, p)
                | Prefix prefix \<Rightarrow> if starts_with model prefix then Some (length prefix + 1, p) else None
                | Exact _ \<Rightarrow> None)) (qd_prices doc))))"

section \<open>The guard\<close>

definition subjects :: "principal \<Rightarrow> string list" where
  "subjects p =
     p_id p # (case p_on_behalf_of p of
                 None \<Rightarrow> []
               | Some owner \<Rightarrow> if owner \<noteq> p_id p then [owner] else [])"

definition rules_for :: "quota_document \<Rightarrow> string \<Rightarrow> quota_rule list" where
  "rules_for doc subject = filter (\<lambda>r. pattern_matches (qr_subject r) subject) (qd_limits doc)"

definition periods_for :: "quota_document \<Rightarrow> string \<Rightarrow> quota_period list" where
  "periods_for doc subject = remdups_adj (sort (map qr_period (rules_for doc subject)))"

text \<open>The rows a check has read; a row is read from the ledger once.\<close>

type_synonym rows_cache = "(string \<times> string, counters) hash_map"

definition rows_get ::
  "'l usage_ops \<Rightarrow> 'l \<Rightarrow> string \<Rightarrow> string \<Rightarrow> rows_cache \<Rightarrow> (counters \<times> rows_cache) result" where
  "rows_get ops l subject window seen =
     (case map_of seen (subject, window) of
        Some c \<Rightarrow> Inr (c, seen)
      | None \<Rightarrow>
          (case uo_read ops subject window l of
             Inl e \<Rightarrow> Inl e
           | Inr c \<Rightarrow> Inr (c, AList.update (subject, window) c seen)))"

definition format_instant :: "'d calendar \<Rightarrow> timestamp \<Rightarrow> string" where
  "format_instant cal at =
     (case Option.bind (i64_of at) (ca_from_millis cal) of
        None \<Rightarrow> dec (unat at) @ ''ms since the epoch''
      | Some d \<Rightarrow> ca_text cal d)"

definition exhausted ::
  "'d calendar \<Rightarrow> string \<Rightarrow> quota_rule \<Rightarrow> window \<Rightarrow> quota_dimension \<Rightarrow> u64 \<Rightarrow> u64 \<Rightarrow> string" where
  "exhausted cal subject r w d used limit =
     ''`'' @ subject @ ''` has used '' @ dec (unat used) @ '' of '' @ dec (unat limit) @ '' ''
     @ dimension_display d @ '' for this '' @ period_display (qr_period r)
     @ (case qr_description r of None \<Rightarrow> [] | Some text \<Rightarrow> '' ('' @ text @ '')'')
     @ (case wi_ends w of
          Some ends \<Rightarrow> ''; the '' @ period_display (qr_period r) @ '' window `'' @ wi_key w
            @ ''` resets at '' @ format_instant cal ends
        | None \<Rightarrow> ''; this ceiling is cumulative and does not reset'')"

definition price_missing :: "quota_document \<Rightarrow> quota_rule \<Rightarrow> string \<Rightarrow> bool" where
  "price_missing doc r model \<longleftrightarrow> qr_max_cost_micros r \<noteq> None \<and> price doc model = None"

text \<open>The body of the nested loops over subjects and their rules.\<close>

fun check_rules ::
  "'d calendar \<Rightarrow> quota_document \<Rightarrow> 'l usage_ops \<Rightarrow> 'l \<Rightarrow> string \<Rightarrow> timestamp
   \<Rightarrow> (string \<times> quota_rule) list \<Rightarrow> rows_cache \<Rightarrow> unit result" where
  "check_rules cal doc ops l model now [] seen = Inr ()"
| "check_rules cal doc ops l model now ((subject, r) # rest) seen =
     (if price_missing doc r model
      then Inl (PermissionDenied (''`'' @ subject @ ''` has a cost ceiling but `'' @ model
             @ ''` has no price, so what a turn would cost is unknown; add it under `prices` ''
             @ ''(a model that is genuinely free is priced at zero)''))
      else (case period_window cal (qr_period r) now of
              Inl e \<Rightarrow> Inl e
            | Inr w \<Rightarrow>
           (case rows_get ops l subject (wi_key w) seen of
              Inl e \<Rightarrow> Inl e
            | Inr (c, seen') \<Rightarrow>
           (case find (\<lambda>(d, limit). limit \<le> counters_get c d) (ceilings r) of
              Some (d, limit) \<Rightarrow>
                Inl (PermissionDenied (exhausted cal subject r w d (counters_get c d) limit))
            | None \<Rightarrow> check_rules cal doc ops l model now rest seen'))))"

definition rule_pairs :: "quota_document \<Rightarrow> principal \<Rightarrow> (string \<times> quota_rule) list" where
  "rule_pairs doc p = concat (map (\<lambda>subject. map (Pair subject) (rules_for doc subject)) (subjects p))"

definition quota_check ::
  "'d calendar \<Rightarrow> quota_document \<Rightarrow> 'l usage_ops \<Rightarrow> string \<Rightarrow> execution_context \<Rightarrow> timestamp \<Rightarrow> 'l
   \<Rightarrow> unit result" where
  "quota_check cal doc ops model cx now l =
     (if qd_limits doc = [] then Inr ()
      else check_rules cal doc ops l model now (rule_pairs doc (principal_or_system cx)) [])"

definition charge_delta :: "quota_document \<Rightarrow> usage_charge \<Rightarrow> counters" where
  "charge_delta doc charge =
     \<lparr>ct_turns = uc_turns charge, ct_input_tokens = uc_input_tokens charge,
      ct_output_tokens = uc_output_tokens charge,
      ct_cost_micros =
        (case price doc (uc_model charge) of None \<Rightarrow> 0 | Some p \<Rightarrow> cost_micros p charge)\<rparr>"

fun record_rows ::
  "'d calendar \<Rightarrow> 'l usage_ops \<Rightarrow> timestamp \<Rightarrow> counters \<Rightarrow> (string \<times> quota_period) list \<Rightarrow> 'l
   \<Rightarrow> (unit result \<times> 'l) option" where
  "record_rows cal ops now delta [] l = Some (Inr (), l)"
| "record_rows cal ops now delta ((subject, p) # rest) l =
     (case period_window cal p now of
        Inl e \<Rightarrow> Some (Inl e, l)
      | Inr w \<Rightarrow>
          (case uo_add ops subject p (wi_key w) delta l of
             None \<Rightarrow> None
           | Some (Inl e, l') \<Rightarrow> Some (Inl e, l')
           | Some (Inr _, l') \<Rightarrow> record_rows cal ops now delta rest l'))"

definition charged_pairs :: "quota_document \<Rightarrow> principal \<Rightarrow> (string \<times> quota_period) list" where
  "charged_pairs doc p =
     concat (map (\<lambda>subject. map (Pair subject) (periods_for doc subject)) (subjects p))"

definition quota_record ::
  "'d calendar \<Rightarrow> quota_document \<Rightarrow> 'l usage_ops \<Rightarrow> usage_charge \<Rightarrow> execution_context \<Rightarrow> timestamp
   \<Rightarrow> 'l \<Rightarrow> (unit result \<times> 'l) option" where
  "quota_record cal doc ops charge cx now l =
     (if qd_limits doc = [] then Some (Inr (), l)
      else record_rows cal ops now (charge_delta doc charge)
             (charged_pairs doc (principal_or_system cx)) l)"

record quota_status =
  qs_subject :: string
  qs_window :: string
  qs_dimension :: quota_dimension
  qs_used :: u64
  qs_limit :: u64
  qs_resets_at :: "timestamp option"

fun status_rules ::
  "'d calendar \<Rightarrow> 'l usage_ops \<Rightarrow> 'l \<Rightarrow> timestamp \<Rightarrow> (string \<times> quota_rule) list \<Rightarrow> rows_cache
   \<Rightarrow> quota_status list \<Rightarrow> quota_status list result" where
  "status_rules cal ops l now [] seen acc = Inr acc"
| "status_rules cal ops l now ((subject, r) # rest) seen acc =
     (case period_window cal (qr_period r) now of
        Inl e \<Rightarrow> Inl e
      | Inr w \<Rightarrow>
     (case rows_get ops l subject (wi_key w) seen of
        Inl e \<Rightarrow> Inl e
      | Inr (c, seen') \<Rightarrow>
          status_rules cal ops l now rest seen'
            (acc @ map (\<lambda>(d, limit).
               \<lparr>qs_subject = subject, qs_window = wi_key w, qs_dimension = d,
                qs_used = counters_get c d, qs_limit = limit, qs_resets_at = wi_ends w\<rparr>) (ceilings r))))"

definition quota_status_list ::
  "'d calendar \<Rightarrow> quota_document \<Rightarrow> 'l usage_ops \<Rightarrow> execution_context \<Rightarrow> timestamp \<Rightarrow> 'l
   \<Rightarrow> quota_status list result" where
  "quota_status_list cal doc ops cx now l =
     (if qd_limits doc = [] then Inr []
      else status_rules cal ops l now (rule_pairs doc (principal_or_system cx)) [] [])"

section \<open>Facts\<close>

lemma cost_exact:
  "unat (cost_micros p c) =
     min ((unat (uc_input_tokens c) * unat (mp_input_micros_per_million p)
           + unat (uc_output_tokens c) * unat (mp_output_micros_per_million p)) div 1000000) (2 ^ 64 - 1)"
proof -
  define t where "t = unat (uc_input_tokens c) * unat (mp_input_micros_per_million p)
           + unat (uc_output_tokens c) * unat (mp_output_micros_per_million p)"
  have "min (min t (2 ^ 128 - 1) div 1000000) (2 ^ 64 - 1) = min (t div 1000000) (2 ^ 64 - 1)"
  proof (cases "t \<le> 2 ^ 128 - 1")
    case False
    then have "(2 ^ 128 - 1) div 1000000 \<le> t div 1000000" by (intro div_le_mono) simp
    with False show ?thesis by simp
  qed simp
  then show ?thesis by (simp add: cost_micros_def unat_sat t_def)
qed

text \<open>Saturating sums are commutative and monotone, dimension by dimension.\<close>

lemma counters_get_add:
  "d \<noteq> TotalTokens \<Longrightarrow> counters_get (counters_add a b) d = sat_add (counters_get a d) (counters_get b d)"
  by (cases d) (simp_all add: counters_add_def)

lemma counters_get_add_ge: "counters_get a d \<le> counters_get (counters_add a b) d"
proof (cases "d = TotalTokens")
  case True
  then show ?thesis by (auto simp: counters_add_def word_le_nat_alt unat_sat)
qed (simp add: counters_get_add sat_add_ge)

lemma counters_add_zero [simp]: "counters_add counters_zero b = b"
  by (simp add: counters_add_def counters_zero_def)

text \<open>Window names of one period share its prefix, and no name of another period sorts among
  them.\<close>

definition is_window :: "quota_period \<Rightarrow> string \<Rightarrow> bool" where
  "is_window p w \<longleftrightarrow> starts_with w (period_prefix p)"

lemma prefix_le: "(p::string) \<le> p @ r"
  by (induction p) simp_all

lemma between_prefix: "(p::string) \<le> w \<Longrightarrow> w < p @ x \<Longrightarrow> \<exists>r. w = p @ r"
proof (induction p arbitrary: w)
  case (Cons a p)
  then obtain b w' where w: "w = b # w'" by (cases w) auto
  with Cons.prems have "a = b" "p \<le> w'" "w' < p @ x" by auto
  with Cons.IH w show ?case by auto
qed simp

lemma is_window_unique: "is_window p w \<Longrightarrow> is_window q w \<Longrightarrow> p = q"
  by (cases p; cases q) (auto simp: is_window_def starts_with_iff)

lemma period_window_is_window: "period_window cal p at = Inr w \<Longrightarrow> is_window p (wi_key w)"
  by (auto simp: period_window_def is_window_def starts_with_iff split: if_splits sum.splits option.splits)

lemma fold_bt_remove:
  "bt_inv m \<Longrightarrow> bt_inv (fold bt_remove ks m) \<and>
   map_of (fold bt_remove ks m) = (\<lambda>k. if k \<in> set ks then None else map_of m k)"
  by (induction ks arbitrary: m) (auto simp: bt_remove_inv bt_remove_get fun_eq_iff)

lemma usage_add_spec:
  assumes inv: "bt_inv rows" and w: "is_window p w"
  obtains rows' where "usage_add s p w d rows = Some rows'" "bt_inv rows'"
    "usage_read s w rows' = counters_add (usage_read s w rows) d"
    "\<And>s' q w'. is_window q w' \<Longrightarrow> (s', q) \<noteq> (s, p) \<Longrightarrow> usage_read s' w' rows' = usage_read s' w' rows"
proof -
  define c where "c = counters_add (usage_read s w rows) d"
  define new where "new = bt_insert (s, w) c rows"
  define closed where "closed = filter (\<lambda>k. (s, period_prefix p) \<le> k \<and> k < (s, w)) (map fst new)"
  define final where "final = fold bt_remove closed new"
  obtain r where r: "w = period_prefix p @ r" using w by (auto simp: is_window_def starts_with_iff)
  have "\<not> (s, w) < (s, period_prefix p)" using prefix_le [of "period_prefix p" r] by (simp add: r)
  then have eq: "usage_add s p w d rows = Some final"
    by (simp add: usage_add_def Let_def bt_range_keys_def final_def closed_def new_def c_def)
  have "bt_inv new" unfolding new_def using inv by (rule bt_insert_inv)
  from fold_bt_remove [OF this, of closed]
  have f: "bt_inv final" "map_of final = (\<lambda>k. if k \<in> set closed then None else map_of new k)"
    by (simp_all add: final_def)
  have get: "map_of new = (map_of rows)((s, w) \<mapsto> c)" unfolding new_def using inv by (rule bt_insert_get)
  have other_window: "usage_read s' w' final = usage_read s' w' rows"
    if q: "is_window q w'" "(s', q) \<noteq> (s, p)" for s' q w'
  proof -
    have "(s', w') \<notin> set closed"
    proof
      assume "(s', w') \<in> set closed"
      then have "s' = s" "period_prefix p \<le> w'" "w' < w" by (auto simp: closed_def)
      with between_prefix [of "period_prefix p" w' r] have "is_window p w'"
        by (auto simp: r is_window_def starts_with_iff)
      with q \<open>s' = s\<close> show False by (auto dest: is_window_unique)
    qed
    moreover have "(s', w') \<noteq> (s, w)" using q w by (auto dest: is_window_unique)
    ultimately show ?thesis by (auto simp: usage_read_def f get)
  qed
  have "(s, w) \<notin> set closed" by (simp add: closed_def)
  then have "usage_read s w final = c" by (simp add: usage_read_def f get)
  then have "usage_read s w final = counters_add (usage_read s w rows) d" by (simp only: c_def)
  then show thesis using other_window by (rule that [OF eq f(1)])
qed

text \<open>What the guard relies on in a ledger: adding to the open window of a subject and period adds
  to what is read there, and touches the windows of no other subject or period.\<close>

locale usage_ledger =
  fixes read :: "string \<Rightarrow> string \<Rightarrow> 'l \<Rightarrow> counters result"
    and add :: "string \<Rightarrow> quota_period \<Rightarrow> string \<Rightarrow> counters \<Rightarrow> 'l \<Rightarrow> (unit result \<times> 'l) option"
    and inv :: "'l \<Rightarrow> bool"
  assumes add_inv: "inv l \<Longrightarrow> is_window p w \<Longrightarrow> add s p w d l = Some (r, l') \<Longrightarrow> inv l'"
    and add_read: "inv l \<Longrightarrow> is_window p w \<Longrightarrow> add s p w d l = Some (Inr (), l') \<Longrightarrow>
      read s w l = Inr c \<Longrightarrow> read s w l' = Inr (counters_add c d)"
    and add_other: "inv l \<Longrightarrow> is_window p w \<Longrightarrow> add s p w d l = Some (r, l') \<Longrightarrow>
      is_window q w' \<Longrightarrow> (s', q) \<noteq> (s, p) \<Longrightarrow> read s' w' l' = read s' w' l"
begin

lemma record_rows_once:
  assumes "record_rows cal \<lparr>uo_read = read, uo_add = add\<rparr> now d pairs l = Some (Inr (), l')"
    and "distinct pairs" and "inv l"
  shows "inv l' \<and>
    (\<forall>s p w c. (s, p) \<in> set pairs \<longrightarrow> period_window cal p now = Inr w \<longrightarrow> read s (wi_key w) l = Inr c \<longrightarrow>
       read s (wi_key w) l' = Inr (counters_add c d)) \<and>
    (\<forall>s q w. (s, q) \<notin> set pairs \<longrightarrow> is_window q w \<longrightarrow> read s w l' = read s w l)"
  using assms
proof (induction pairs arbitrary: l)
  case (Cons sp pairs)
  obtain s p where sp: "sp = (s, p)" by (cases sp)
  from Cons.prems(1) obtain w l1 where w: "period_window cal p now = Inr w"
    and a: "add s p (wi_key w) d l = Some (Inr (), l1)"
    and rest: "record_rows cal \<lparr>uo_read = read, uo_add = add\<rparr> now d pairs l1 = Some (Inr (), l')"
    by (auto simp: sp split: sum.splits option.splits prod.splits)
  have isw: "is_window p (wi_key w)" using w by (rule period_window_is_window)
  have inv1: "inv l1" using Cons.prems(3) isw a by (rule add_inv)
  note IH = Cons.IH [OF rest _ inv1]
  have dst: "distinct pairs" "(s, p) \<notin> set pairs" using Cons.prems(2) sp by auto
  have "read s' (wi_key w') l' = Inr (counters_add c d)"
    if "(s', p') \<in> set (sp # pairs)" "period_window cal p' now = Inr w'" "read s' (wi_key w') l = Inr c"
    for s' p' w' c
  proof (cases "(s', p') = (s, p)")
    case True
    with that w have "w' = w" by simp
    with True that(3) have "read s (wi_key w) l1 = Inr (counters_add c d)"
      using add_read [OF Cons.prems(3) isw a] by simp
    then show ?thesis using IH dst isw True \<open>w' = w\<close> by simp
  next
    case False
    have "is_window p' (wi_key w')" using that(2) by (rule period_window_is_window)
    then have "read s' (wi_key w') l1 = Inr c"
      using add_other [OF Cons.prems(3) isw a] False that(3) by simp
    then show ?thesis using IH dst False that(1,2) sp by auto
  qed
  moreover have "read s' w' l' = read s' w' l" if "(s', q) \<notin> set (sp # pairs)" "is_window q w'" for s' q w'
    using IH dst(1) that add_other [OF Cons.prems(3) isw a that(2)] by (auto simp: sp)
  ultimately show ?case using IH dst by blast
qed simp

end

interpretation memory: usage_ledger "uo_read memory_ops" "uo_add memory_ops" bt_inv
proof
  fix l :: usage_rows and p w s d
  assume inv: "bt_inv l" and w: "is_window p w"
  obtain l1 where l1: "usage_add s p w d l = Some l1" "bt_inv l1"
    "usage_read s w l1 = counters_add (usage_read s w l) d"
    "\<And>s' q w'. is_window q w' \<Longrightarrow> (s', q) \<noteq> (s, p) \<Longrightarrow> usage_read s' w' l1 = usage_read s' w' l"
    by (rule usage_add_spec [OF inv w, of s d]) blast
  show "bt_inv l'" if "uo_add memory_ops s p w d l = Some (r, l')" for r l'
    using that l1 by (simp add: memory_ops_def)
  show "uo_read memory_ops s w l' = Inr (counters_add c d)"
    if "uo_add memory_ops s p w d l = Some (Inr (), l')" "uo_read memory_ops s w l = Inr c" for l' c
    using that l1 by (simp add: memory_ops_def)
  show "uo_read memory_ops s' w' l' = uo_read memory_ops s' w' l"
    if "uo_add memory_ops s p w d l = Some (r, l')" "is_window q w'" "(s', q) \<noteq> (s, p)" for r l' q w' s'
    using that l1 by (simp add: memory_ops_def)
qed

lemma record_rows_total:
  assumes "bt_inv rows" and "\<forall>(s, p) \<in> set pairs. \<exists>w. period_window cal p now = Inr w"
  shows "\<exists>rows'. record_rows cal memory_ops now d pairs rows = Some (Inr (), rows')"
  using assms
proof (induction pairs arbitrary: rows)
  case (Cons sp pairs)
  obtain s p where sp: "sp = (s, p)" by (cases sp)
  with Cons.prems(2) obtain w where w: "period_window cal p now = Inr w" by auto
  obtain rows1 where r1: "usage_add s p (wi_key w) d rows = Some rows1" "bt_inv rows1"
    by (rule usage_add_spec [OF Cons.prems(1) period_window_is_window [OF w], of s d]) blast
  then show ?case using Cons.IH [OF r1(2)] Cons.prems(2) by (simp add: sp w memory_ops_def)
qed simp

lemma periods_for_set: "set (periods_for doc s) = {qr_period r |r. r \<in> set (rules_for doc s)}"
  by (auto simp: periods_for_def)

lemma distinct_remdups_adj_sorted: "sorted (xs :: 'a::linorder list) \<Longrightarrow> distinct (remdups_adj xs)"
  by (induction xs rule: remdups_adj.induct) (auto simp: order.antisym)

lemma periods_for_distinct: "distinct (periods_for doc s)"
  by (simp add: periods_for_def distinct_remdups_adj_sorted)

lemma subjects_distinct: "distinct (subjects p)"
  by (simp add: subjects_def split: option.split)

lemma distinct_pairs:
  "distinct xs \<Longrightarrow> (\<And>x. distinct (f x)) \<Longrightarrow> distinct (concat (map (\<lambda>x. map (Pair x) (f x)) xs))"
  by (induction xs) (auto simp: distinct_map inj_on_def)

lemma charged_pairs_distinct: "distinct (charged_pairs doc p)"
  unfolding charged_pairs_def by (intro distinct_pairs subjects_distinct periods_for_distinct)

lemma charged_pairs_set:
  "(s, p) \<in> set (charged_pairs doc pr) \<longleftrightarrow>
   s \<in> set (subjects pr) \<and> (\<exists>r \<in> set (qd_limits doc). pattern_matches (qr_subject r) s \<and> qr_period r = p)"
  by (auto simp: charged_pairs_def periods_for_set rules_for_def)

definition rule_admits ::
  "'d calendar \<Rightarrow> quota_document \<Rightarrow> 'l usage_ops \<Rightarrow> 'l \<Rightarrow> string \<Rightarrow> timestamp \<Rightarrow> string \<Rightarrow> quota_rule \<Rightarrow> bool"
where
  "rule_admits cal doc ops l model now s r \<longleftrightarrow>
     \<not> price_missing doc r model \<and>
     (case period_window cal (qr_period r) now of
        Inl _ \<Rightarrow> False
      | Inr w \<Rightarrow>
          (case uo_read ops s (wi_key w) l of
             Inl _ \<Rightarrow> False
           | Inr c \<Rightarrow> list_all (\<lambda>(d, limit). counters_get c d < limit) (ceilings r)))"

definition cache_ok :: "'l usage_ops \<Rightarrow> 'l \<Rightarrow> rows_cache \<Rightarrow> bool" where
  "cache_ok ops l seen \<longleftrightarrow> (\<forall>s w c. map_of seen (s, w) = Some c \<longrightarrow> uo_read ops s w l = Inr c)"

lemma rows_get_spec:
  assumes "cache_ok ops l seen"
  shows "case uo_read ops s w l of
           Inl e \<Rightarrow> rows_get ops l s w seen = Inl e
         | Inr c \<Rightarrow> \<exists>seen'. rows_get ops l s w seen = Inr (c, seen') \<and> cache_ok ops l seen'"
  using assms by (auto simp: rows_get_def cache_ok_def update_conv' split: sum.split option.split)

lemma find_none_below:
  "find (\<lambda>(d, limit). limit \<le> counters_get c d) cs = None \<longleftrightarrow>
   list_all (\<lambda>(d, limit). counters_get c d < limit) cs"
  by (auto simp: find_None_iff list_all_iff not_le)

lemma check_rules_iff:
  "cache_ok ops l seen \<Longrightarrow>
   check_rules cal doc ops l model now pairs seen = Inr () \<longleftrightarrow>
   (\<forall>(s, r) \<in> set pairs. rule_admits cal doc ops l model now s r)"
proof (induction pairs arbitrary: seen)
  case (Cons sr pairs)
  obtain s r where sr: "sr = (s, r)" by (cases sr)
  show ?case
  proof (cases "price_missing doc r model")
    case False
    show ?thesis
    proof (cases "period_window cal (qr_period r) now")
      case w: (Inr w)
      note g = rows_get_spec [OF Cons.prems, of s "wi_key w"]
      show ?thesis
      proof (cases "uo_read ops s (wi_key w) l")
        case (Inr c)
        with g obtain seen' where "rows_get ops l s (wi_key w) seen = Inr (c, seen')" "cache_ok ops l seen'"
          by auto
        with Cons.IH [of seen'] show ?thesis
          using False w Inr find_none_below [of c "ceilings r"]
          by (cases "find (\<lambda>(d, limit). limit \<le> counters_get c d) (ceilings r)")
            (auto simp: sr rule_admits_def)
      qed (use g w False in \<open>simp add: sr rule_admits_def\<close>)
    qed (use False in \<open>simp add: sr rule_admits_def\<close>)
  qed (simp add: sr rule_admits_def)
qed simp

text \<open>What a key of the price table says of a model it does not name: how specific it is.\<close>

definition wildcard_rank :: "string \<Rightarrow> string \<Rightarrow> nat option" where
  "wildcard_rank model key =
     (case pattern_parse key of
        Any \<Rightarrow> Some 0
      | Prefix prefix \<Rightarrow> if starts_with model prefix then Some (length prefix + 1) else None
      | Exact _ \<Rightarrow> None)"

lemma price_wildcards:
  "map_of (qd_prices doc) model = None \<Longrightarrow>
   price doc model = map_option snd (max_by_key fst
     (List.map_filter (\<lambda>(key, p). map_option (\<lambda>n. (n, p)) (wildcard_rank model key)) (qd_prices doc)))"
  unfolding price_def wildcard_rank_def
  by (auto intro!: arg_cong [where f = "\<lambda>f. map_option snd (max_by_key fst (List.map_filter f (qd_prices doc)))"]
      split: pattern.split)

lemma max_by_key_spec:
  "case max_by_key f xs of
     None \<Rightarrow> xs = []
   | Some y \<Rightarrow> y \<in> set xs \<and> (\<forall>x \<in> set xs. f x \<le> f y)"
  by (induction xs) (auto split: option.splits)

lemma price_most_specific:
  "case map_of (qd_prices doc) model of
      Some p \<Rightarrow> price doc model = Some p
    | None \<Rightarrow>
        (case price doc model of
           None \<Rightarrow> \<forall>(key, q) \<in> set (qd_prices doc). wildcard_rank model key = None
         | Some p \<Rightarrow> \<exists>key n. (key, p) \<in> set (qd_prices doc) \<and> wildcard_rank model key = Some n \<and>
             (\<forall>(key', q) \<in> set (qd_prices doc). \<forall>n'. wildcard_rank model key' = Some n' \<longrightarrow> n' \<le> n))"
proof (cases "map_of (qd_prices doc) model")
  case None
  define cands where "cands =
    List.map_filter (\<lambda>(key, p). map_option (\<lambda>n. (n, p)) (wildcard_rank model key)) (qd_prices doc)"
  have cands: "(n, p) \<in> set cands \<longleftrightarrow> (\<exists>key. (key, p) \<in> set (qd_prices doc) \<and> wildcard_rank model key = Some n)"
    for n p unfolding cands_def by (force simp: List.map_filter_def)
  have eq: "price doc model = map_option snd (max_by_key fst cands)"
    unfolding cands_def using None by (rule price_wildcards)
  show ?thesis
  proof (cases "max_by_key fst cands")
    case n: None
    with max_by_key_spec [where f = fst and xs = cands] have "cands = []" by simp
    then have "wildcard_rank model key = None" if "(key, q) \<in> set (qd_prices doc)" for key q
      using cands that by (cases "wildcard_rank model key") auto
    then show ?thesis using None n eq by auto
  next
    case (Some best)
    obtain n p where best: "best = (n, p)" by (cases best)
    with Some max_by_key_spec [where f = fst and xs = cands] have in_c: "(n, p) \<in> set cands"
      and mx: "\<And>n' q. (n', q) \<in> set cands \<Longrightarrow> n' \<le> n" by auto
    from in_c obtain key where "(key, p) \<in> set (qd_prices doc)" "wildcard_rank model key = Some n"
      by (auto simp: cands)
    moreover have "\<forall>(key', q) \<in> set (qd_prices doc). \<forall>n'. wildcard_rank model key' = Some n' \<longrightarrow> n' \<le> n"
      using mx by (auto simp: cands)
    ultimately show ?thesis using None Some best eq by auto
  qed
qed (simp add: price_def)

section \<open>Properties\<close>

text \<open>A model named in the price table has that price. Any other model has the price of a most
  specific wildcard entry that matches it, and no price only when no wildcard matches. The cost of a
  charge is the exact quotient of the token products, clipped at the largest 64-bit value and never
  wrapped.\<close>

theorem quota_price:
  "(case map_of (qd_prices doc) model of
      Some p \<Rightarrow> price doc model = Some p
    | None \<Rightarrow>
        (case price doc model of
           None \<Rightarrow> \<forall>(key, q) \<in> set (qd_prices doc). wildcard_rank model key = None
         | Some p \<Rightarrow> \<exists>key n. (key, p) \<in> set (qd_prices doc) \<and> wildcard_rank model key = Some n \<and>
             (\<forall>(key', q) \<in> set (qd_prices doc). \<forall>n'. wildcard_rank model key' = Some n' \<longrightarrow> n' \<le> n)))
   \<and> unat (cost_micros pr charge) =
       min ((unat (uc_input_tokens charge) * unat (mp_input_micros_per_million pr)
             + unat (uc_output_tokens charge) * unat (mp_output_micros_per_million pr)) div 1000000) (2 ^ 64 - 1)"
  using price_most_specific cost_exact by blast

definition demo_prices :: quota_document where
  "demo_prices = \<lparr>qd_limits = [],
     qd_prices = [(''*'', \<lparr>mp_input_micros_per_million = 1, mp_output_micros_per_million = 1\<rparr>),
                  (''big-*'', \<lparr>mp_input_micros_per_million = 5, mp_output_micros_per_million = 9\<rparr>)]\<rparr>"

theorem quota_price_witness:
  "price demo_prices ''big-x'' = Some \<lparr>mp_input_micros_per_million = 5, mp_output_micros_per_million = 9\<rparr>
   \<and> (\<exists>key n. (key, \<lparr>mp_input_micros_per_million = 5, mp_output_micros_per_million = 9\<rparr>) \<in> set (qd_prices demo_prices)
        \<and> wildcard_rank ''big-x'' key = Some n)"
proof -
  have p: "price demo_prices ''big-x'' = Some \<lparr>mp_input_micros_per_million = 5, mp_output_micros_per_million = 9\<rparr>"
    and n: "map_of (qd_prices demo_prices) ''big-x'' = None" by code_simp+
  show ?thesis using quota_price [where doc = demo_prices and model = "''big-x''", THEN conjunct1]
    unfolding p n option.case by auto
qed

text \<open>C20. A turn is admitted exactly when, for the caller and for the one it acts for, every limit
  whose subject pattern matches is satisfied: a limit on cost has a price for the model, the window
  and its counters can be read, and every ceiling is above what the window has used. The reading of
  each row at most once changes nothing.\<close>

theorem quota_check_sound:
  "quota_check cal doc ops model cx now l = Inr () \<longleftrightarrow>
   (\<forall>s \<in> set (subjects (principal_or_system cx)). \<forall>r \<in> set (qd_limits doc).
      pattern_matches (qr_subject r) s \<longrightarrow> rule_admits cal doc ops l model now s r)"
proof -
  have "cache_ok ops l []" by (simp add: cache_ok_def)
  then show ?thesis
    by (auto simp: quota_check_def check_rules_iff rule_pairs_def rules_for_def)
qed

text \<open>C21. With the in-memory ledger and a clock the calendar can represent, recording a charge
  succeeds and adds it, saturating, exactly once to the open window of every subject and period
  that a matching limit counts, however many limits share that window; no open window of another
  subject or period changes.\<close>

theorem quota_record_once:
  assumes "bt_inv rows" and "qd_limits doc \<noteq> []"
    and "\<forall>r \<in> set (qd_limits doc). \<exists>w. period_window cal (qr_period r) now = Inr w"
  shows "\<exists>rows'. quota_record cal doc memory_ops charge cx now rows = Some (Inr (), rows') \<and> bt_inv rows' \<and>
    (\<forall>s p w. period_window cal p now = Inr w \<longrightarrow>
       usage_read s (wi_key w) rows' =
         (if s \<in> set (subjects (principal_or_system cx)) \<and>
             (\<exists>r \<in> set (qd_limits doc). pattern_matches (qr_subject r) s \<and> qr_period r = p)
          then counters_add (usage_read s (wi_key w) rows) (charge_delta doc charge)
          else usage_read s (wi_key w) rows))"
proof -
  define pairs where "pairs = charged_pairs doc (principal_or_system cx)"
  have "\<forall>(s, p) \<in> set pairs. \<exists>w. period_window cal p now = Inr w"
    using assms(3) by (auto simp: pairs_def charged_pairs_set)
  with assms(1) obtain rows'
    where run: "record_rows cal memory_ops now (charge_delta doc charge) pairs rows = Some (Inr (), rows')"
    using record_rows_total by blast
  have ops: "\<lparr>uo_read = uo_read memory_ops, uo_add = uo_add memory_ops\<rparr> = memory_ops" by simp
  have dist: "distinct pairs" unfolding pairs_def by (rule charged_pairs_distinct)
  note once = memory.record_rows_once [unfolded ops, OF run dist assms(1)]
  have rd: "uo_read memory_ops s w r = Inr (usage_read s w r)" for s w r by (simp add: memory_ops_def)
  have "usage_read s (wi_key w) rows' =
      (if (s, p) \<in> set pairs then counters_add (usage_read s (wi_key w) rows) (charge_delta doc charge)
       else usage_read s (wi_key w) rows)" if "period_window cal p now = Inr w" for s p w
    using once that period_window_is_window [OF that] unfolding rd by auto
  then show ?thesis
    using run once assms(2) unfolding pairs_def charged_pairs_set by (auto simp: quota_record_def)
qed

definition demo_calendar :: "unit calendar" where
  "demo_calendar = \<lparr>ca_from_millis = (\<lambda>_. Some ()), ca_label = (\<lambda>_ _. ''2024''),
     ca_end = (\<lambda>_ _. Some ()), ca_millis = (\<lambda>_. 9), ca_text = (\<lambda>_. ''t'')\<rparr>"

definition demo_limit :: quota_rule where
  "demo_limit = \<lparr>qr_subject = Any, qr_period = Day, qr_max_turns = Some 2, qr_max_input_tokens = None,
     qr_max_output_tokens = None, qr_max_total_tokens = None, qr_max_cost_micros = None,
     qr_description = None\<rparr>"

definition demo_quota :: quota_document where
  "demo_quota = \<lparr>qd_limits = [demo_limit, demo_limit], qd_prices = []\<rparr>"

definition demo_charge :: usage_charge where
  "demo_charge = \<lparr>uc_model = ''m'', uc_turns = 1, uc_input_tokens = 1, uc_output_tokens = 1,
     uc_estimated = False\<rparr>"

definition demo_row :: "u64 \<Rightarrow> usage_rows" where
  "demo_row n = [((''ada'', ''day:2024''), counters_zero\<lparr>ct_turns := n\<rparr>)]"

lemma demo_window: "period_window demo_calendar Day 0 = Inr \<lparr>wi_key = ''day:2024'', wi_ends = Some 9\<rparr>"
  by (simp add: period_window_def utc_def i64_of_def timestamp_of_def u64_try_from_def demo_calendar_def)

lemma demo_read: "usage_read ''ada'' ''day:2024'' (demo_row n) = counters_zero\<lparr>ct_turns := n\<rparr>"
  by (simp add: usage_read_def demo_row_def)

lemma demo_subjects: "subjects (principal_or_system demo_context) = [''ada'']"
  by code_simp

lemma demo_limit_admits:
  "rule_admits demo_calendar demo_quota memory_ops (demo_row n) ''m'' 0 ''ada'' demo_limit \<longleftrightarrow> n < 2"
proof -
  have "ceilings demo_limit = [(Turns, 2)]" "\<not> price_missing demo_quota demo_limit ''m''"
    "qr_period demo_limit = Day"
    by (simp_all add: ceilings_def demo_limit_def price_missing_def List.map_filter_def)
  then show ?thesis by (simp add: rule_admits_def demo_window memory_ops_def demo_read)
qed

theorem quota_check_sound_witness:
  "quota_check demo_calendar demo_quota memory_ops ''m'' demo_context 0 (demo_row 1) = Inr () \<and>
   quota_check demo_calendar demo_quota memory_ops ''m'' demo_context 0 (demo_row 2) \<noteq> Inr ()"
proof -
  have "set (qd_limits demo_quota) = {demo_limit}" "pattern_matches (qr_subject demo_limit) ''ada''"
    by (simp_all add: demo_quota_def demo_limit_def)
  then show ?thesis unfolding quota_check_sound demo_subjects by (simp add: demo_limit_admits)
qed

theorem quota_record_once_witness:
  "\<exists>rows'. quota_record demo_calendar demo_quota memory_ops demo_charge demo_context 0 (demo_row 1)
       = Some (Inr (), rows') \<and>
     ct_turns (usage_read ''ada'' ''day:2024'' rows') = 2"
proof -
  note w = demo_window
  have inv: "bt_inv (demo_row 1)" by code_simp
  have one: "ct_turns (counters_add (usage_read ''ada'' ''day:2024'' (demo_row 1))
      (charge_delta demo_quota demo_charge)) = 2"
    by (simp add: demo_read counters_add_def charge_delta_def demo_charge_def sat_add_def)
  have ada: "''ada'' \<in> set (subjects (principal_or_system demo_context))" by (simp add: demo_subjects)
  have lim: "qd_limits demo_quota \<noteq> []"
    "\<forall>r \<in> set (qd_limits demo_quota). \<exists>w. period_window demo_calendar (qr_period r) 0 = Inr w"
    using w by (auto simp: demo_quota_def demo_limit_def)
  have m: "\<exists>r \<in> set (qd_limits demo_quota). pattern_matches (qr_subject r) ''ada'' \<and> qr_period r = Day"
    by (simp add: demo_quota_def demo_limit_def)
  from quota_record_once [OF inv lim, of demo_charge demo_context] obtain rows'
    where "quota_record demo_calendar demo_quota memory_ops demo_charge demo_context 0 (demo_row 1)
        = Some (Inr (), rows')"
      and "\<forall>s p w. period_window demo_calendar p 0 = Inr w \<longrightarrow>
       usage_read s (wi_key w) rows' =
         (if s \<in> set (subjects (principal_or_system demo_context)) \<and>
             (\<exists>r \<in> set (qd_limits demo_quota). pattern_matches (qr_subject r) s \<and> qr_period r = p)
          then counters_add (usage_read s (wi_key w) (demo_row 1)) (charge_delta demo_quota demo_charge)
          else usage_read s (wi_key w) (demo_row 1))" by blast
  moreover from this(2) w ada m have "ct_turns (usage_read ''ada'' ''day:2024'' rows') = 2"
    using one by (metis (no_types, lifting) window.select_convs(1))
  ultimately show ?thesis by blast
qed

end
