(* ===== verification/Aik_Model.thy ===== *)
theory Aik_Model
  imports Aik_Tools
begin

text \<open>
  Conversations: the messages models read and write (src/crates/api/src/model.rs), the records,
  budgets and windows of a session's context and the way their size is counted
  (src/crates/api/src/context.rs), and the default counter
  (src/crates/context/src/tokens.rs). Token counts are 64-bit and their sums wrap; identifiers
  are in their text form.
\<close>

section \<open>Messages\<close>

datatype role = RoleSystem | RoleUser | RoleAssistant | RoleTool

record tool_call =
  tc_call_id :: string
  tc_name :: string
  tc_arguments :: json

datatype content_part =
    TextPart string
  | BlobPart string string
  | ToolCallPart tool_call
  | ToolResultPart string json bool
  | OtherPart json

record message =
  m_role :: role
  m_content :: "content_part list"
  m_name :: "string option"

definition message_text :: "role \<Rightarrow> string \<Rightarrow> message" where
  "message_text ro t = \<lparr>m_role = ro, m_content = [TextPart t], m_name = None\<rparr>"

record tool_definition =
  td_name :: string
  td_description :: string
  td_input_schema :: json

definition definition_from :: "tool_spec \<Rightarrow> tool_definition" where
  "definition_from spec =
     \<lparr>td_name = sp_name spec, td_description = sp_description spec,
      td_input_schema = sp_input_schema spec\<rparr>"

record completion_request =
  cr_model :: string
  cr_messages :: "message list"
  cr_tools :: "tool_definition list"
  cr_parameters :: json

datatype finish_reason = FinishStop | FinishLength | FinishToolCalls | FinishFiltered | FinishCancelled

record usage =
  us_input_tokens :: u64
  us_output_tokens :: u64

definition usage_default :: usage where
  "usage_default = \<lparr>us_input_tokens = 0, us_output_tokens = 0\<rparr>"

record completion_response =
  re_message :: message
  re_finish_reason :: finish_reason
  re_usage :: "usage option"

section \<open>Context entries, records, budgets and windows\<close>

record context_entry =
  ce_message :: message
  ce_pinned :: bool

definition entry_new :: "message \<Rightarrow> context_entry" where
  "entry_new m = \<lparr>ce_message = m, ce_pinned = False\<rparr>"

definition entry_pinned :: "context_entry \<Rightarrow> context_entry" where
  "entry_pinned e = e\<lparr>ce_pinned := True\<rparr>"

record context_record =
  r_id :: string
  r_session :: string
  r_sequence :: u64
  r_message :: message
  r_pinned :: bool
  r_principal :: string
  r_created_at :: timestamp
  r_tokens :: u64

record context_budget =
  cb_max_tokens :: "u64 option"
  cb_max_records :: "nat option"
  cb_max_part_tokens :: "u64 option"

record context_usage =
  cu_included_records :: nat
  cu_included_tokens :: u64
  cu_dropped_records :: nat
  cu_dropped_tokens :: u64
  cu_elided_parts :: nat
  cu_elided_tokens :: u64
  cu_over_budget :: bool

definition context_usage_default :: context_usage where
  "context_usage_default =
     \<lparr>cu_included_records = 0, cu_included_tokens = 0, cu_dropped_records = 0, cu_dropped_tokens = 0,
      cu_elided_parts = 0, cu_elided_tokens = 0, cu_over_budget = False\<rparr>"

definition total_tokens :: "context_usage \<Rightarrow> u64" where
  "total_tokens u = cu_included_tokens u + cu_elided_tokens u + cu_dropped_tokens u"

record context_window =
  cw_messages :: "message list"
  cw_records :: "string list"
  cw_usage :: context_usage

definition window_empty :: context_window where
  "window_empty = \<lparr>cw_messages = [], cw_records = [], cw_usage = context_usage_default\<rparr>"

record context_stats =
  cs_session :: string
  cs_owner :: string
  cs_records :: nat
  cs_tokens :: u64
  cs_created_at :: timestamp
  cs_updated_at :: timestamp

record compaction =
  co_summary :: "string option"
  co_summarised_records :: nat
  co_removed_records :: nat
  co_reclaimed_tokens :: u64
  co_summary_tokens :: u64

definition compaction_is_empty :: "compaction \<Rightarrow> bool" where
  "compaction_is_empty c \<longleftrightarrow> co_removed_records c = 0 \<and> co_summary c = None"

section \<open>Counting tokens\<close>

text \<open>A counter counts text; the other counts are the default methods of its trait. The text of a
  JSON value is the JSON library's.\<close>

record token_counter =
  k_text :: "string \<Rightarrow> u64"
  k_json_text :: "json \<Rightarrow> string"

fun count_json :: "token_counter \<Rightarrow> json \<Rightarrow> u64" where
  "count_json k (JString t) = k_text k t"
| "count_json k v = k_text k (k_json_text k v)"

fun count_part :: "token_counter \<Rightarrow> content_part \<Rightarrow> u64" where
  "count_part k (TextPart t) = k_text k t"
| "count_part k (BlobPart mime_type data) = k_text k mime_type + k_text k data"
| "count_part k (ToolCallPart call) = k_text k (tc_name call) + count_json k (tc_arguments call)"
| "count_part k (ToolResultPart _ content _) = count_json k content"
| "count_part k (OtherPart v) = count_json k v"

definition message_overhead_tokens :: u64 where
  "message_overhead_tokens = 4"

definition count_message :: "token_counter \<Rightarrow> message \<Rightarrow> u64" where
  "count_message k m =
     message_overhead_tokens
     + (case m_name m of None \<Rightarrow> 0 | Some name \<Rightarrow> k_text k name)
     + sum_list (map (count_part k) (m_content m))"

text \<open>The default counter: bytes divided by a positive ratio, rounded up. The ratio is never zero.\<close>

definition default_bytes_per_token :: u64 where
  "default_bytes_per_token = 4"

definition with_bytes_per_token :: "u64 \<Rightarrow> u64" where
  "with_bytes_per_token n = (if n = 0 then 1 else n)"

definition heuristic_count :: "u64 \<Rightarrow> string \<Rightarrow> u64" where
  "heuristic_count ratio text =
     (let len = word_of_nat (length text) in
      if len mod ratio = 0 then len div ratio else len div ratio + 1)"

section \<open>Facts\<close>

text \<open>What a message costs, as a number that does not wrap.\<close>

definition message_cost :: "token_counter \<Rightarrow> message \<Rightarrow> nat" where
  "message_cost k m =
     4 + (case m_name m of None \<Rightarrow> 0 | Some name \<Rightarrow> unat (k_text k name))
     + sum_list (map (\<lambda>part. unat (count_part k part)) (m_content m))"

lemma unat_sum_list:
  fixes ws :: "'a::len word list"
  shows "sum_list (map unat ws) < 2 ^ LENGTH('a) \<Longrightarrow> unat (sum_list ws) = sum_list (map unat ws)"
proof (induction ws)
  case (Cons w ws)
  then have "unat w + unat (sum_list ws) < 2 ^ LENGTH('a)" by simp
  then show ?case using Cons by (simp add: unat_add_lem [THEN iffD1])
qed simp

lemma unat_count_message:
  assumes "message_cost k m < 2 ^ 64"
  shows "unat (count_message k m) = message_cost k m"
proof -
  have s: "unat (sum_list (map (count_part k) (m_content m)))
      = sum_list (map (\<lambda>part. unat (count_part k part)) (m_content m))"
    using unat_sum_list [of "map (count_part k) (m_content m)"] assms
    by (simp add: message_cost_def comp_def)
  show ?thesis
    using assms by (simp add: count_message_def message_cost_def message_overhead_tokens_def
        unat_word_ariths s split: option.splits)
qed

text \<open>A prefix is never counted higher than the whole, and only the empty text is free.\<close>

lemma heuristic_count_exact:
  assumes "0 < ratio" and "length text < 2 ^ 64"
  shows "unat (heuristic_count ratio text) = (length text + unat ratio - 1) div unat ratio"
proof -
  define n r where "n = length text" and "r = unat ratio"
  have r: "0 < r" using assms(1) by (simp add: r_def word_greater_zero_iff unat_gt_0)
  have len: "unat (word_of_nat n :: u64) = n" using assms(2) by (simp add: n_def unat_of_nat)
  have small: "n div r + 1 < 2 ^ 64" if "n mod r \<noteq> 0"
  proof -
    have "2 \<le> r" using that r by (cases "r = 1") auto
    then have "n div r \<le> n div 2" by (simp add: div_le_mono2)
    then show ?thesis using assms(2) by (simp add: n_def)
  qed
  have "(n + r - 1) div r = (if n mod r = 0 then n div r else n div r + 1)"
  proof (cases "n mod r = 0")
    case True
    then have "n + r - 1 = (r - 1) + n div r * r" using r by (simp add: mod_eq_0_iff_dvd)
    then have "(n + r - 1) div r = n div r + (r - 1) div r" using r by (simp only: div_mult_self1)
    then show ?thesis using True r by simp
  next
    case False
    have eq: "n + r - 1 = (n mod r - 1) + (n div r + 1) * r"
      using False r div_mult_mod_eq [of n r] by (cases n) (auto simp: algebra_simps)
    have "n mod r - 1 < r" using r mod_less_divisor [of r n] by linarith
    then have "(n + r - 1) div r = n div r + 1" unfolding eq using r by (subst div_mult_self1) auto
    then show ?thesis using False by simp
  qed
  moreover have "(word_of_nat n :: u64) mod ratio = 0 \<longleftrightarrow> n mod r = 0"
    by (simp add: unat_eq_zero [symmetric] unat_mod_distrib len r_def)
  moreover have "unat ((word_of_nat n :: u64) div ratio) = n div r"
    by (simp add: unat_div_distrib len r_def)
  ultimately show ?thesis
    using small by (auto simp: heuristic_count_def Let_def n_def [symmetric] r_def [symmetric] unat_word_ariths)
qed

end
