(* ===== verification/Aik_Window.thy ===== *)
theory Aik_Window
  imports Aik_Model "HOL-Library.Sublist"
begin

text \<open>
  Assembling the window of a session (src/crates/context/src/window.rs): oversized parts are
  elided, pinned records and the newest others are selected within the budget, tool results
  whose call is not in the window are dropped, and everything left out is accounted for.
\<close>

section \<open>Elision\<close>

definition elision_marker :: string where
  "elision_marker = ''aik.elided''"

definition text_note :: "string \<Rightarrow> nat \<Rightarrow> nat \<Rightarrow> string" where
  "text_note rid removed len =
     '' ['' @ elision_marker @ '': '' @ dec removed @ '' of '' @ dec len
     @ '' bytes removed; context record '' @ rid @ '']''"

definition elided_value :: "string \<Rightarrow> nat \<Rightarrow> json" where
  "elided_value rid bytes =
     JObject (bt_insert elision_marker
       (JObject (bt_insert ''bytes'' (JNumber (PosInt bytes)) (bt_insert ''record'' (JString rid) []))) [])"

text \<open>\<^verbatim>\<open>char_indices\<close>: the positions of the bytes that do not continue a character.\<close>

definition continues_char :: "char \<Rightarrow> bool" where
  "continues_char c \<longleftrightarrow> (of_char c :: nat) div 64 = 2"

definition char_indices :: "string \<Rightarrow> nat list" where
  "char_indices text = filter (\<lambda>i. \<not> continues_char (text ! i)) [0..<length text]"

function bisect :: "(nat \<Rightarrow> bool) \<Rightarrow> nat \<Rightarrow> nat \<Rightarrow> nat" where
  "bisect fits low high =
     (if low + 1 < high
      then let middle = low + (high - low) div 2
           in if fits middle then bisect fits middle high else bisect fits low middle
      else low)"
  by pat_completeness auto
termination by (relation "measure (\<lambda>(f, low, high). high - low)") auto

declare bisect.simps [simp del]

definition truncate_to_tokens :: "token_counter \<Rightarrow> string \<Rightarrow> u64 \<Rightarrow> string" where
  "truncate_to_tokens k text limit =
     (if k_text k text \<le> limit then text
      else let boundaries = char_indices text
           in if boundaries = [] then text
              else take (boundaries ! bisect (\<lambda>middle. k_text k (take (boundaries ! middle) text) \<le> limit)
                           0 (length boundaries)) text)"

fun elided_replacement ::
  "token_counter \<Rightarrow> content_part \<Rightarrow> string \<Rightarrow> u64 \<Rightarrow> content_part option" where
  "elided_replacement k (TextPart text) rid limit =
     (let kept = truncate_to_tokens k text limit
      in Some (TextPart (kept @ text_note rid (length text - length kept) (length text))))"
| "elided_replacement k (BlobPart mime_type data) rid limit =
     Some (TextPart (''['' @ elision_marker @ '': '' @ mime_type @ '' payload of ''
       @ dec (length data) @ '' bytes removed; context record '' @ rid @ '']''))"
| "elided_replacement k (ToolCallPart call) rid limit =
     Some (ToolCallPart \<lparr>tc_call_id = tc_call_id call, tc_name = tc_name call,
       tc_arguments = elided_value rid (length (k_json_text k (tc_arguments call)))\<rparr>)"
| "elided_replacement k (ToolResultPart call_id content is_error) rid limit =
     Some (ToolResultPart call_id (elided_value rid (length (k_json_text k content))) is_error)"
| "elided_replacement k (OtherPart _) rid limit = None"

definition elide_part ::
  "token_counter \<Rightarrow> content_part \<Rightarrow> string \<Rightarrow> u64 \<Rightarrow> content_part option" where
  "elide_part k part rid limit =
     (case elided_replacement k part rid limit of
        None \<Rightarrow> None
      | Some replacement \<Rightarrow>
          if count_part k replacement < count_part k part then Some replacement else None)"

fun elide_content ::
  "token_counter \<Rightarrow> content_part list \<Rightarrow> string \<Rightarrow> u64 \<Rightarrow> content_part list \<times> nat" where
  "elide_content k [] rid limit = ([], 0)"
| "elide_content k (part # parts) rid limit =
     (case elide_content k parts rid limit of
        (content, elided) \<Rightarrow>
          if count_part k part \<le> limit then (part # content, elided)
          else (case elide_part k part rid limit of
                  Some replacement \<Rightarrow> (replacement # content, elided + 1)
                | None \<Rightarrow> (part # content, elided)))"

definition elide_message :: "token_counter \<Rightarrow> message \<Rightarrow> string \<Rightarrow> u64 \<Rightarrow> message \<times> nat" where
  "elide_message k m rid limit =
     (case elide_content k (m_content m) rid limit of
        (content, elided) \<Rightarrow>
          (\<lparr>m_role = m_role m, m_content = content, m_name = m_name m\<rparr>, elided))"

section \<open>Orphaned results\<close>

fun drop_parts ::
  "string set \<Rightarrow> content_part list \<Rightarrow> content_part list \<times> string set \<times> nat" where
  "drop_parts answered [] = ([], answered, 0)"
| "drop_parts answered (part # parts) =
     (case part of
        ToolCallPart call \<Rightarrow>
          (case drop_parts (insert (tc_call_id call) answered) parts of
             (kept, answered', dropped) \<Rightarrow> (part # kept, answered', dropped))
      | ToolResultPart call_id _ _ \<Rightarrow>
          (case drop_parts answered parts of
             (kept, answered', dropped) \<Rightarrow>
               if call_id \<in> answered then (part # kept, answered', dropped)
               else (kept, answered', dropped + 1))
      | _ \<Rightarrow>
          (case drop_parts answered parts of
             (kept, answered', dropped) \<Rightarrow> (part # kept, answered', dropped)))"

fun drop_orphan_results :: "string set \<Rightarrow> message list \<Rightarrow> message list \<times> nat" where
  "drop_orphan_results answered [] = ([], 0)"
| "drop_orphan_results answered (m # ms) =
     (case drop_parts answered (m_content m) of
        (kept, answered', dropped) \<Rightarrow>
          (case drop_orphan_results answered' ms of
             (ms', dropped') \<Rightarrow> (m\<lparr>m_content := kept\<rparr> # ms', dropped + dropped')))"

section \<open>Selection and accounting\<close>

record prepared =
  pr_id :: string
  pr_pinned :: bool
  pr_message :: message
  pr_original_tokens :: u64
  pr_tokens :: u64
  pr_elided_parts :: nat

definition prepare_record :: "token_counter \<Rightarrow> context_budget \<Rightarrow> context_record \<Rightarrow> prepared" where
  "prepare_record k budget r =
     (let (m, elided) =
        (case cb_max_part_tokens budget of
           Some limit \<Rightarrow> elide_message k (r_message r) (r_id r) limit
         | None \<Rightarrow> (r_message r, 0))
      in \<lparr>pr_id = r_id r, pr_pinned = r_pinned r, pr_message = m,
          pr_original_tokens = r_tokens r,
          pr_tokens = (if elided = 0 then r_tokens r else count_message k m),
          pr_elided_parts = elided\<rparr>)"

text \<open>The flags of the loop from the newest record to the oldest, newest first.\<close>

fun select_back ::
  "u64 option \<Rightarrow> nat option \<Rightarrow> prepared list \<Rightarrow> bool \<Rightarrow> u64 \<Rightarrow> nat \<Rightarrow> bool list" where
  "select_back tokens records [] accepting used_tokens used_records = []"
| "select_back tokens records (c # cs) accepting used_tokens used_records =
     (if pr_pinned c then True # select_back tokens records cs accepting used_tokens used_records
      else if \<not> accepting then False # select_back tokens records cs False used_tokens used_records
      else if (case records of None \<Rightarrow> False | Some allowance \<Rightarrow> allowance \<le> used_records)
      then False # select_back tokens records cs False used_tokens used_records
      else if (case tokens of None \<Rightarrow> False | Some allowance \<Rightarrow> allowance < used_tokens + pr_tokens c)
      then False # select_back tokens records cs False used_tokens used_records
      else True # select_back tokens records cs True (used_tokens + pr_tokens c) (used_records + 1))"

definition pinned_tokens :: "prepared list \<Rightarrow> u64" where
  "pinned_tokens ps = sum_list (map pr_tokens (filter pr_pinned ps))"

definition keep_flags :: "context_budget \<Rightarrow> prepared list \<Rightarrow> bool list" where
  "keep_flags budget ps =
     rev (select_back
       (map_option (\<lambda>max_tokens. sat_sub max_tokens (pinned_tokens ps)) (cb_max_tokens budget))
       (map_option (\<lambda>max_records. max_records - length (filter pr_pinned ps)) (cb_max_records budget))
       (rev ps) True 0 0)"

text \<open>The loop over the selected messages, once orphans are gone.\<close>

fun collect_kept ::
  "token_counter \<Rightarrow> (prepared \<times> message) list \<Rightarrow> context_window \<Rightarrow> context_window" where
  "collect_kept k [] w = w"
| "collect_kept k ((c, m) # rest) w =
     (let u = cw_usage w in
      if m_content m = []
      then collect_kept k rest (w\<lparr>cw_usage :=
             u\<lparr>cu_dropped_records := cu_dropped_records u + 1,
               cu_dropped_tokens := cu_dropped_tokens u + pr_original_tokens c\<rparr>\<rparr>)
      else let tokens = count_message k m in
           collect_kept k rest
             \<lparr>cw_messages = cw_messages w @ [m], cw_records = cw_records w @ [pr_id c],
              cw_usage = u\<lparr>cu_included_records := cu_included_records u + 1,
                cu_included_tokens := cu_included_tokens u + tokens,
                cu_elided_parts := cu_elided_parts u + pr_elided_parts c,
                cu_elided_tokens := cu_elided_tokens u + sat_sub (pr_original_tokens c) tokens\<rparr>\<rparr>)"

fun account_dropped :: "prepared list \<Rightarrow> context_usage \<Rightarrow> context_usage" where
  "account_dropped [] u = u"
| "account_dropped (c # cs) u =
     account_dropped cs (u\<lparr>cu_dropped_records := cu_dropped_records u + 1,
       cu_dropped_tokens := cu_dropped_tokens u + pr_original_tokens c\<rparr>)"

definition selected :: "bool list \<Rightarrow> 'a list \<Rightarrow> 'a list" where
  "selected flags xs = map snd (filter fst (zip flags xs))"

definition over_budget :: "context_budget \<Rightarrow> prepared list \<Rightarrow> bool" where
  "over_budget budget ps =
     (case cb_max_tokens budget of None \<Rightarrow> False | Some max_tokens \<Rightarrow> max_tokens < pinned_tokens ps)"

definition assemble :: "context_record list \<Rightarrow> context_budget \<Rightarrow> token_counter \<Rightarrow> context_window" where
  "assemble records budget k =
     (let ps = map (prepare_record k budget) records;
          keep = keep_flags budget ps;
          sel = selected keep ps;
          (messages, orphans) = drop_orphan_results {} (map pr_message sel);
          w = collect_kept k (zip sel messages)
                \<lparr>cw_messages = [], cw_records = [],
                 cw_usage = context_usage_default\<lparr>cu_elided_parts := orphans,
                   cu_over_budget := over_budget budget ps\<rparr>\<rparr>
      in w\<lparr>cw_usage := account_dropped (selected (map Not keep) ps) (cw_usage w)\<rparr>)"

section \<open>Truncation\<close>

text \<open>The search keeps what fits below and what does not above.\<close>

lemma bisect_spec:
  "low < high \<Longrightarrow> low \<le> bisect fits low high \<and> bisect fits low high < high \<and>
   (bisect fits low high = low \<or> fits (bisect fits low high)) \<and>
   (bisect fits low high + 1 = high \<or> \<not> fits (bisect fits low high + 1))"
proof (induction fits low high rule: bisect.induct)
  case (1 fits low high)
  define middle where "middle = low + (high - low) div 2"
  show ?case
  proof (cases "low + 1 < high")
    case True
    then have mid: "low < middle" "middle < high" by (auto simp: middle_def)
    show ?thesis
    proof (cases "fits middle")
      case fit: True
      then have eq: "bisect fits low high = bisect fits middle high"
        using True by (subst bisect.simps) (simp add: middle_def)
      show ?thesis using 1(1) [OF True middle_def fit mid(2)] mid fit unfolding eq by auto
    next
      case nofit: False
      then have eq: "bisect fits low high = bisect fits low middle"
        using True by (subst bisect.simps) (simp add: middle_def)
      show ?thesis using 1(2) [OF True middle_def nofit mid(1)] mid nofit unfolding eq by auto
    qed
  next
    case False
    with 1(3) have "high = low + 1" by simp
    then show ?thesis by (subst (1 2 3 4 5 6) bisect.simps) simp
  qed
qed

lemma char_indices_start: "text \<noteq> [] \<Longrightarrow> \<not> continues_char (text ! 0) \<Longrightarrow> char_indices text ! 0 = 0"
  by (cases "text") (auto simp: char_indices_def upt_conv_Cons simp del: upt_Suc)

lemma char_indices_sorted: "sorted_wrt (<) (char_indices text)"
  by (simp add: char_indices_def sorted_wrt_filter)

text \<open>A text is cut only where a character starts, to something that fits or to nothing, and not
  shorter than the search can tell: the next longer cut, if any, does not fit.\<close>

lemma truncate_to_tokens_spec:
  assumes "\<not> continues_char (t ! 0)" and "limit < k_text k t" and "t \<noteq> []"
  obtains j where "j < length (char_indices t)" "truncate_to_tokens k t limit = take (char_indices t ! j) t"
    "truncate_to_tokens k t limit = [] \<or> k_text k (truncate_to_tokens k t limit) \<le> limit"
    "j + 1 = length (char_indices t) \<or> limit < k_text k (take (char_indices t ! (j + 1)) t)"
proof -
  let ?bs = "char_indices t"
  let ?fits = "\<lambda>middle. k_text k (take (?bs ! middle) t) \<le> limit"
  have "0 \<in> set ?bs" using assms(1,3) by (simp add: char_indices_def)
  then have ne: "?bs \<noteq> []" by auto
  define j where "j = bisect ?fits 0 (length ?bs)"
  have eq: "truncate_to_tokens k t limit = take (?bs ! j) t"
    using assms(2) ne by (simp add: truncate_to_tokens_def j_def Let_def not_le)
  have "j < length ?bs" "j = 0 \<or> ?fits j" "j + 1 = length ?bs \<or> \<not> ?fits (j + 1)"
    using bisect_spec [of 0 "length ?bs" ?fits] ne by (auto simp: j_def)
  moreover have "take (?bs ! 0) t = []" using char_indices_start [OF assms(3,1)] by simp
  ultimately show thesis using that [of j] eq by (auto simp: not_le)
qed

section \<open>Orphans\<close>

fun coherent :: "string set \<Rightarrow> content_part list \<Rightarrow> bool" where
  "coherent A [] \<longleftrightarrow> True"
| "coherent A (ToolCallPart call # ps) \<longleftrightarrow> coherent (insert (tc_call_id call) A) ps"
| "coherent A (ToolResultPart call_id _ _ # ps) \<longleftrightarrow> call_id \<in> A \<and> coherent A ps"
| "coherent A (_ # ps) \<longleftrightarrow> coherent A ps"

definition calls_in :: "content_part list \<Rightarrow> string set" where
  "calls_in ps = {tc_call_id call |call. ToolCallPart call \<in> set ps}"

lemma calls_in_simps [simp]:
  "calls_in [] = {}"
  "calls_in (ToolCallPart call # ps) = insert (tc_call_id call) (calls_in ps)"
  "calls_in (ToolResultPart i v e # ps) = calls_in ps"
  "calls_in (TextPart t # ps) = calls_in ps"
  "calls_in (BlobPart mt d # ps) = calls_in ps"
  "calls_in (OtherPart v # ps) = calls_in ps"
  by (auto simp: calls_in_def)

definition is_tool_result :: "content_part \<Rightarrow> bool" where
  "is_tool_result part = (case part of ToolResultPart _ _ _ \<Rightarrow> True | _ \<Rightarrow> False)"

lemma coherent_append:
  "coherent A (ps @ qs) \<longleftrightarrow> coherent A ps \<and> coherent (A \<union> calls_in ps) qs"
  by (induction A ps rule: coherent.induct) auto

lemma coherent_result:
  "coherent A (xs @ ToolResultPart i v e # ys) \<Longrightarrow> i \<in> A \<union> calls_in xs"
  by (simp add: coherent_append)

lemma drop_parts_spec:
  "drop_parts A ps = (kept, A', d) \<Longrightarrow>
   coherent A kept \<and> A' = A \<union> calls_in kept \<and> subseq kept ps \<and> length ps = length kept + d \<and>
   (kept = [] \<longrightarrow> list_all is_tool_result ps)"
proof (induction A ps arbitrary: kept A' d rule: drop_parts.induct)
  case (2 A part parts)
  then show ?case
    by (cases part) (force simp: is_tool_result_def split: prod.splits if_splits)+
qed simp

text \<open>What the pass does to one message.\<close>

definition shrunk :: "message \<Rightarrow> message \<Rightarrow> bool" where
  "shrunk m m' \<longleftrightarrow> (\<exists>c. m' = m\<lparr>m_content := c\<rparr> \<and> subseq c (m_content m) \<and>
     (c = [] \<longrightarrow> list_all is_tool_result (m_content m)))"

lemma drop_orphan_results_spec:
  "drop_orphan_results A ms = (ms', d) \<Longrightarrow>
   list_all2 shrunk ms ms' \<and> coherent A (concat (map m_content ms'))"
proof (induction A ms arbitrary: ms' d rule: drop_orphan_results.induct)
  case (2 A m ms)
  obtain kept A' d1 where dp: "drop_parts A (m_content m) = (kept, A', d1)" by (metis prod_cases3)
  obtain ms1 d2 where rest: "drop_orphan_results A' ms = (ms1, d2)" by fastforce
  note spec = drop_parts_spec [OF dp]
  have "ms' = m\<lparr>m_content := kept\<rparr> # ms1" using 2(2) dp rest by simp
  moreover have "shrunk m (m\<lparr>m_content := kept\<rparr>)" using spec by (auto simp: shrunk_def)
  moreover have "list_all2 shrunk ms ms1 \<and> coherent A' (concat (map m_content ms1))"
    using 2(1) [OF dp [symmetric] _ rest] by simp
  ultimately show ?case using spec by (simp add: coherent_append)
qed simp

lemma sum_list_subseq: "subseq xs ys \<Longrightarrow> sum_list (map f xs) \<le> sum_list (map f ys)" for f :: "'a \<Rightarrow> nat"
  by (induction rule: list_emb.induct) auto

lemma shrunk_cost: "shrunk m m' \<Longrightarrow> message_cost k m' \<le> message_cost k m"
  by (auto simp: shrunk_def message_cost_def sum_list_subseq split: option.splits)

section \<open>Prepared records\<close>

lemma elide_part_smaller: "elide_part k part rid limit = Some q \<Longrightarrow> unat (count_part k q) < unat (count_part k part)"
  by (auto simp: elide_part_def word_less_nat_alt split: option.splits if_splits)

lemma elide_part_result: "elide_part k part rid limit = Some q \<Longrightarrow> is_tool_result q \<longleftrightarrow> is_tool_result part"
  by (cases part) (auto simp: elide_part_def is_tool_result_def Let_def split: if_splits)

lemma elide_content_spec:
  "elide_content k ps rid limit = (qs, n) \<Longrightarrow>
   sum_list (map (\<lambda>p. unat (count_part k p)) qs) \<le> sum_list (map (\<lambda>p. unat (count_part k p)) ps) \<and>
   (n = 0 \<longrightarrow> qs = ps) \<and> map is_tool_result qs = map is_tool_result ps"
proof (induction ps arbitrary: qs n)
  case (Cons part ps)
  obtain qs1 n1 where r: "elide_content k ps rid limit = (qs1, n1)" by fastforce
  show ?case
    using Cons.IH [OF r] Cons.prems r elide_part_smaller [of k part rid limit]
      elide_part_result [of k part rid limit]
    by (force split: if_splits option.splits)
qed simp

text \<open>Records counted by the counter at hand, small enough for 64 bits.\<close>

definition counted :: "token_counter \<Rightarrow> context_record list \<Rightarrow> bool" where
  "counted k rs \<longleftrightarrow> list_all (\<lambda>r. r_tokens r = count_message k (r_message r)) rs \<and>
     sum_list (map (\<lambda>r. message_cost k (r_message r)) rs) < 2 ^ 64"

lemma counted_member:
  assumes "counted k rs" and "r \<in> set rs"
  shows "r_tokens r = count_message k (r_message r)" "unat (r_tokens r) = message_cost k (r_message r)"
    "message_cost k (r_message r) < 2 ^ 64"
proof -
  show eq: "r_tokens r = count_message k (r_message r)" using assms by (simp add: counted_def list_all_iff)
  have "message_cost k (r_message r) \<le> sum_list (map (\<lambda>r. message_cost k (r_message r)) rs)"
    using assms(2) by (intro member_le_sum_list) auto
  then show "message_cost k (r_message r) < 2 ^ 64" using assms(1) by (simp add: counted_def)
  then show "unat (r_tokens r) = message_cost k (r_message r)" by (simp add: eq unat_count_message)
qed

lemma prepare_record_simps [simp]:
  "pr_id (prepare_record k b r) = r_id r" "pr_pinned (prepare_record k b r) = r_pinned r"
  "pr_original_tokens (prepare_record k b r) = r_tokens r"
  by (simp_all add: prepare_record_def split: prod.splits)

lemma prepare_record_spec:
  assumes "r_tokens r = count_message k (r_message r)" and "message_cost k (r_message r) < 2 ^ 64"
  shows "message_cost k (pr_message (prepare_record k b r)) \<le> message_cost k (r_message r)"
    "unat (pr_tokens (prepare_record k b r)) = message_cost k (pr_message (prepare_record k b r))"
    "map is_tool_result (m_content (pr_message (prepare_record k b r))) =
     map is_tool_result (m_content (r_message r))"
proof -
  define p where "p = prepare_record k b r"
  have "message_cost k (pr_message p) \<le> message_cost k (r_message r) \<and>
    (pr_elided_parts p = 0 \<longrightarrow> message_cost k (pr_message p) = message_cost k (r_message r)) \<and>
    pr_tokens p = (if pr_elided_parts p = 0 then r_tokens r else count_message k (pr_message p)) \<and>
    map is_tool_result (m_content (pr_message p)) = map is_tool_result (m_content (r_message r))"
  proof (cases "cb_max_part_tokens b")
    case (Some limit)
    obtain qs n where e: "elide_content k (m_content (r_message r)) (r_id r) limit = (qs, n)" by fastforce
    show ?thesis using elide_content_spec [OF e]
      by (auto simp: p_def prepare_record_def Some elide_message_def e message_cost_def)
  qed (simp add: p_def prepare_record_def)
  moreover from this assms(2) have "unat (count_message k (pr_message p)) = message_cost k (pr_message p)"
    by (intro unat_count_message) simp
  ultimately show "message_cost k (pr_message p) \<le> message_cost k (r_message r)"
    "unat (pr_tokens p) = message_cost k (pr_message p)"
    "map is_tool_result (m_content (pr_message p)) = map is_tool_result (m_content (r_message r))"
    using assms unat_count_message [OF assms(2)] by auto
qed

section \<open>Selection\<close>

lemma length_select_back [simp]: "length (select_back t n cs acc ut un) = length cs"
  by (induction cs arbitrary: acc ut un) simp_all

lemma select_back_closed: "select_back t n cs False ut un = map pr_pinned cs"
  by (induction cs) simp_all

text \<open>Among the records that are not pinned, the newest ones are taken without a gap.\<close>

lemma select_back_newest:
  "\<exists>j. \<forall>i < length cs. select_back t n cs True ut un ! i \<longleftrightarrow> pr_pinned (cs ! i) \<or> i < j"
proof (induction cs arbitrary: ut un)
  case (Cons c cs)
  have stop: "\<exists>j. \<forall>i < length (c # cs). (False # map pr_pinned cs) ! i \<longleftrightarrow> pr_pinned ((c # cs) ! i) \<or> i < j"
    if "\<not> pr_pinned c" using that by (intro exI [of _ 0]) (auto simp: nth_Cons split: nat.split)
  have go: "\<exists>j. \<forall>i < length (c # cs). (True # select_back t n cs True ut' un') ! i \<longleftrightarrow>
      pr_pinned ((c # cs) ! i) \<or> i < j" for ut' un'
  proof -
    from Cons.IH obtain j where
      "\<forall>i < length cs. select_back t n cs True ut' un' ! i \<longleftrightarrow> pr_pinned (cs ! i) \<or> i < j" by blast
    then show ?thesis by (intro exI [of _ "Suc j"]) (auto simp: nth_Cons split: nat.split)
  qed
  show ?case using stop go [of ut un] go [of "ut + pr_tokens c" "un + 1"]
    by (auto simp: select_back_closed)
qed simp

lemma selected_Cons [simp]:
  "selected (b # bs) (x # xs) = (if b then x # selected bs xs else selected bs xs)"
  by (simp add: selected_def)

lemma selected_Nil [simp]: "selected [] xs = []" "selected bs [] = []"
  by (simp_all add: selected_def)

lemma selected_rev: "length bs = length xs \<Longrightarrow> selected (rev bs) (rev xs) = rev (selected bs xs)"
  by (simp add: selected_def zip_rev rev_filter [symmetric] rev_map [symmetric])

lemma selected_pinned:
  "length bs = length ps \<Longrightarrow> list_all2 (\<lambda>b p. P p \<longrightarrow> b) bs ps \<Longrightarrow> filter P (selected bs ps) = filter P ps"
  by (induction bs ps rule: list_induct2) auto

text \<open>What is taken of the records that are not pinned stays within the allowances.\<close>

lemma select_back_tokens:
  "unat ut + sum_list (map (\<lambda>c. unat (pr_tokens c)) cs) < 2 ^ 64 \<Longrightarrow> ut \<le> a \<Longrightarrow>
   unat ut + sum_list (map (\<lambda>c. unat (pr_tokens c))
     (filter (\<lambda>c. \<not> pr_pinned c) (selected (select_back (Some a) n cs acc ut un) cs))) \<le> unat a"
proof (induction cs arbitrary: acc ut un)
  case (Cons c cs)
  have add: "unat (ut + pr_tokens c) = unat ut + unat (pr_tokens c)"
    using Cons.prems(1) by (simp add: unat_word_ariths)
  have skip: "unat ut + sum_list (map (\<lambda>c. unat (pr_tokens c))
     (filter (\<lambda>c. \<not> pr_pinned c) (selected (select_back (Some a) n cs acc' ut un) cs))) \<le> unat a" for acc'
    using Cons.prems by (intro Cons.IH) auto
  have take: "unat ut + unat (pr_tokens c) + sum_list (map (\<lambda>c. unat (pr_tokens c))
     (filter (\<lambda>c. \<not> pr_pinned c) (selected (select_back (Some a) n cs True (ut + pr_tokens c) (un + 1)) cs)))
     \<le> unat a" if "\<not> a < ut + pr_tokens c"
    using Cons.IH [of "ut + pr_tokens c" True "un + 1"] Cons.prems that by (simp add: add not_less)
  show ?case using skip take by (auto simp: not_less add.assoc)
qed (simp add: word_le_nat_alt)

lemma select_back_records:
  "un \<le> a \<Longrightarrow>
   un + length (filter (\<lambda>c. \<not> pr_pinned c) (selected (select_back t (Some a) cs acc ut un) cs)) \<le> a"
proof (induction cs arbitrary: acc ut un)
  case (Cons c cs)
  have "un + 1 + length (filter (\<lambda>c. \<not> pr_pinned c)
     (selected (select_back t (Some a) cs True ut' (un + 1)) cs)) \<le> a" if "\<not> a \<le> un" for ut'
    using Cons.IH [of "un + 1"] that by simp
  moreover have "un + length (filter (\<lambda>c. \<not> pr_pinned c)
     (selected (select_back t (Some a) cs acc' ut un) cs)) \<le> a" for acc'
    using Cons by blast
  ultimately show ?case by (auto simp: not_le)
qed simp

lemma keep_flags_length [simp]: "length (keep_flags b ps) = length ps"
  by (simp add: keep_flags_def)

lemma keep_flags_newest:
  "\<exists>j. \<forall>i < length ps. keep_flags b ps ! i \<longleftrightarrow> pr_pinned (ps ! i) \<or> j \<le> i"
proof -
  obtain j where j: "\<forall>i < length (rev ps). rev (keep_flags b ps) ! i \<longleftrightarrow> pr_pinned (rev ps ! i) \<or> i < j"
    using select_back_newest [of "rev ps"] by (fastforce simp: keep_flags_def)
  have "keep_flags b ps ! i \<longleftrightarrow> pr_pinned (ps ! i) \<or> length ps - j \<le> i" if "i < length ps" for i
    using j [rule_format, of "length ps - Suc i"] that by (auto simp: rev_nth)
  then show ?thesis by blast
qed

lemma keep_flags_pinned: "filter pr_pinned (selected (keep_flags b ps) ps) = filter pr_pinned ps"
proof (rule selected_pinned)
  show "list_all2 (\<lambda>b p. pr_pinned p \<longrightarrow> b) (keep_flags b ps) ps"
    using keep_flags_newest [of ps b] by (auto simp: list_all2_conv_all_nth)
qed simp

lemma selected_keep:
  "selected (keep_flags b ps) ps =
   rev (selected (select_back
       (map_option (\<lambda>max_tokens. sat_sub max_tokens (pinned_tokens ps)) (cb_max_tokens b))
       (map_option (\<lambda>max_records. max_records - length (filter pr_pinned ps)) (cb_max_records b))
       (rev ps) True 0 0) (rev ps))"
  unfolding keep_flags_def by (subst selected_rev [symmetric]) simp_all

lemma unpinned_rev:
  "filter (\<lambda>c. \<not> pr_pinned c) (rev xs) = rev (filter (\<lambda>c. \<not> pr_pinned c) xs)"
  by (simp add: rev_filter)

lemma keep_flags_tokens:
  assumes "sum_list (map (\<lambda>c. unat (pr_tokens c)) ps) < 2 ^ 64" and "cb_max_tokens b = Some a"
    and "pinned_tokens ps \<le> a"
  shows "sum_list (map (\<lambda>c. unat (pr_tokens c)) (selected (keep_flags b ps) ps)) \<le> unat a"
proof -
  define sel where "sel = selected (keep_flags b ps) ps"
  let ?t = "\<lambda>c. unat (pr_tokens c)"
  have split: "sum_list (map ?t xs) = sum_list (map ?t (filter pr_pinned xs))
      + sum_list (map ?t (filter (\<lambda>c. \<not> pr_pinned c) xs))" for xs
    by (induction xs) auto
  have "sum_list (map ?t (filter pr_pinned ps)) < 2 ^ 64" using assms(1) split [of ps] by simp
  then have pin: "unat (pinned_tokens ps) = sum_list (map ?t (filter pr_pinned ps))"
    using unat_sum_list [of "map pr_tokens (filter pr_pinned ps)"] by (simp add: pinned_tokens_def comp_def)
  have "sum_list (map ?t (filter (\<lambda>c. \<not> pr_pinned c) sel)) \<le> unat (sat_sub a (pinned_tokens ps))"
    using select_back_tokens [of 0 "rev ps" "sat_sub a (pinned_tokens ps)"] assms(1)
    unfolding sel_def selected_keep unpinned_rev
    by (simp add: assms(2) rev_map [symmetric])
  then have "sum_list (map ?t (filter (\<lambda>c. \<not> pr_pinned c) sel)) \<le> unat a - unat (pinned_tokens ps)"
    by (simp add: unat_sat)
  moreover have "unat (pinned_tokens ps) \<le> unat a" using assms(3) by (simp add: word_le_nat_alt)
  ultimately show ?thesis
    unfolding sel_def [symmetric]
    using split [of sel] pin keep_flags_pinned [of b ps] by (simp add: sel_def)
qed

lemma keep_flags_records:
  assumes "cb_max_records b = Some a"
  shows "length (selected (keep_flags b ps) ps) \<le> max a (length (filter pr_pinned ps))"
proof -
  define sel where "sel = selected (keep_flags b ps) ps"
  have "length (filter (\<lambda>c. \<not> pr_pinned c) sel) \<le> a - length (filter pr_pinned ps)"
    using select_back_records [of 0 "a - length (filter pr_pinned ps)"]
    unfolding sel_def selected_keep unpinned_rev by (simp add: assms)
  moreover have "length sel = length (filter pr_pinned sel) + length (filter (\<lambda>c. \<not> pr_pinned c) sel)"
    by (rule sum_length_filter_compl [symmetric])
  ultimately show ?thesis using keep_flags_pinned [of b ps] by (simp add: sel_def)
qed

section \<open>Accounting\<close>

lemma collect_kept_spec:
  fixes k w cms
  defines "w' \<equiv> collect_kept k cms w"
    and "kept \<equiv> filter (\<lambda>(c, m). m_content m \<noteq> []) cms"
    and "gone \<equiv> filter (\<lambda>(c, m). m_content m = []) cms"
  shows "cw_messages w' = cw_messages w @ map snd kept \<and>
    cw_records w' = cw_records w @ map (pr_id \<circ> fst) kept \<and>
    cu_included_records (cw_usage w') = cu_included_records (cw_usage w) + length kept \<and>
    cu_included_tokens (cw_usage w') =
      cu_included_tokens (cw_usage w) + sum_list (map (count_message k \<circ> snd) kept) \<and>
    cu_dropped_records (cw_usage w') = cu_dropped_records (cw_usage w) + length gone \<and>
    cu_dropped_tokens (cw_usage w') =
      cu_dropped_tokens (cw_usage w) + sum_list (map (pr_original_tokens \<circ> fst) gone) \<and>
    cu_elided_tokens (cw_usage w') = cu_elided_tokens (cw_usage w)
      + sum_list (map (\<lambda>(c, m). sat_sub (pr_original_tokens c) (count_message k m)) kept) \<and>
    cu_over_budget (cw_usage w') = cu_over_budget (cw_usage w)"
  unfolding w'_def kept_def gone_def
  by (induction k cms w rule: collect_kept.induct) (auto simp: Let_def add.assoc)

lemma account_dropped_spec:
  "account_dropped cs u =
     u\<lparr>cu_dropped_records := cu_dropped_records u + length cs,
       cu_dropped_tokens := cu_dropped_tokens u + sum_list (map pr_original_tokens cs)\<rparr>"
  by (induction cs arbitrary: u) (simp_all add: add.assoc)

text \<open>The parts of an assembly, named once for the proofs below.\<close>

definition kept_pairs :: "context_record list \<Rightarrow> context_budget \<Rightarrow> token_counter \<Rightarrow> (prepared \<times> message) list" where
  "kept_pairs rs b k =
     (let ps = map (prepare_record k b) rs; sel = selected (keep_flags b ps) ps
      in zip sel (fst (drop_orphan_results {} (map pr_message sel))))"

lemma assemble_parts:
  fixes rs b k
  defines "w \<equiv> assemble rs b k"
    and "kept \<equiv> filter (\<lambda>(c, m). m_content m \<noteq> []) (kept_pairs rs b k)"
    and "gone \<equiv> filter (\<lambda>(c, m). m_content m = []) (kept_pairs rs b k)"
    and "ps \<equiv> map (prepare_record k b) rs"
  shows "cw_messages w = map snd kept" "cw_records w = map (pr_id \<circ> fst) kept"
    "cu_included_records (cw_usage w) = length kept"
    "cu_included_tokens (cw_usage w) = sum_list (map (count_message k \<circ> snd) kept)"
    "cu_dropped_records (cw_usage w) = length gone + length (selected (map Not (keep_flags b ps)) ps)"
    "cu_dropped_tokens (cw_usage w) = sum_list (map (pr_original_tokens \<circ> fst) gone)
      + sum_list (map pr_original_tokens (selected (map Not (keep_flags b ps)) ps))"
    "cu_elided_tokens (cw_usage w) =
      sum_list (map (\<lambda>(c, m). sat_sub (pr_original_tokens c) (count_message k m)) kept)"
    "cu_over_budget (cw_usage w) = over_budget b ps"
proof -
  note spec = collect_kept_spec [where k = k and cms = "kept_pairs rs b k"]
  obtain ms d where d: "drop_orphan_results {} (map pr_message (selected (keep_flags b ps) ps)) = (ms, d)"
    by fastforce
  have kp: "kept_pairs rs b k = zip (selected (keep_flags b ps) ps) ms"
    using d by (simp add: kept_pairs_def ps_def Let_def)
  note defs = w_def kept_def gone_def assemble_def Let_def ps_def [symmetric] d account_dropped_spec
    context_usage_default_def kp [symmetric]
  show "cw_messages w = map snd kept" "cw_records w = map (pr_id \<circ> fst) kept"
    "cu_included_records (cw_usage w) = length kept"
    "cu_included_tokens (cw_usage w) = sum_list (map (count_message k \<circ> snd) kept)"
    "cu_dropped_records (cw_usage w) = length gone + length (selected (map Not (keep_flags b ps)) ps)"
    "cu_dropped_tokens (cw_usage w) = sum_list (map (pr_original_tokens \<circ> fst) gone)
      + sum_list (map pr_original_tokens (selected (map Not (keep_flags b ps)) ps))"
    "cu_elided_tokens (cw_usage w) =
      sum_list (map (\<lambda>(c, m). sat_sub (pr_original_tokens c) (count_message k m)) kept)"
    "cu_over_budget (cw_usage w) = over_budget b ps"
    by (simp_all add: defs spec)
qed

lemma kept_pairs_spec:
  fixes rs b k
  defines "ps \<equiv> map (prepare_record k b) rs"
  shows "map fst (kept_pairs rs b k) = selected (keep_flags b ps) ps"
    "\<forall>(c, m) \<in> set (kept_pairs rs b k). c \<in> set ps \<and> shrunk (pr_message c) m"
    "coherent {} (concat (map (m_content \<circ> snd) (kept_pairs rs b k)))"
proof -
  define sel where "sel = selected (keep_flags b ps) ps"
  obtain ms d where d: "drop_orphan_results {} (map pr_message sel) = (ms, d)" by fastforce
  have kp: "kept_pairs rs b k = zip sel ms"
    using d by (simp add: kept_pairs_def ps_def sel_def Let_def)
  note spec = drop_orphan_results_spec [OF d]
  then have len: "length ms = length sel" by (auto dest: list_all2_lengthD)
  show "map fst (kept_pairs rs b k) = selected (keep_flags b ps) ps"
    by (simp add: kp len sel_def)
  have "set sel \<subseteq> set ps" by (auto simp: sel_def selected_def dest: set_zip_rightD)
  then show "\<forall>(c, m) \<in> set (kept_pairs rs b k). c \<in> set ps \<and> shrunk (pr_message c) m"
    using spec by (auto simp: kp list_all2_iff zip_map1 dest: set_zip_leftD)
  have "map (m_content \<circ> snd) (zip sel ms) = map m_content ms" using len by (simp flip: map_map)
  then show "coherent {} (concat (map (m_content \<circ> snd) (kept_pairs rs b k)))"
    using spec by (simp add: kp)
qed

lemma filter_positions: "filter P xs = map ((!) xs) (filter (\<lambda>i. P (xs ! i)) [0..<length xs])"
proof -
  have "filter P xs = filter P (map ((!) xs) [0..<length xs])" by (simp only: map_nth)
  then show ?thesis by (simp only: filter_map comp_def)
qed

lemma selected_positions:
  "length bs = length xs \<Longrightarrow> selected bs xs = map ((!) xs) (filter (\<lambda>i. bs ! i) [0..<length xs])"
  unfolding selected_def filter_positions [of fst "zip bs xs"]
  by (auto simp: comp_def intro!: map_cong filter_cong)

text \<open>The positions of the records in the window.\<close>

lemma window_positions:
  fixes rs b k
  defines "w \<equiv> assemble rs b k"
  obtains sel j where "sorted_wrt (<) sel" "set sel \<subseteq> {..<length rs}"
    "cw_records w = map (\<lambda>i. r_id (rs ! i)) sel"
    "\<And>i. i \<in> set sel \<Longrightarrow> r_pinned (rs ! i) \<or> j \<le> i"
    "\<And>i. i < length rs \<Longrightarrow> i \<notin> set sel \<Longrightarrow> \<not> r_pinned (rs ! i) \<and> i < j \<or>
       list_all is_tool_result (m_content (pr_message (prepare_record k b (rs ! i))))"
proof -
  define ps where "ps = map (prepare_record k b) rs"
  define flags where "flags = keep_flags b ps"
  define pairs where "pairs = kept_pairs rs b k"
  define is1 where "is1 = filter (\<lambda>i. flags ! i) [0..<length ps]"
  define is2 where "is2 = filter (\<lambda>a. m_content (snd (pairs ! a)) \<noteq> []) [0..<length pairs]"
  note kp = kept_pairs_spec [where rs = rs and b = b and k = k, folded ps_def pairs_def]
  have fstp: "map fst pairs = map ((!) ps) is1"
    using kp(1) by (simp add: is1_def flags_def selected_positions)
  then have len: "length pairs = length is1" by (metis length_map)
  have nth: "fst (pairs ! a) = ps ! (is1 ! a)" if "a < length is1" for a
    using fstp that len by (metis nth_map)
  have s1: "sorted_wrt (<) is1" "set is1 \<subseteq> {..<length rs}"
    by (auto simp: is1_def ps_def sorted_wrt_filter)
  have s2: "sorted_wrt (<) is2" "set is2 \<subseteq> {..<length is1}"
    by (auto simp: is2_def len sorted_wrt_filter)
  define sel where "sel = map ((!) is1) is2"
  have "sorted_wrt (\<lambda>a c. is1 ! a < is1 ! c) is2"
    using s2(1) by (rule sorted_wrt_mono_rel [rotated])
      (use s1(1) s2(2) in \<open>auto intro: sorted_wrt_nth_less\<close>)
  then have "sorted_wrt (<) sel" by (simp add: sel_def sorted_wrt_map)
  moreover have sub: "set sel \<subseteq> set is1" using s2(2) by (auto simp: sel_def subset_iff)
  moreover have "cw_records w = map (\<lambda>i. r_id (rs ! i)) sel"
  proof -
    have "filter (\<lambda>(c, m). m_content m \<noteq> []) pairs = map ((!) pairs) is2"
      unfolding is2_def by (subst filter_positions) (simp add: case_prod_beta)
    then have "cw_records w = map (\<lambda>a. pr_id (fst (pairs ! a))) is2"
      using assemble_parts(2) [of rs b k] by (simp add: w_def pairs_def)
    also have "\<dots> = map (\<lambda>a. r_id (rs ! (is1 ! a))) is2"
    proof (rule map_cong [OF refl])
      fix a assume "a \<in> set is2"
      with s2(2) have "a < length is1" by auto
      moreover from this s1(2) have "is1 ! a < length rs" by (meson lessThan_iff nth_mem subsetD)
      ultimately show "pr_id (fst (pairs ! a)) = r_id (rs ! (is1 ! a))" by (simp add: nth ps_def)
    qed
    finally show ?thesis by (simp add: sel_def)
  qed
  moreover obtain j where j: "\<forall>i < length ps. flags ! i \<longleftrightarrow> pr_pinned (ps ! i) \<or> j \<le> i"
    using keep_flags_newest flags_def by blast
  moreover have "r_pinned (rs ! i) \<or> j \<le> i" if "i \<in> set sel" for i
  proof -
    from that sub have "i \<in> set is1" by auto
    then have "i < length rs" "flags ! i" by (auto simp: is1_def ps_def)
    with j show ?thesis by (auto simp: ps_def)
  qed
  moreover have "\<not> r_pinned (rs ! i) \<and> i < j \<or>
      list_all is_tool_result (m_content (pr_message (prepare_record k b (rs ! i))))"
    if i: "i < length rs" "i \<notin> set sel" for i
  proof (cases "flags ! i")
    case True
    with i have "i \<in> set is1" by (simp add: is1_def ps_def)
    then obtain a where a: "a < length is1" "is1 ! a = i" by (auto simp: in_set_conv_nth)
    with i have "a \<notin> set is2" by (auto simp: sel_def)
    with a len have "m_content (snd (pairs ! a)) = []" by (simp add: is2_def)
    moreover have "shrunk (pr_message (fst (pairs ! a))) (snd (pairs ! a))"
      using kp(2) a len by (metis (no_types, lifting) case_prodD nth_mem prod.collapse)
    ultimately show ?thesis using nth [OF a(1)] a(2) i by (auto simp: shrunk_def ps_def)
  qed (use j i in \<open>auto simp: ps_def\<close>)
  ultimately show thesis using that s1(2) by blast
qed

text \<open>The costs of the selected records, and what the window holds of them.\<close>

lemma counted_prepared:
  assumes "counted k rs" and "c \<in> set (map (prepare_record k b) rs)"
  shows "unat (pr_tokens c) = message_cost k (pr_message c)"
    "message_cost k (pr_message c) \<le> unat (pr_original_tokens c)" "message_cost k (pr_message c) < 2 ^ 64"
proof -
  from assms(2) obtain r where r: "r \<in> set rs" "c = prepare_record k b r" by auto
  note m = counted_member [OF assms(1) r(1)]
  note p = prepare_record_spec [OF m(1,3), of b]
  show "unat (pr_tokens c) = message_cost k (pr_message c)"
    "message_cost k (pr_message c) \<le> unat (pr_original_tokens c)" "message_cost k (pr_message c) < 2 ^ 64"
    using p m by (auto simp: r(2))
qed

lemma counted_prepared_sum:
  assumes "counted k rs"
  shows "sum_list (map (\<lambda>c. unat (pr_tokens c)) (map (prepare_record k b) rs)) < 2 ^ 64"
proof -
  have "sum_list (map (\<lambda>c. unat (pr_tokens c)) (map (prepare_record k b) rs))
      \<le> sum_list (map (\<lambda>r. message_cost k (r_message r)) rs)"
    unfolding map_map
  proof (rule sum_list_mono)
    fix r assume r: "r \<in> set rs"
    show "((\<lambda>c. unat (pr_tokens c)) \<circ> prepare_record k b) r \<le> message_cost k (r_message r)"
      using prepare_record_spec(1,2) [OF counted_member(1,3) [OF assms r], of b] by simp
  qed
  then show ?thesis using assms by (simp add: counted_def)
qed

lemma kept_costs:
  fixes b
  assumes "counted k rs"
  defines "ps \<equiv> map (prepare_record k b) rs"
    and "kept \<equiv> filter (\<lambda>(c, m). m_content m \<noteq> []) (kept_pairs rs b k)"
  shows "sum_list (map (message_cost k \<circ> snd) kept)
      \<le> sum_list (map (\<lambda>c. unat (pr_tokens c)) (selected (keep_flags b ps) ps))"
    and "(c, m) \<in> set kept \<Longrightarrow> unat (count_message k m) = message_cost k m \<and> count_message k m \<le> pr_original_tokens c"
proof -
  have each: "message_cost k m \<le> unat (pr_tokens c) \<and> message_cost k m < 2 ^ 64 \<and>
      message_cost k m \<le> unat (pr_original_tokens c)"
    if "(c, m) \<in> set (kept_pairs rs b k)" for c m
  proof -
    from that kept_pairs_spec(2) [of rs b k] have "c \<in> set ps" "shrunk (pr_message c) m"
      by (auto simp: ps_def)
    with counted_prepared [OF assms(1), of c b] shrunk_cost [of "pr_message c" m k] show ?thesis
      by (simp add: ps_def)
  qed
  show "unat (count_message k m) = message_cost k m \<and> count_message k m \<le> pr_original_tokens c"
    if "(c, m) \<in> set kept"
    using each [of c m] that by (auto simp: kept_def word_le_nat_alt unat_count_message)
  have "sum_list (map (message_cost k \<circ> snd) kept) \<le> sum_list (map (\<lambda>(c, m). unat (pr_tokens c)) kept)"
    using each by (intro sum_list_mono) (auto simp: kept_def)
  also have "\<dots> \<le> sum_list (map (\<lambda>(c, m). unat (pr_tokens c)) (kept_pairs rs b k))"
    unfolding kept_def by (rule sum_list_filter_le_nat)
  also have "\<dots> = sum_list (map (\<lambda>c. unat (pr_tokens c)) (map fst (kept_pairs rs b k)))"
    unfolding map_map comp_def by (rule arg_cong [where f = sum_list]) (simp add: case_prod_unfold)
  finally show "sum_list (map (message_cost k \<circ> snd) kept)
      \<le> sum_list (map (\<lambda>c. unat (pr_tokens c)) (selected (keep_flags b ps) ps))"
    by (simp add: kept_pairs_spec ps_def)
qed

lemma selected_sum_le: "sum_list (map f (selected bs xs)) \<le> sum_list (map f xs)" for f :: "'a \<Rightarrow> nat"
proof (induction xs arbitrary: bs)
  case (Cons x xs)
  from Cons [of "tl bs"] show ?case by (cases bs) auto
qed simp

lemma included_exact:
  assumes "counted k rs"
  shows "unat (cu_included_tokens (cw_usage (assemble rs b k))) =
      sum_list (map (message_cost k) (cw_messages (assemble rs b k)))"
proof -
  define ps where "ps = map (prepare_record k b) rs"
  define kept where "kept = filter (\<lambda>(c, m). m_content m \<noteq> []) (kept_pairs rs b k)"
  note costs = kept_costs [OF assms, where b = b, folded ps_def kept_def]
  have eq: "map unat (map (count_message k \<circ> snd) kept) = map (message_cost k \<circ> snd) kept"
    using costs(2) by auto
  have "sum_list (map (message_cost k \<circ> snd) kept) < 2 ^ 64"
    using costs(1) selected_sum_le [of "\<lambda>c. unat (pr_tokens c)" "keep_flags b ps" ps]
      counted_prepared_sum [OF assms, of b] by (simp add: ps_def)
  then have "unat (sum_list (map (count_message k \<circ> snd) kept)) = sum_list (map (message_cost k \<circ> snd) kept)"
    using unat_sum_list [of "map (count_message k \<circ> snd) kept"] unfolding eq by simp
  then show ?thesis by (simp add: assemble_parts kept_def)
qed

lemma included_within:
  assumes "counted k rs" and "cb_max_tokens b = Some limit"
    and "\<not> cu_over_budget (cw_usage (assemble rs b k))"
  shows "cu_included_tokens (cw_usage (assemble rs b k)) \<le> limit"
proof -
  define ps where "ps = map (prepare_record k b) rs"
  have "pinned_tokens ps \<le> limit"
    using assms(2,3) by (simp add: assemble_parts over_budget_def ps_def not_less)
  from keep_flags_tokens [OF counted_prepared_sum [OF assms(1), of b] assms(2)] this
  have "sum_list (map (\<lambda>c. unat (pr_tokens c)) (selected (keep_flags b ps) ps)) \<le> unat limit"
    by (simp add: ps_def)
  with kept_costs(1) [OF assms(1), of b] included_exact [OF assms(1), of b] show ?thesis
    by (simp add: ps_def assemble_parts word_le_nat_alt)
qed

lemma over_budget_pinned:
  assumes "counted k rs" and "cb_max_tokens b = Some limit" and "cu_over_budget (cw_usage (assemble rs b k))"
  shows "unat limit < sum_list (map (\<lambda>r. unat (r_tokens r)) (filter r_pinned rs))"
proof -
  define pin where "pin = filter r_pinned rs"
  have sel: "filter pr_pinned (map (prepare_record k b) rs) = map (prepare_record k b) pin"
    by (simp add: filter_map pin_def comp_def)
  have "unat limit < unat (pinned_tokens (map (prepare_record k b) rs))"
    using assms(2,3) by (simp add: assemble_parts over_budget_def word_less_nat_alt)
  also have "\<dots> \<le> sum_list (map (\<lambda>r. unat (pr_tokens (prepare_record k b r))) pin)"
  proof -
    have "sum_list (map unat (map (pr_tokens \<circ> prepare_record k b) pin)) < 2 ^ 64"
      using counted_prepared_sum [OF assms(1), of b]
        sum_list_filter_le_nat [of "\<lambda>r. unat (pr_tokens (prepare_record k b r))" r_pinned rs]
      by (simp add: pin_def comp_def)
    then show ?thesis
      using unat_sum_list [of "map (pr_tokens \<circ> prepare_record k b) pin"]
      unfolding pinned_tokens_def sel by (simp add: comp_def)
  qed
  also have "\<dots> \<le> sum_list (map (\<lambda>r. unat (r_tokens r)) pin)"
  proof (rule sum_list_mono)
    fix r assume "r \<in> set pin"
    then have r: "r \<in> set rs" by (simp add: pin_def)
    show "unat (pr_tokens (prepare_record k b r)) \<le> unat (r_tokens r)"
      using prepare_record_spec(1,2) [OF counted_member(1,3) [OF assms(1) r], of b]
        counted_member(2) [OF assms(1) r] by simp
  qed
  finally show ?thesis by (simp add: pin_def)
qed

lemma sum_filter_split:
  fixes f :: "'a \<Rightarrow> 'b::comm_monoid_add"
  shows "sum_list (map f (filter P xs)) + sum_list (map f (filter (\<lambda>x. \<not> P x) xs)) = sum_list (map f xs)"
  by (induction xs) (auto simp: ac_simps)

lemma sum_selected_split:
  fixes f :: "'a \<Rightarrow> 'b::comm_monoid_add"
  shows "length bs = length xs \<Longrightarrow>
    sum_list (map f (selected bs xs)) + sum_list (map f (selected (map Not bs) xs)) = sum_list (map f xs)"
  by (induction bs xs rule: list_induct2) (auto simp: ac_simps)

lemma length_selected_split:
  "length bs = length xs \<Longrightarrow> length (selected bs xs) + length (selected (map Not bs) xs) = length xs"
  by (induction bs xs rule: list_induct2) auto

section \<open>Properties\<close>


text \<open>Nothing is lost from the account of a window: the records in it and the records left out of it
  are the session's records, and the tokens in it, the tokens elided from its messages and the
  tokens left out add up to the tokens of the session.\<close>

theorem window_accounting:
  assumes "counted k rs"
  shows "cu_included_records (cw_usage (assemble rs b k)) = length (cw_messages (assemble rs b k)) \<and>
    length (cw_records (assemble rs b k)) = length (cw_messages (assemble rs b k)) \<and>
    cu_included_records (cw_usage (assemble rs b k)) + cu_dropped_records (cw_usage (assemble rs b k)) = length rs \<and>
    total_tokens (cw_usage (assemble rs b k)) = sum_list (map r_tokens rs)"
proof -
  define ps where "ps = map (prepare_record k b) rs"
  define kept where "kept = filter (\<lambda>(c, m). m_content m \<noteq> []) (kept_pairs rs b k)"
  define gone where "gone = filter (\<lambda>(c, m). m_content m = []) (kept_pairs rs b k)"
  define out where "out = selected (map Not (keep_flags b ps)) ps"
  note parts = assemble_parts [of rs b k, folded ps_def kept_def gone_def out_def]
  have pairs: "gone = filter (\<lambda>x. \<not> (case x of (c, m) \<Rightarrow> m_content m \<noteq> [])) (kept_pairs rs b k)"
    unfolding gone_def by (rule filter_cong) auto
  have fst_pairs: "map fst (kept_pairs rs b k) = selected (keep_flags b ps) ps"
    using kept_pairs_spec(1) by (simp add: ps_def)
  have "length kept + length gone = length (kept_pairs rs b k)"
    unfolding pairs kept_def by (rule sum_length_filter_compl)
  then have lens: "length kept + length gone + length out = length rs"
    using fst_pairs length_selected_split [of "keep_flags b ps" ps]
    by (metis keep_flags_length length_map out_def ps_def)
  let ?orig = "\<lambda>cm. pr_original_tokens (fst cm)"
  have "sum_list (map (\<lambda>cm. count_message k (snd cm) + sat_sub (?orig cm) (count_message k (snd cm))) kept)
      = sum_list (map ?orig kept)"
  proof (rule arg_cong [where f = sum_list], rule map_cong [OF refl])
    fix cm assume "cm \<in> set kept"
    then have "count_message k (snd cm) \<le> ?orig cm"
      using kept_costs(2) [OF assms, of "fst cm" "snd cm" b] by (simp add: kept_def)
    then show "count_message k (snd cm) + sat_sub (?orig cm) (count_message k (snd cm)) = ?orig cm"
      by (simp add: sat_sub_def)
  qed
  then have kept_sum: "cu_included_tokens (cw_usage (assemble rs b k)) + cu_elided_tokens (cw_usage (assemble rs b k))
      = sum_list (map ?orig kept)"
    unfolding parts by (simp add: sum_list_addf case_prod_unfold comp_def)
  have "sum_list (map ?orig kept) + sum_list (map ?orig gone) = sum_list (map pr_original_tokens (selected (keep_flags b ps) ps))"
    unfolding pairs kept_def sum_filter_split fst_pairs [symmetric] by (simp add: comp_def)
  then have "sum_list (map ?orig kept) + (sum_list (map ?orig gone) + sum_list (map pr_original_tokens out))
      = sum_list (map r_tokens rs)"
    using sum_selected_split [of "keep_flags b ps" ps pr_original_tokens]
    by (simp add: out_def ps_def comp_def add.assoc [symmetric])
  then have "total_tokens (cw_usage (assemble rs b k)) = sum_list (map r_tokens rs)"
    unfolding total_tokens_def kept_sum by (simp add: parts(6) out_def comp_def)
  then show ?thesis using lens by (simp add: parts out_def)
qed


section \<open>Witnesses\<close>

text \<open>A counter that counts bytes, and a session of a pinned prompt, a call and its result.\<close>

definition demo_counter :: token_counter where
  "demo_counter = \<lparr>k_text = (\<lambda>t. word_of_nat (length t)), k_json_text = (\<lambda>_. ''{}'')\<rparr>"

definition demo_record :: "string \<Rightarrow> bool \<Rightarrow> role \<Rightarrow> content_part list \<Rightarrow> context_record" where
  "demo_record rid pinned ro content =
     (let m = \<lparr>m_role = ro, m_content = content, m_name = None\<rparr>
      in \<lparr>r_id = rid, r_session = ''s'', r_sequence = 0, r_message = m, r_pinned = pinned,
          r_principal = ''ada'', r_created_at = 0, r_tokens = count_message demo_counter m\<rparr>)"

definition demo_records :: "context_record list" where
  "demo_records =
     [demo_record ''1'' True RoleSystem [TextPart ''hi''],
      demo_record ''2'' False RoleAssistant
        [ToolCallPart \<lparr>tc_call_id = ''c'', tc_name = ''t'', tc_arguments = JNull\<rparr>],
      demo_record ''3'' False RoleTool [ToolResultPart ''c'' (JString ''ok'') False]]"

definition demo_budget :: context_budget where
  "demo_budget = \<lparr>cb_max_tokens = Some 14, cb_max_records = Some 2, cb_max_part_tokens = None\<rparr>"

lemma demo_counted: "counted demo_counter demo_records"
proof -
  have "sum_list (map (\<lambda>r. message_cost demo_counter (r_message r)) demo_records) = 19" by code_simp
  moreover have "list_all (\<lambda>r. r_tokens r = count_message demo_counter (r_message r)) demo_records"
    by (simp add: demo_records_def demo_record_def Let_def)
  ultimately show ?thesis by (simp add: counted_def)
qed


theorem window_accounting_witness:
  "total_tokens (cw_usage (assemble demo_records demo_budget demo_counter)) = 19"
proof -
  have "sum_list (map r_tokens demo_records) = 19" by code_simp
  then show ?thesis using window_accounting [OF demo_counted, of demo_budget] by simp
qed


end
