(* ===== verification/Aik_Context.thy ===== *)
theory Aik_Context
  imports Aik_Window
begin

text \<open>
  The in-memory context store (src/crates/context/src/store.rs) with its ownership rule
  (src/crates/context/src/session.rs) and the cut-off of its retention sweep
  (src/crates/context/src/retention.rs). The clock's reading and the fresh record identifier are
  arguments of the operations that use them.
\<close>

section \<open>State\<close>

record session_state =
  ss_owner :: string
  ss_created_at :: timestamp
  ss_updated_at :: timestamp
  ss_next_sequence :: u64
  ss_tokens :: u64
  ss_records :: "context_record list"
  ss_index :: "(string, nat) hash_map"

record context_store =
  st_sessions :: "(string, session_state) hash_map"
  st_counter :: token_counter
  st_events :: bool
  st_max_records :: nat

definition default_max_records_per_session :: nat where
  "default_max_records_per_session = 10000"

definition store_new :: "token_counter \<Rightarrow> bool \<Rightarrow> nat \<Rightarrow> context_store" where
  "store_new k events max_records =
     \<lparr>st_sessions = [], st_counter = k, st_events = events, st_max_records = max_records\<rparr>"

definition authorize_session :: "string \<Rightarrow> string \<Rightarrow> principal \<Rightarrow> unit result" where
  "authorize_session session owner who =
     (if may_act_for who owner then Inr ()
      else Inl (PermissionDenied (''context session `'' @ session @ ''` belongs to `'' @ owner
             @ ''`, not to `'' @ p_id who @ ''`'')))"

definition full_message :: "string \<Rightarrow> nat \<Rightarrow> error" where
  "full_message session n =
     other (''context session `'' @ session @ ''` is full at '' @ dec n @ '' records; compact or clear it'')"

section \<open>Operations\<close>

definition session_new :: "string \<Rightarrow> timestamp \<Rightarrow> session_state" where
  "session_new owner now =
     \<lparr>ss_owner = owner, ss_created_at = now, ss_updated_at = now, ss_next_sequence = 0, ss_tokens = 0,
      ss_records = [], ss_index = []\<rparr>"

text \<open>The end of \<^verbatim>\<open>append\<close>, once the session is known to have room.\<close>

definition push_record ::
  "token_counter \<Rightarrow> string \<Rightarrow> timestamp \<Rightarrow> string \<Rightarrow> context_entry \<Rightarrow> principal \<Rightarrow> session_state
   \<Rightarrow> context_record \<times> session_state" where
  "push_record k fresh now session entry who ss =
     (let r = \<lparr>r_id = fresh, r_session = session, r_sequence = ss_next_sequence ss,
               r_message = ce_message entry, r_pinned = ce_pinned entry, r_principal = p_id who,
               r_created_at = now, r_tokens = count_message k (ce_message entry)\<rparr>
      in (r, ss\<lparr>ss_next_sequence := ss_next_sequence ss + 1, ss_updated_at := now,
                ss_tokens := ss_tokens ss + r_tokens r,
                ss_index := AList.update fresh (length (ss_records ss)) (ss_index ss),
                ss_records := ss_records ss @ [r]\<rparr>))"

definition append_record ::
  "string \<Rightarrow> timestamp \<Rightarrow> string \<Rightarrow> context_entry \<Rightarrow> execution_context \<Rightarrow> context_store
   \<Rightarrow> context_record result \<times> context_store" where
  "append_record fresh now session entry cx st =
     (let who = principal_or_system cx;
          finish = (\<lambda>ss. case push_record (st_counter st) fresh now session entry who ss of
             (r, ss') \<Rightarrow> (Inr r, st\<lparr>st_sessions := AList.update session ss' (st_sessions st)\<rparr>))
      in case map_of (st_sessions st) session of
           Some ss \<Rightarrow>
             (case authorize_session session (ss_owner ss) who of
                Inl e \<Rightarrow> (Inl e, st)
              | Inr _ \<Rightarrow>
                  if st_max_records st \<le> length (ss_records ss)
                  then (Inl (full_message session (st_max_records st)), st)
                  else finish ss)
         | None \<Rightarrow>
             if st_max_records st = 0 then (Inl (full_message session 0), st)
             else finish (session_new (p_id who) now))"

text \<open>What every operation on an existing session starts with: an absent one gives the default,
  someone else's an error.\<close>

definition with_session ::
  "string \<Rightarrow> execution_context \<Rightarrow> 'a \<Rightarrow> (session_state \<Rightarrow> 'a) \<Rightarrow> context_store \<Rightarrow> 'a result" where
  "with_session session cx absent f st =
     (case map_of (st_sessions st) session of
        None \<Rightarrow> Inr absent
      | Some ss \<Rightarrow>
          (case authorize_session session (ss_owner ss) (principal_or_system cx) of
             Inl e \<Rightarrow> Inl e
           | Inr _ \<Rightarrow> Inr (f ss)))"

definition lookup_record :: "string \<Rightarrow> session_state \<Rightarrow> context_record option" where
  "lookup_record rid ss =
     Option.bind (map_of (ss_index ss) rid)
       (\<lambda>position. if position < length (ss_records ss) then Some (ss_records ss ! position) else None)"

definition get_record ::
  "string \<Rightarrow> string \<Rightarrow> execution_context \<Rightarrow> context_store \<Rightarrow> context_record option result" where
  "get_record session rid cx st = with_session session cx None (lookup_record rid) st"

record context_assembled =
  ev_correlation :: string
  ev_timestamp :: timestamp
  ev_session :: string
  ev_usage :: context_usage

text \<open>The window and the event it publishes, if a bus is configured and the session exists.\<close>

definition store_window ::
  "timestamp \<Rightarrow> string \<Rightarrow> context_budget \<Rightarrow> execution_context \<Rightarrow> context_store
   \<Rightarrow> context_window result \<times> context_assembled option" where
  "store_window now session budget cx st =
     (case with_session session cx None
             (\<lambda>ss. Some (assemble (ss_records ss) budget (st_counter st))) st of
        Inl e \<Rightarrow> (Inl e, None)
      | Inr None \<Rightarrow> (Inr window_empty, None)
      | Inr (Some w) \<Rightarrow>
          (Inr w,
           if st_events st
           then Some \<lparr>ev_correlation = cx_correlation cx, ev_timestamp = now, ev_session = session,
                      ev_usage = cw_usage w\<rparr>
           else None))"

definition stats_of :: "string \<Rightarrow> session_state \<Rightarrow> context_stats" where
  "stats_of session ss =
     \<lparr>cs_session = session, cs_owner = ss_owner ss, cs_records = length (ss_records ss),
      cs_tokens = ss_tokens ss, cs_created_at = ss_created_at ss, cs_updated_at = ss_updated_at ss\<rparr>"

definition store_stats ::
  "string \<Rightarrow> execution_context \<Rightarrow> context_store \<Rightarrow> context_stats option result" where
  "store_stats session cx st = with_session session cx None (\<lambda>ss. Some (stats_of session ss)) st"

definition store_clear ::
  "string \<Rightarrow> execution_context \<Rightarrow> context_store \<Rightarrow> nat result \<times> context_store" where
  "store_clear session cx st =
     (case with_session session cx (0, st)
             (\<lambda>ss. (length (ss_records ss), st\<lparr>st_sessions := AList.delete session (st_sessions st)\<rparr>)) st of
        Inl e \<Rightarrow> (Inl e, st)
      | Inr (removed, st') \<Rightarrow> (Inr removed, st'))"

text \<open>Newest first, and by identifier among equals; the sort is stable.\<close>

definition sort_sessions :: "context_stats list \<Rightarrow> context_stats list" where
  "sort_sessions xs = rev (sort_key cs_updated_at (rev (sort_key cs_session xs)))"

definition list_sessions :: "execution_context \<Rightarrow> context_store \<Rightarrow> context_stats list result" where
  "list_sessions cx st =
     (let who = principal_or_system cx
      in Inr (sort_sessions (map (\<lambda>(session, ss). stats_of session ss)
           (filter (\<lambda>(_, ss). may_act_for who (ss_owner ss)) (st_sessions st)))))"

text \<open>The boundary: the loop over the flags from the last to the first.\<close>

fun boundary_back :: "nat \<Rightarrow> bool list \<Rightarrow> nat \<Rightarrow> nat" where
  "boundary_back keep [] seen = 0"
| "boundary_back keep (pinned # rest) seen =
     (if pinned then boundary_back keep rest seen
      else if keep < seen + 1 then length rest + 1
      else boundary_back keep rest (seen + 1))"

definition compaction_boundary :: "bool list \<Rightarrow> nat \<Rightarrow> nat" where
  "compaction_boundary flags keep = boundary_back keep (rev flags) 0"

text \<open>The loop of \<^verbatim>\<open>compact\<close> over positions and records.\<close>

fun compact_loop ::
  "nat \<Rightarrow> nat \<Rightarrow> context_record list \<Rightarrow> context_record list \<times> nat \<times> u64" where
  "compact_loop boundary position [] = ([], 0, 0)"
| "compact_loop boundary position (r # rs) =
     (case compact_loop boundary (position + 1) rs of
        (kept, removed, reclaimed) \<Rightarrow>
          if position < boundary \<and> \<not> r_pinned r then (kept, removed + 1, reclaimed + r_tokens r)
          else (r # kept, removed, reclaimed))"

definition index_of :: "context_record list \<Rightarrow> (string, nat) hash_map" where
  "index_of rs = fold (\<lambda>(position, r). AList.update (r_id r) position) (zip [0..<length rs] rs) []"

definition compact_session :: "nat \<Rightarrow> session_state \<Rightarrow> nat \<times> session_state" where
  "compact_session keep ss =
     (let boundary = compaction_boundary (map r_pinned (ss_records ss)) keep
      in if boundary = 0 then (0, ss)
         else case compact_loop boundary 0 (ss_records ss) of
                (kept, removed, reclaimed) \<Rightarrow>
                  (removed, ss\<lparr>ss_records := kept, ss_tokens := sat_sub (ss_tokens ss) reclaimed,
                               ss_index := index_of kept\<rparr>))"

definition store_compact ::
  "string \<Rightarrow> nat \<Rightarrow> execution_context \<Rightarrow> context_store \<Rightarrow> nat result \<times> context_store" where
  "store_compact session keep cx st =
     (case with_session session cx (0, st)
             (\<lambda>ss. case compact_session keep ss of
                (removed, ss') \<Rightarrow>
                  (removed, st\<lparr>st_sessions := AList.update session ss' (st_sessions st)\<rparr>)) st of
        Inl e \<Rightarrow> (Inl e, st)
      | Inr (removed, st') \<Rightarrow> (Inr removed, st'))"

definition sweep_stale :: "timestamp \<Rightarrow> context_store \<Rightarrow> nat \<times> context_store" where
  "sweep_stale cutoff st =
     (let kept = filter (\<lambda>(_, ss). cutoff < ss_updated_at ss) (st_sessions st)
      in (length (st_sessions st) - length kept, st\<lparr>st_sessions := kept\<rparr>))"

definition retention_cutoff :: "timestamp \<Rightarrow> duration \<Rightarrow> timestamp" where
  "retention_cutoff now retention = sat_sub now (u64_try_from (as_millis retention))"

section \<open>The invariant of a session\<close>

definition session_inv :: "token_counter \<Rightarrow> nat \<Rightarrow> string \<Rightarrow> session_state \<Rightarrow> bool" where
  "session_inv k most sid ss \<longleftrightarrow>
     length (ss_records ss) \<le> most \<and>
     list_all (\<lambda>r. r_session r = sid \<and> r_tokens r = count_message k (r_message r) \<and>
       message_cost k (r_message r) < 2 ^ 64 \<and> r_sequence r < ss_next_sequence ss) (ss_records ss) \<and>
     sorted_wrt (<) (map r_sequence (ss_records ss)) \<and>
     distinct (map r_id (ss_records ss)) \<and>
     map_of (ss_index ss) = map_of (zip (map r_id (ss_records ss)) [0..<length (ss_records ss)]) \<and>
     unat (ss_tokens ss) = sum_list (map (\<lambda>r. unat (r_tokens r)) (ss_records ss))"

definition store_inv :: "context_store \<Rightarrow> bool" where
  "store_inv st \<longleftrightarrow> hm_inv (st_sessions st) \<and>
     (\<forall>sid ss. map_of (st_sessions st) sid = Some ss \<longrightarrow>
        session_inv (st_counter st) (st_max_records st) sid ss)"

text \<open>What an append needs so that no counter wraps and the identifier is new.\<close>

definition append_fits :: "string \<Rightarrow> string \<Rightarrow> context_entry \<Rightarrow> context_store \<Rightarrow> bool" where
  "append_fits fresh session entry st =
     (case map_of (st_sessions st) session of
        None \<Rightarrow> message_cost (st_counter st) (ce_message entry) < 2 ^ 64
      | Some ss \<Rightarrow> fresh \<notin> r_id ` set (ss_records ss) \<and> ss_next_sequence ss \<noteq> - 1 \<and>
          unat (ss_tokens ss) + message_cost (st_counter st) (ce_message entry) < 2 ^ 64)"

lemma word_less_Suc: "(a::u64) \<le> b \<Longrightarrow> b \<noteq> - 1 \<Longrightarrow> a < b + 1"
  by (simp add: word_less_nat_alt word_le_nat_alt unat_plus_one)

lemma session_inv_new [simp]: "session_inv k most sid (session_new owner now)"
  by (simp add: session_inv_def session_new_def)

lemma push_record_inv:
  assumes "session_inv k most sid ss" "length (ss_records ss) < most"
    and "fresh \<notin> r_id ` set (ss_records ss)" "ss_next_sequence ss \<noteq> - 1"
    and "unat (ss_tokens ss) + message_cost k (ce_message entry) < 2 ^ 64"
    and "push_record k fresh now sid entry who ss = (r, ss')"
  shows "session_inv k most sid ss'"
proof -
  have zip: "zip (map r_id rs @ [fresh]) [0..<Suc (length rs)] =
      zip (map r_id rs) [0..<length rs] @ [(fresh, length rs)]" for rs by simp
  let ?ids = "map r_id (ss_records ss)" and ?n = "length (ss_records ss)"
  have none: "map_of (zip ?ids [0..<?n]) fresh = None"
    using assms(3) by (simp add: map_of_zip_is_None)
  have upd: "map_of (zip (?ids @ [fresh]) [0..<Suc ?n]) = (map_of (zip ?ids [0..<?n]))(fresh \<mapsto> ?n)"
    using map_add_upd_left [of fresh "map_of (zip ?ids [0..<?n])" Map.empty ?n] none
    unfolding zip map_of_append by (simp add: dom_def)
  have cost: "unat (count_message k (ce_message entry)) = message_cost k (ce_message entry)"
    using assms(5) by (intro unat_count_message) simp
  show ?thesis
    using assms cost unfolding session_inv_def push_record_def Let_def
    by (auto simp: upd update_conv' sorted_wrt_append unat_word_ariths word_less_Suc list_all_iff
        less_imp_le simp del: upt_Suc)
qed

lemma compact_loop_spec:
  "compact_loop boundary p rs = (kept, removed, reclaimed) \<Longrightarrow>
   subseq kept rs \<and> length kept + removed = length rs \<and>
   filter r_pinned kept = filter r_pinned rs \<and>
   filter (\<lambda>r. \<not> r_pinned r) kept = filter (\<lambda>r. \<not> r_pinned r) (drop (boundary - p) rs) \<and>
   sum_list (map r_tokens kept) + reclaimed = sum_list (map r_tokens rs)"
proof (induction boundary p rs arbitrary: kept removed reclaimed rule: compact_loop.induct)
  case (2 boundary p r rs)
  obtain kept1 removed1 reclaimed1
    where r1: "compact_loop boundary (p + 1) rs = (kept1, removed1, reclaimed1)" by (metis prod_cases3)
  note IH = 2(1) [OF r1]
  show ?case
  proof (cases "p < boundary")
    case True
    then have "drop (boundary - p) (r # rs) = drop (boundary - Suc p) rs"
      by (simp add: drop_Cons' Suc_diff_Suc)
    then show ?thesis using IH 2(2) r1 True by (auto simp: ac_simps split: if_splits)
  next
    case False
    then show ?thesis using IH 2(2) r1 by (auto simp: ac_simps split: if_splits)
  qed
qed simp

text \<open>The boundary leaves exactly the newest \<open>keep\<close> of the flags that are not set.\<close>

lemma boundary_back_spec:
  "seen \<le> keep \<Longrightarrow>
   let j = boundary_back keep flags seen in
   j \<le> length flags \<and> length (filter Not (take (length flags - j) flags)) = 
     min (keep - seen) (length (filter Not flags)) \<and> (j = 0 \<longleftrightarrow> length (filter Not flags) \<le> keep - seen)"
proof (induction keep flags seen rule: boundary_back.induct)
  case (2 keep pinned rest seen)
  show ?case
  proof (cases pinned)
    case True
    with 2(1) [OF True 2(3)] show ?thesis by (auto simp: Let_def Suc_diff_le)
  next
    case False
    show ?thesis
    proof (cases "keep < seen + 1")
      case True
      with 2(3) False show ?thesis by (simp add: Let_def)
    next
      case less: False
      with 2(2) [OF False less] False show ?thesis by (auto simp: Let_def Suc_diff_le Suc_diff_Suc min_def)
    qed
  qed
qed simp

lemma fold_update:
  "distinct (map (\<lambda>(p, r). f r) xs) \<Longrightarrow>
   map_of (fold (\<lambda>(p, r). AList.update (f r) p) xs m) = map_of m ++ map_of (map (\<lambda>(p, r). (f r, p)) xs)"
proof (induction xs arbitrary: m)
  case (Cons x xs)
  obtain p r where x: "x = (p, r)" by (cases x)
  have "f r \<notin> dom (map_of (map (\<lambda>(p, r). (f r, p)) xs))"
    using Cons.prems by (simp add: x dom_map_of_conv_image_fst image_image case_prod_unfold)
  then show ?case using Cons
    by (auto simp: x update_conv' fun_eq_iff map_add_def domIff split: option.splits)
qed simp

lemma map_of_index_of:
  assumes "distinct (map r_id rs)"
  shows "map_of (index_of rs) = map_of (zip (map r_id rs) [0..<length rs])"
proof -
  have "map (\<lambda>(p, r). r_id r) (zip [0..<length rs] rs) = map r_id rs"
    by (rule nth_equalityI) simp_all
  moreover have "map (\<lambda>(p, r). (r_id r, p)) (zip [0..<length rs] rs) = zip (map r_id rs) [0..<length rs]"
    by (rule nth_equalityI) simp_all
  ultimately show ?thesis
    using fold_update [of r_id "zip [0..<length rs] rs" "[]"] assms by (simp add: index_of_def)
qed

lemma subseq_sorted_wrt: "subseq xs ys \<Longrightarrow> sorted_wrt P ys \<Longrightarrow> sorted_wrt P xs"
proof (induction rule: list_emb.induct)
  case (list_emb_Cons2 x y xs ys)
  then show ?case by (auto dest: list_emb_set)
qed auto

lemma subseq_distinct: "subseq xs ys \<Longrightarrow> distinct ys \<Longrightarrow> distinct xs"
proof (induction rule: list_emb.induct)
  case (list_emb_Cons2 x y xs ys)
  then show ?case by (auto dest: list_emb_set)
qed auto

text \<open>What compaction leaves: every pinned record and the newest \<open>keep\<close> of the others.\<close>

lemma compact_session_spec:
  assumes "compact_session keep ss = (removed, ss')"
  shows "subseq (ss_records ss') (ss_records ss)"
    and "length (ss_records ss') + removed = length (ss_records ss)"
    and "filter r_pinned (ss_records ss') = filter r_pinned (ss_records ss)"
    and "filter (\<lambda>r. \<not> r_pinned r) (ss_records ss') =
      drop (length (filter (\<lambda>r. \<not> r_pinned r) (ss_records ss)) - keep)
        (filter (\<lambda>r. \<not> r_pinned r) (ss_records ss))"
proof -
  define rs where "rs = ss_records ss"
  define j where "j = compaction_boundary (map r_pinned rs) keep"
  let ?un = "filter (\<lambda>r. \<not> r_pinned r)"
  obtain kept n t where loop: "compact_loop j 0 rs = (kept, n, t)" by (metis prod_cases3)
  note spec = compact_loop_spec [OF loop]
  have cnt: "length (filter Not (map r_pinned xs)) = length (?un xs)" for xs
    by (simp add: filter_map comp_def)
  have j: "j \<le> length rs" "length (?un (drop j rs)) = min keep (length (?un rs))"
    "j = 0 \<longleftrightarrow> length (?un rs) \<le> keep"
  proof -
    have jb: "boundary_back keep (rev (map r_pinned rs)) 0 = j" by (simp add: j_def compaction_boundary_def)
    note B = boundary_back_spec [of 0 keep "rev (map r_pinned rs)", unfolded jb Let_def]
    then show le: "j \<le> length rs" by simp
    have "take (length rs - j) (rev (map r_pinned rs)) = rev (map r_pinned (drop j rs))"
      using le by (simp add: take_rev drop_map)
    then show "length (?un (drop j rs)) = min keep (length (?un rs))" "j = 0 \<longleftrightarrow> length (?un rs) \<le> keep"
      using B by (simp_all add: rev_filter [symmetric] cnt [unfolded comp_def] filter_map comp_def)
  qed
  have un: "?un (drop j rs) = drop (length (?un rs) - keep) (?un rs)"
  proof -
    have app: "?un rs = ?un (take j rs) @ ?un (drop j rs)" by (metis append_take_drop_id filter_append)
    then have "length (?un rs) = length (?un (take j rs)) + length (?un (drop j rs))"
      by (metis length_append)
    then have "length (?un rs) - keep = length (?un (take j rs))"
      using j(2) by (simp add: min_def split: if_splits)
    then have "drop (length (?un rs) - keep) (?un rs) = drop (length (?un (take j rs))) (?un (take j rs) @ ?un (drop j rs))"
      using app by simp
    then show ?thesis by simp
  qed
  have "ss_records ss' = (if j = 0 then rs else kept)" "removed = (if j = 0 then 0 else n)"
    using assms loop by (auto simp: compact_session_def rs_def j_def Let_def split: if_splits)
  then show "subseq (ss_records ss') (ss_records ss)"
    "length (ss_records ss') + removed = length (ss_records ss)"
    "filter r_pinned (ss_records ss') = filter r_pinned (ss_records ss)"
    "?un (ss_records ss') = drop (length (?un (ss_records ss)) - keep) (?un (ss_records ss))"
    using spec un j(3) by (auto simp: rs_def)
qed

lemma compact_session_inv:
  assumes "session_inv k most sid ss" and "compact_session keep ss = (removed, ss')"
  shows "session_inv k most sid ss'"
proof (cases "compaction_boundary (map r_pinned (ss_records ss)) keep = 0")
  case True
  then show ?thesis using assms by (simp add: compact_session_def)
next
  case False
  then obtain kept n t where loop: "compact_loop (compaction_boundary (map r_pinned (ss_records ss)) keep) 0
      (ss_records ss) = (kept, n, t)" by (metis prod_cases3)
  note spec = compact_loop_spec [OF loop]
  have ss': "ss' = ss\<lparr>ss_records := kept, ss_tokens := sat_sub (ss_tokens ss) t, ss_index := index_of kept\<rparr>"
    using assms(2) False loop by (simp add: compact_session_def Let_def)
  have sub: "subseq kept (ss_records ss)" using spec by simp
  then have subset: "set kept \<subseteq> set (ss_records ss)" by (auto dest: list_emb_set)
  have le: "sum_list (map (\<lambda>r. unat (r_tokens r)) kept) \<le> unat (ss_tokens ss)"
    using sum_list_subseq [OF sub, of "\<lambda>r. unat (r_tokens r)"] assms(1) by (simp add: session_inv_def)
  then have "sum_list (map unat (map r_tokens kept)) < 2 ^ LENGTH(64)"
    using unat_less_pow [of "ss_tokens ss"] by (simp add: comp_def)
  from unat_sum_list [OF this] have kept_sum: "unat (sum_list (map r_tokens kept)) = sum_list (map (\<lambda>r. unat (r_tokens r)) kept)"
    by (simp add: comp_def)
  have total: "ss_tokens ss = sum_list (map r_tokens (ss_records ss))"
  proof -
    have "sum_list (map unat (map r_tokens (ss_records ss))) < 2 ^ LENGTH(64)"
      using assms(1) unat_less_pow [of "ss_tokens ss"] by (simp add: session_inv_def comp_def)
    from unat_sum_list [OF this] show ?thesis
      using assms(1) by (simp add: session_inv_def comp_def word_unat_eq_iff)
  qed
  have "t = ss_tokens ss - sum_list (map r_tokens kept)" using spec by (simp add: total algebra_simps)
  then have "unat t = unat (ss_tokens ss) - unat (sum_list (map r_tokens kept))"
    using le by (simp add: unat_sub word_le_nat_alt kept_sum)
  then have "unat (sat_sub (ss_tokens ss) t) = sum_list (map (\<lambda>r. unat (r_tokens r)) kept)"
    using le by (simp add: unat_sat kept_sum)
  moreover have "distinct (map r_id kept)"
    using subseq_map [OF sub, of r_id] assms(1) by (auto simp: session_inv_def intro: subseq_distinct)
  moreover have "sorted_wrt (<) (map r_sequence kept)"
    using subseq_sorted_wrt [OF subseq_map [OF sub]] assms(1) by (auto simp: session_inv_def)
  ultimately show ?thesis
    using assms(1) subset spec by (auto simp: session_inv_def ss' map_of_index_of list_all_iff)
qed

section \<open>Runs of the store\<close>

inductive store_reachable :: "token_counter \<Rightarrow> bool \<Rightarrow> nat \<Rightarrow> context_store \<Rightarrow> bool"
  for k events most where
  reach_new: "store_reachable k events most (store_new k events most)"
| reach_append: "store_reachable k events most st \<Longrightarrow> append_fits fresh session entry st \<Longrightarrow>
    append_record fresh now session entry cx st = (res, st') \<Longrightarrow> store_reachable k events most st'"
| reach_clear: "store_reachable k events most st \<Longrightarrow> store_clear session cx st = (res, st') \<Longrightarrow>
    store_reachable k events most st'"
| reach_compact: "store_reachable k events most st \<Longrightarrow> store_compact session keep cx st = (res, st') \<Longrightarrow>
    store_reachable k events most st'"
| reach_sweep: "store_reachable k events most st \<Longrightarrow> sweep_stale cutoff st = (n, st') \<Longrightarrow>
    store_reachable k events most st'"

lemma append_record_cases:
  assumes "append_record fresh now session entry cx st = (res, st')"
  obtains (refused) e where "res = Inl e" "st' = st"
  | (pushed) r ss ss' where "res = Inr r" "length (ss_records ss) < st_max_records st"
      "push_record (st_counter st) fresh now session entry (principal_or_system cx) ss = (r, ss')"
      "map_of (st_sessions st) session = Some ss \<and> may_act_for (principal_or_system cx) (ss_owner ss) \<or>
       map_of (st_sessions st) session = None \<and> ss = session_new (p_id (principal_or_system cx)) now"
      "st' = st\<lparr>st_sessions := AList.update session ss' (st_sessions st)\<rparr>"
  using assms
  by (auto simp: append_record_def authorize_session_def session_new_def Let_def not_le
      split: option.splits if_splits prod.splits)

lemma store_inv_update:
  assumes "store_inv st" and "session_inv (st_counter st) (st_max_records st) session ss"
  shows "store_inv (st\<lparr>st_sessions := AList.update session ss (st_sessions st)\<rparr>)"
  using assms by (auto simp: store_inv_def update_conv' distinct_update)

lemma append_record_inv:
  assumes "store_inv st" and "append_fits fresh session entry st"
    and "append_record fresh now session entry cx st = (res, st')"
  shows "store_inv st'"
  using assms(3)
proof (cases rule: append_record_cases)
  case (pushed r ss ss')
  have inv: "session_inv (st_counter st) (st_max_records st) session ss"
    using pushed(4) assms(1) by (auto simp: store_inv_def)
  have fits: "fresh \<notin> r_id ` set (ss_records ss)" "ss_next_sequence ss \<noteq> - 1"
    "unat (ss_tokens ss) + message_cost (st_counter st) (ce_message entry) < 2 ^ 64"
    using pushed(4) assms(2)
    by (auto simp: append_fits_def session_new_def)
  show ?thesis
    unfolding pushed(5) using push_record_inv [OF inv pushed(2) fits pushed(3)]
    by (rule store_inv_update [OF assms(1)])
qed (use assms(1) in simp)

lemma store_compact_cases:
  assumes "store_compact session keep cx st = (res, st')"
  obtains (unchanged) "st' = st"
  | (compacted) ss removed ss' where "map_of (st_sessions st) session = Some ss"
      "may_act_for (principal_or_system cx) (ss_owner ss)" "compact_session keep ss = (removed, ss')"
      "res = Inr removed" "st' = st\<lparr>st_sessions := AList.update session ss' (st_sessions st)\<rparr>"
  using assms
  by (auto simp: store_compact_def with_session_def authorize_session_def
      split: option.splits prod.splits if_splits)

lemma store_compact_inv:
  assumes "store_inv st" and "store_compact session keep cx st = (res, st')"
  shows "store_inv st'"
  using assms(2)
proof (cases rule: store_compact_cases)
  case (compacted ss removed ss')
  have "session_inv (st_counter st) (st_max_records st) session ss"
    using assms(1) compacted(1) by (simp add: store_inv_def)
  from store_inv_update [OF assms(1) compact_session_inv [OF this compacted(3)]]
  show ?thesis unfolding compacted(5) .
qed (use assms(1) in simp)

lemma store_clear_inv:
  "store_inv st \<Longrightarrow> store_clear session cx st = (res, st') \<Longrightarrow> store_inv st'"
  by (auto simp: store_clear_def with_session_def store_inv_def delete_conv' distinct_delete
      split: option.splits sum.splits prod.splits if_splits)

lemma map_of_filter_distinct:
  "distinct (map fst m) \<Longrightarrow> map_of (filter P m) k = Some v \<Longrightarrow> map_of m k = Some v \<and> P (k, v)"
  using map_of_SomeD [of "filter P m" k v] by (auto simp: distinct_map_filter)

lemma sweep_stale_inv: "store_inv st \<Longrightarrow> sweep_stale cutoff st = (n, st') \<Longrightarrow> store_inv st'"
  by (auto simp: sweep_stale_def store_inv_def Let_def distinct_map_filter dest: map_of_filter_distinct)

lemma store_frame:
  "append_record fresh now session entry cx st = (r1, st1) \<Longrightarrow>
     st_counter st1 = st_counter st \<and> st_max_records st1 = st_max_records st"
  "store_clear session cx st = (r2, st2) \<Longrightarrow>
     st_counter st2 = st_counter st \<and> st_max_records st2 = st_max_records st"
  "store_compact session keep cx st = (r3, st3) \<Longrightarrow>
     st_counter st3 = st_counter st \<and> st_max_records st3 = st_max_records st"
  "sweep_stale cutoff st = (r4, st4) \<Longrightarrow>
     st_counter st4 = st_counter st \<and> st_max_records st4 = st_max_records st"
  by (auto simp: append_record_def store_clear_def store_compact_def sweep_stale_def with_session_def Let_def
      split: option.splits sum.splits prod.splits if_splits)

lemma store_reachable_inv:
  "store_reachable k events most st \<Longrightarrow> store_inv st \<and> st_counter st = k \<and> st_max_records st = most"
proof (induction rule: store_reachable.induct)
  case reach_new
  show ?case by (simp add: store_inv_def store_new_def)
qed (auto dest: store_frame append_record_inv store_clear_inv store_compact_inv sweep_stale_inv)

lemma lookup_record_iff:
  assumes "session_inv k most sid ss"
  shows "lookup_record rid ss = Some r \<longleftrightarrow> r \<in> set (ss_records ss) \<and> r_id r = rid"
proof -
  let ?ids = "map r_id (ss_records ss)" and ?n = "length (ss_records ss)"
  have idx: "map_of (ss_index ss) = map_of (zip ?ids [0..<?n])" and dist: "distinct ?ids"
    using assms by (auto simp: session_inv_def)
  have some: "map_of (ss_index ss) rid = Some p \<longleftrightarrow> p < ?n \<and> r_id (ss_records ss ! p) = rid" for p
    unfolding idx using dist
    by (subst map_of_eq_Some_iff) (auto simp: in_set_zip intro!: exI [of _ p])
  show ?thesis
  proof
    assume "lookup_record rid ss = Some r"
    then obtain p where "map_of (ss_index ss) rid = Some p" "p < ?n" "r = ss_records ss ! p"
      by (cases "map_of (ss_index ss) rid") (simp_all add: lookup_record_def split: if_splits)
    with some [of p] show "r \<in> set (ss_records ss) \<and> r_id r = rid" by simp
  next
    assume r: "r \<in> set (ss_records ss) \<and> r_id r = rid"
    then obtain p where "p < ?n" "ss_records ss ! p = r" by (auto simp: in_set_conv_nth)
    then show "lookup_record rid ss = Some r" using some [of p] r by (simp add: lookup_record_def)
  qed
qed

lemma session_inv_counted:
  assumes "session_inv k most sid ss"
  shows "counted k (ss_records ss)"
proof -
  have "map (\<lambda>r. unat (r_tokens r)) (ss_records ss) = map (\<lambda>r. message_cost k (r_message r)) (ss_records ss)"
    using assms by (auto simp: session_inv_def list_all_iff unat_count_message)
  then have "sum_list (map (\<lambda>r. message_cost k (r_message r)) (ss_records ss)) = unat (ss_tokens ss)"
    using assms unfolding session_inv_def by metis
  then show ?thesis
    using assms unat_less_pow [of "ss_tokens ss"] by (simp add: counted_def session_inv_def list_all_iff)
qed

text \<open>The other sessions are not touched.\<close>

lemma store_others:
  assumes "other_session \<noteq> session"
  shows "append_record fresh now session entry cx st = (r1, st1) \<Longrightarrow>
      map_of (st_sessions st1) other_session = map_of (st_sessions st) other_session"
    "store_clear session cx st = (r2, st2) \<Longrightarrow>
      map_of (st_sessions st2) other_session = map_of (st_sessions st) other_session"
    "store_compact session keep cx st = (r2, st2) \<Longrightarrow>
      map_of (st_sessions st2) other_session = map_of (st_sessions st) other_session"
proof -
  show "map_of (st_sessions st1) other_session = map_of (st_sessions st) other_session"
    if "append_record fresh now session entry cx st = (r1, st1)"
    using that by (cases rule: append_record_cases) (use assms in \<open>auto simp: update_conv'\<close>)
  show "map_of (st_sessions st2) other_session = map_of (st_sessions st) other_session"
    if "store_compact session keep cx st = (r2, st2)"
    using that by (cases rule: store_compact_cases) (use assms in \<open>auto simp: update_conv'\<close>)
  show "map_of (st_sessions st2) other_session = map_of (st_sessions st) other_session"
    if "store_clear session cx st = (r2, st2)"
    using that assms
    by (auto simp: store_clear_def with_session_def delete_conv' split: option.splits sum.splits)
qed

section \<open>The store as a log of messages\<close>

text \<open>What the agent relies on in a context store: an append either fails and changes nothing, or
  adds its message at the end of its session's log; no other log changes.\<close>

locale message_log =
  fixes add :: "string \<Rightarrow> context_entry \<Rightarrow> execution_context \<Rightarrow> 'c \<Rightarrow> context_record result \<times> 'c"
    and log :: "'c \<Rightarrow> string \<Rightarrow> message list"
  assumes add_ok: "add s entry cx c = (Inr r, c') \<Longrightarrow> log c' s = log c s @ [ce_message entry]"
    and add_failed: "add s entry cx c = (Inl e, c') \<Longrightarrow> log c' = log c"
    and add_other: "add s entry cx c = (res, c') \<Longrightarrow> s' \<noteq> s \<Longrightarrow> log c' s' = log c s'"
begin

lemma add_extends: "add s entry cx c = (res, c') \<Longrightarrow> \<exists>ms. log c' s' = log c s' @ ms"
  by (cases res; cases "s' = s") (auto dest: add_ok add_failed add_other)

end

text \<open>The in-memory store, with a supply of identifiers and of clock readings counted along.\<close>

type_synonym supplied_store = "nat \<times> context_store"

definition supplied_append ::
  "(nat \<Rightarrow> string) \<Rightarrow> (nat \<Rightarrow> timestamp) \<Rightarrow> string \<Rightarrow> context_entry \<Rightarrow> execution_context \<Rightarrow> supplied_store
   \<Rightarrow> context_record result \<times> supplied_store" where
  "supplied_append ids clock session entry cx c =
     (case c of (n, st) \<Rightarrow>
        case append_record (ids n) (clock n) session entry cx st of (res, st') \<Rightarrow> (res, (Suc n, st')))"

definition messages_of :: "supplied_store \<Rightarrow> string \<Rightarrow> message list" where
  "messages_of c session =
     (case map_of (st_sessions (snd c)) session of None \<Rightarrow> [] | Some ss \<Rightarrow> map r_message (ss_records ss))"

lemma supplied_append_cases:
  assumes "supplied_append ids clock s entry cx c = (res, c')"
  obtains "append_record (ids (fst c)) (clock (fst c)) s entry cx (snd c) = (res, snd c')" "fst c' = Suc (fst c)"
  using assms by (auto simp: supplied_append_def split: prod.splits)

interpretation memory_log: message_log "supplied_append ids clock" messages_of for ids clock
proof
  show "messages_of c' s = messages_of c s @ [ce_message entry]"
    if "supplied_append ids clock s entry cx c = (Inr r, c')" for s entry cx c r c'
    using that
  proof (cases rule: supplied_append_cases)
    case 1
    then show ?thesis
      by (cases rule: append_record_cases)
         (auto simp: messages_of_def update_conv' push_record_def session_new_def Let_def)
  qed
  show "messages_of c' = messages_of c"
    if "supplied_append ids clock s entry cx c = (Inl e, c')" for s entry cx c e c'
    using that
  proof (cases rule: supplied_append_cases)
    case 1
    then show ?thesis by (cases rule: append_record_cases) (auto simp: messages_of_def fun_eq_iff)
  qed
  show "messages_of c' s' = messages_of c s'"
    if "supplied_append ids clock s entry cx c = (res, c')" "s' \<noteq> s" for s entry cx c res c' s'
    using that(1)
  proof (cases rule: supplied_append_cases)
    case 1
    from store_others(1) [OF that(2) 1(1)] show ?thesis by (simp add: messages_of_def)
  qed
qed

section \<open>Properties\<close>

text \<open>C23. However the store was used, each of its sessions is sound: it holds no more records than
  allowed, in the order of their sequence numbers; its token total is the sum of its records'
  counts, each the counter's; looking a record up by its identifier finds exactly the records it
  holds; so the guarantees on windows apply to it.\<close>

theorem store_invariant:
  assumes "store_reachable k events most st" and "map_of (st_sessions st) session = Some ss"
  shows "length (ss_records ss) \<le> most \<and> sorted_wrt (<) (map r_sequence (ss_records ss)) \<and>
    unat (ss_tokens ss) = sum_list (map (\<lambda>r. message_cost k (r_message r)) (ss_records ss)) \<and>
    counted k (ss_records ss) \<and>
    (lookup_record rid ss = Some r \<longleftrightarrow> r \<in> set (ss_records ss) \<and> r_id r = rid)"
proof -
  have inv: "session_inv k most session ss" using store_reachable_inv [OF assms(1)] assms(2) by (auto simp: store_inv_def)
  have "map (\<lambda>r. unat (r_tokens r)) (ss_records ss) = map (\<lambda>r. message_cost k (r_message r)) (ss_records ss)"
    using counted_member(2) [OF session_inv_counted [OF inv]] by simp
  then have "unat (ss_tokens ss) = sum_list (map (\<lambda>r. message_cost k (r_message r)) (ss_records ss))"
    using inv unfolding session_inv_def by metis
  then show ?thesis
    using lookup_record_iff [OF inv] session_inv_counted [OF inv] inv by (simp add: session_inv_def)
qed

text \<open>C24. A session is its owner's: for anyone who may not act for the owner every operation on it is
  refused and changes nothing, and it is not listed; and whoever uses a session, no other session
  changes.\<close>

theorem store_isolated:
  assumes "store_reachable k events most st" and "map_of (st_sessions st) session = Some ss"
    and "\<not> may_act_for (principal_or_system cx) (ss_owner ss)"
  shows "(\<exists>reason. let e = PermissionDenied reason in
      append_record fresh now session entry cx st = (Inl e, st) \<and> get_record session rid cx st = Inl e \<and>
      store_window now session budget cx st = (Inl e, None) \<and> store_stats session cx st = Inl e \<and>
      store_clear session cx st = (Inl e, st) \<and> store_compact session keep cx st = (Inl e, st)) \<and>
    (case list_sessions cx st of Inl _ \<Rightarrow> True | Inr listed \<Rightarrow> session \<notin> cs_session ` set listed) \<and>
    (\<forall>sid cx'. sid \<noteq> session \<longrightarrow>
      map_of (st_sessions (snd (append_record fresh now sid entry cx' st))) session = Some ss \<and>
      map_of (st_sessions (snd (store_clear sid cx' st))) session = Some ss \<and>
      map_of (st_sessions (snd (store_compact sid keep cx' st))) session = Some ss)"
proof (intro conjI allI impI)
  let ?e = "PermissionDenied (''context session `'' @ session @ ''` belongs to `'' @ ss_owner ss
             @ ''`, not to `'' @ p_id (principal_or_system cx) @ ''`'')"
  have "authorize_session session (ss_owner ss) (principal_or_system cx) = Inl ?e"
    using assms(3) by (simp add: authorize_session_def)
  then show "\<exists>reason. let e = PermissionDenied reason in
      append_record fresh now session entry cx st = (Inl e, st) \<and> get_record session rid cx st = Inl e \<and>
      store_window now session budget cx st = (Inl e, None) \<and> store_stats session cx st = Inl e \<and>
      store_clear session cx st = (Inl e, st) \<and> store_compact session keep cx st = (Inl e, st)"
    using assms(2)
    by (simp add: Let_def append_record_def get_record_def store_window_def store_stats_def store_clear_def
        store_compact_def with_session_def)
  have "hm_inv (st_sessions st)" using store_reachable_inv [OF assms(1)] by (simp add: store_inv_def)
  then show "case list_sessions cx st of Inl _ \<Rightarrow> True | Inr listed \<Rightarrow> session \<notin> cs_session ` set listed"
    using assms(2,3) by (auto simp: list_sessions_def sort_sessions_def stats_of_def Let_def
        dest: eq_key_imp_eq_value)
qed (metis assms(2) prod.collapse store_others)+

text \<open>Compacting a session keeps all its pinned records and exactly the newest of the others, as
  many as asked for, in their order, and reports how many it removed.\<close>

theorem compact_keeps_newest:
  assumes "store_compact session keep cx st = (Inr removed, st')" and "map_of (st_sessions st) session = Some ss"
  shows "\<exists>ss'. map_of (st_sessions st') session = Some ss' \<and> subseq (ss_records ss') (ss_records ss) \<and>
    length (ss_records ss') + removed = length (ss_records ss) \<and>
    filter r_pinned (ss_records ss') = filter r_pinned (ss_records ss) \<and>
    (let unpinned = filter (\<lambda>r. \<not> r_pinned r)
     in unpinned (ss_records ss') = drop (length (unpinned (ss_records ss)) - keep) (unpinned (ss_records ss)))"
  using assms compact_session_spec [where keep = keep and ss = ss]
  by (auto simp: store_compact_def with_session_def update_conv' Let_def
      split: sum.splits prod.splits)

text \<open>A record that was appended is found again by its identifier, unchanged, at the end of the
  session, with the content it was given.\<close>

theorem append_get:
  assumes "store_reachable k events most st" and "append_fits fresh session entry st"
    and "append_record fresh now session entry cx st = (Inr r, st')"
  shows "r_message r = ce_message entry \<and> r_pinned r = ce_pinned entry \<and> r_session r = session \<and>
    get_record session (r_id r) cx st' = Inr (Some r) \<and>
    (\<exists>ss'. map_of (st_sessions st') session = Some ss' \<and> last (ss_records ss') = r)"
  using assms(3)
proof (cases rule: append_record_cases)
  case (pushed r' ss ss')
  have get: "map_of (st_sessions st') session = Some ss'" by (simp add: pushed(5) update_conv')
  moreover have "store_inv st'" using store_reachable_inv [OF assms(1)] append_record_inv assms(2,3) by blast
  ultimately have inv: "session_inv (st_counter st') (st_max_records st') session ss'" by (simp add: store_inv_def)
  have ss': "ss_records ss' = ss_records ss @ [r]" "ss_owner ss' = ss_owner ss"
    "r_message r = ce_message entry" "r_pinned r = ce_pinned entry" "r_session r = session"
    using pushed(1,3) by (auto simp: push_record_def Let_def)
  then have "lookup_record (r_id r) ss' = Some r" using lookup_record_iff [OF inv] by simp
  moreover have "may_act_for (principal_or_system cx) (ss_owner ss)"
    using pushed(4) by (auto simp: session_new_def)
  ultimately show ?thesis
    using get ss' by (simp add: get_record_def with_session_def authorize_session_def)
qed simp

section \<open>Witnesses\<close>

definition demo_who :: "string \<Rightarrow> execution_context" where
  "demo_who name = \<lparr>cx_correlation = ''c'', cx_principal = Some (principal_new name User),
     cx_deadline = None, cx_cancelled = False, cx_attributes = []\<rparr>"

definition demo_entry :: context_entry where
  "demo_entry = entry_new (message_text RoleUser ''hi'')"

definition demo_append :: "context_record result \<times> context_store" where
  "demo_append = append_record ''r1'' 7 ''s'' demo_entry (demo_who ''ada'') (store_new demo_counter False 3)"

lemma demo_append_ok: "case demo_append of (Inr r, st) \<Rightarrow> r_id r = ''r1'' | _ \<Rightarrow> False"
  by code_simp

lemma demo_fits: "append_fits ''r1'' ''s'' demo_entry (store_new demo_counter False 3)"
proof -
  have "message_cost demo_counter (ce_message demo_entry) = 6" by code_simp
  then show ?thesis by (simp add: append_fits_def store_new_def)
qed

lemma demo_reachable: "store_reachable demo_counter False 3 (snd demo_append)"
  using reach_append [OF reach_new demo_fits, of 7 "demo_who ''ada''" "fst demo_append" "snd demo_append"]
  by (simp add: demo_append_def)

definition demo_session :: session_state where
  "demo_session = the (map_of (st_sessions (snd demo_append)) ''s'')"

lemma demo_session_get: "map_of (st_sessions (snd demo_append)) ''s'' = Some demo_session"
  unfolding demo_session_def by code_simp

theorem store_invariant_witness: "length (ss_records demo_session) \<le> 3"
  using store_invariant [OF demo_reachable demo_session_get] by simp

theorem store_isolated_witness: "fst (store_clear ''s'' (demo_who ''bob'') (snd demo_append)) \<noteq> Inr 1"
proof -
  have "\<not> may_act_for (principal_or_system (demo_who ''bob'')) (ss_owner demo_session)" by code_simp
  from store_isolated [OF demo_reachable demo_session_get this, where keep = 0, THEN conjunct1]
  show ?thesis by (metis fst_conv sum.distinct(1))
qed

theorem compact_keeps_newest_witness:
  "\<exists>ss'. map_of (st_sessions (snd (store_compact ''s'' 0 (demo_who ''ada'') (snd demo_append)))) ''s'' = Some ss'
     \<and> filter (\<lambda>r. \<not> r_pinned r) (ss_records ss') = []"
proof -
  have "fst (store_compact ''s'' 0 (demo_who ''ada'') (snd demo_append)) = Inr 1" by code_simp
  then have "store_compact ''s'' 0 (demo_who ''ada'') (snd demo_append) =
      (Inr 1, snd (store_compact ''s'' 0 (demo_who ''ada'') (snd demo_append)))" by (metis prod.collapse)
  from compact_keeps_newest [OF this demo_session_get] show ?thesis by (auto simp: Let_def)
qed

theorem append_get_witness:
  "\<exists>r. get_record ''s'' ''r1'' (demo_who ''ada'') (snd demo_append) = Inr (Some r) \<and>
     r_message r = message_text RoleUser ''hi''"
proof -
  obtain r st where a: "demo_append = (Inr r, st)" "r_id r = ''r1''"
    using demo_append_ok by (auto split: prod.splits sum.splits)
  from append_get [OF reach_new demo_fits, of 7 "demo_who ''ada''" r st] a show ?thesis
    by (auto simp: demo_append_def demo_entry_def entry_new_def)
qed

end
