(* ===== verification/Aik_Agent.thy ===== *)
theory Aik_Agent
  imports Aik_Quota Aik_Context
begin

text \<open>
  The agent loop (src/crates/agent/src/run.rs and src/crates/agent/src/agent.rs): one run of an
  agent in a session, advanced one action at a time. A run works on a context store and on a
  world that stands for everything else it is wired to (the model provider, the tool registry,
  the quota guard, the clock, the cancellation token, the event bus); each call it makes may
  change them. The trace is a history of the calls, for the statements about it.
\<close>

section \<open>Requests, updates and wiring\<close>

record request_estimate =
  es_system_tokens :: u64
  es_conversation_tokens :: u64
  es_user_input_tokens :: "u64 option"
  es_tool_call_tokens :: u64
  es_tool_result_tokens :: u64
  es_tool_definition_tokens :: u64
  es_tools_offered :: nat
  es_total_tokens :: u64

record request_measured =
  rm_correlation :: string
  rm_timestamp :: timestamp
  rm_session :: string
  rm_model :: string
  rm_turn :: nat
  rm_cumulative_tool_calls :: nat
  rm_estimate :: request_estimate
  rm_context :: context_usage
  rm_provider_usage :: "usage option"
  rm_cumulative_provider_usage :: "usage option"
  rm_model_latency_ms :: u64

record agent_response =
  ar_session :: string
  ar_output :: "content_part list"
  ar_usage :: "usage option"

datatype agent_update =
    UpdContent content_part
  | UpdStatus string
  | UpdToolCall tool_call
  | UpdToolResult string tool_outcome
  | UpdFinished agent_response

record agent_request =
  aq_session :: string
  aq_input :: "content_part list"
  aq_context :: json

record agent_loop_settings =
  al_model :: string
  al_budget :: context_budget
  al_max_turns :: nat
  al_max_tool_calls :: nat
  al_system_prompt :: "string option"
  al_parameters :: json

definition agent_settings_new :: "string \<Rightarrow> agent_loop_settings" where
  "agent_settings_new model =
     \<lparr>al_model = model,
      al_budget = \<lparr>cb_max_tokens = Some 8192, cb_max_records = None, cb_max_part_tokens = Some 1024\<rparr>,
      al_max_turns = 16, al_max_tool_calls = 64, al_system_prompt = None, al_parameters = JNull\<rparr>"

record 'w quota_guard =
  qg_check :: "string \<Rightarrow> execution_context \<Rightarrow> 'w \<Rightarrow> unit result \<times> 'w"
  qg_record :: "usage_charge \<Rightarrow> execution_context \<Rightarrow> 'w \<Rightarrow> unit result \<times> 'w"

record ('c, 'w) wiring =
  wi_complete :: "completion_request \<Rightarrow> execution_context \<Rightarrow> 'w \<Rightarrow> completion_response result \<times> 'w"
  wi_list :: "execution_context \<Rightarrow> 'w \<Rightarrow> tool_spec list result \<times> 'w"
  wi_invoke :: "string \<Rightarrow> json \<Rightarrow> execution_context \<Rightarrow> 'w \<Rightarrow> tool_outcome result \<times> 'w"
  wi_append :: "string \<Rightarrow> context_entry \<Rightarrow> execution_context \<Rightarrow> 'c \<Rightarrow> context_record result \<times> 'c"
  wi_window :: "string \<Rightarrow> context_budget \<Rightarrow> execution_context \<Rightarrow> 'c \<Rightarrow> context_window result"
  wi_stats :: "string \<Rightarrow> execution_context \<Rightarrow> 'c \<Rightarrow> context_stats option result"
  wi_now :: "'w \<Rightarrow> timestamp \<times> 'w"
  wi_cancelled :: "'w \<Rightarrow> bool \<times> 'w"
  wi_elapsed :: "'w \<Rightarrow> 'w \<Rightarrow> duration"
  wi_settings :: agent_loop_settings
  wi_counter :: token_counter
  wi_events :: "(request_measured \<Rightarrow> 'w \<Rightarrow> 'w) option"
  wi_allowed :: "string list option"
  wi_compactor :: "(string \<Rightarrow> context_budget \<Rightarrow> execution_context \<Rightarrow> 'c \<times> 'w \<Rightarrow> compaction result \<times> 'c \<times> 'w) option"
  wi_quota :: "'w quota_guard option"
  wi_show :: "error \<Rightarrow> string"

text \<open>A call in the trace; the flag says whether it succeeded.\<close>

datatype agent_event =
    EvAppend context_entry bool
  | EvCheck bool
  | EvAsk completion_request bool
  | EvCharge usage_charge bool
  | EvInvoke string bool

record ('c, 'w) agent_run =
  rn_ctx :: 'c
  rn_world :: 'w
  rn_trace :: "agent_event list"
  rn_input :: "content_part list"
  rn_started :: timestamp
  rn_available :: "tool_spec list"
  rn_prepared :: bool
  rn_pending :: "tool_call list"
  rn_running :: "tool_call option"
  rn_turns :: nat
  rn_tool_calls :: nat
  rn_compacting :: bool
  rn_usage :: usage
  rn_usage_reported :: bool
  rn_current_input_tokens :: "u64 option"

definition run_new ::
  "('c, 'w) wiring \<Rightarrow> content_part list \<Rightarrow> 'c \<Rightarrow> 'w \<Rightarrow> ('c, 'w) agent_run" where
  "run_new wi input c w =
     (case wi_now wi w of (now, w') \<Rightarrow>
        \<lparr>rn_ctx = c, rn_world = w', rn_trace = [], rn_input = input, rn_started = now,
         rn_available = [], rn_prepared = False, rn_pending = [], rn_running = None, rn_turns = 0,
         rn_tool_calls = 0, rn_compacting = True, rn_usage = usage_default,
         rn_usage_reported = False, rn_current_input_tokens = None\<rparr>)"

section \<open>Actions\<close>

text \<open>An action may fail, and leaves the run changed either way. \<open>and_then\<close> is the \<^verbatim>\<open>?\<close> of the
  source.\<close>

type_synonym ('a, 'c, 'w) action = "('c, 'w) agent_run \<Rightarrow> 'a result \<times> ('c, 'w) agent_run"

definition return :: "'a \<Rightarrow> ('a, 'c, 'w) action" where
  "return x s = (Inr x, s)"

definition throw :: "error \<Rightarrow> ('a, 'c, 'w) action" where
  "throw e s = (Inl e, s)"

definition and_then :: "('a, 'c, 'w) action \<Rightarrow> ('a \<Rightarrow> ('b, 'c, 'w) action) \<Rightarrow> ('b, 'c, 'w) action" where
  "and_then m f s = (case m s of (Inl e, s') \<Rightarrow> (Inl e, s') | (Inr x, s') \<Rightarrow> f x s')"

definition modify :: "(('c, 'w) agent_run \<Rightarrow> ('c, 'w) agent_run) \<Rightarrow> (unit, 'c, 'w) action" where
  "modify f s = (Inr (), f s)"

definition read_run :: "(('c, 'w) agent_run \<Rightarrow> 'a) \<Rightarrow> ('a, 'c, 'w) action" where
  "read_run f s = (Inr (f s), s)"

definition log_event :: "agent_event \<Rightarrow> ('c, 'w) agent_run \<Rightarrow> ('c, 'w) agent_run" where
  "log_event ev s = s\<lparr>rn_trace := rn_trace s @ [ev]\<rparr>"

definition call_world :: "('w \<Rightarrow> 'a result \<times> 'w) \<Rightarrow> (bool \<Rightarrow> agent_event option) \<Rightarrow> ('a, 'c, 'w) action" where
  "call_world f ev s =
     (case f (rn_world s) of (res, w) \<Rightarrow>
        (res, (case ev (\<not> isl res) of None \<Rightarrow> id | Some e \<Rightarrow> log_event e) (s\<lparr>rn_world := w\<rparr>)))"

definition append_entry ::
  "('c, 'w) wiring \<Rightarrow> string \<Rightarrow> execution_context \<Rightarrow> context_entry \<Rightarrow> (unit, 'c, 'w) action" where
  "append_entry wi session cx entry s =
     (case wi_append wi session entry cx (rn_ctx s) of (res, c) \<Rightarrow>
        (map_sum id (\<lambda>_. ()) res, log_event (EvAppend entry (\<not> isl res)) (s\<lparr>rn_ctx := c\<rparr>)))"

definition read_window ::
  "('c, 'w) wiring \<Rightarrow> string \<Rightarrow> execution_context \<Rightarrow> (context_window, 'c, 'w) action" where
  "read_window wi session cx s = (wi_window wi session (al_budget (wi_settings wi)) cx (rn_ctx s), s)"

definition guard :: "('c, 'w) wiring \<Rightarrow> execution_context \<Rightarrow> (unit, 'c, 'w) action" where
  "guard wi cx s =
     (case wi_cancelled wi (rn_world s) of (cancelled, w1) \<Rightarrow>
        if cancelled then (Inl Cancelled, s\<lparr>rn_world := w1\<rparr>)
        else case wi_now wi w1 of (now, w2) \<Rightarrow>
          (case cx_deadline cx of
             Some deadline \<Rightarrow>
               if deadline \<le> now then (Inl (Timeout (ts_since now (rn_started s))), s\<lparr>rn_world := w2\<rparr>)
               else (Inr (), s\<lparr>rn_world := w2\<rparr>)
           | None \<Rightarrow> (Inr (), s\<lparr>rn_world := w2\<rparr>)))"

definition compactor_of :: "('c, 'w) wiring \<Rightarrow> ('c, 'w) agent_run
  \<Rightarrow> (string \<Rightarrow> context_budget \<Rightarrow> execution_context \<Rightarrow> 'c \<times> 'w \<Rightarrow> compaction result \<times> 'c \<times> 'w) option" where
  "compactor_of wi s = (if rn_compacting s then wi_compactor wi else None)"

definition make_room ::
  "('c, 'w) wiring \<Rightarrow> string \<Rightarrow> execution_context \<Rightarrow> nat \<Rightarrow> (bool, 'c, 'w) action" where
  "make_room wi session cx dropped s =
     (if dropped = 0 then (Inr False, s)
      else case compactor_of wi s of
        None \<Rightarrow> (Inr False, s)
      | Some compact \<Rightarrow>
          (case compact session (al_budget (wi_settings wi)) cx (rn_ctx s, rn_world s) of
             (res, c, w) \<Rightarrow>
               let s' = s\<lparr>rn_ctx := c, rn_world := w\<rparr> in
               (case res of
                  Inr compaction \<Rightarrow>
                    if compaction_is_empty compaction
                    then (Inr False, s'\<lparr>rn_compacting := False\<rparr>) else (Inr True, s')
                | Inl e \<Rightarrow>
                    if kind e = KCancelled \<or> kind e = KTimeout then (Inl e, s')
                    else (Inr False, s'\<lparr>rn_compacting := False\<rparr>))))"

text \<open>The three steps of \<^verbatim>\<open>prepare\<close> after the tools are listed: the system prompt of a fresh
  session, room for what is coming, and the caller's input.\<close>

definition add_prompt ::
  "('c, 'w) wiring \<Rightarrow> string \<Rightarrow> execution_context \<Rightarrow> (unit, 'c, 'w) action" where
  "add_prompt wi session cx =
     (case al_system_prompt (wi_settings wi) of
        None \<Rightarrow> return ()
      | Some prompt \<Rightarrow>
          and_then (\<lambda>s. (wi_stats wi session cx (rn_ctx s), s)) (\<lambda>stats.
            if stats = None
            then append_entry wi session cx (entry_pinned (entry_new (message_text RoleSystem prompt)))
            else return ()))"

definition early_room ::
  "('c, 'w) wiring \<Rightarrow> string \<Rightarrow> execution_context \<Rightarrow> (unit, 'c, 'w) action" where
  "early_room wi session cx s =
     (if compactor_of wi s \<noteq> None
      then and_then (read_window wi session cx) (\<lambda>window.
             and_then (make_room wi session cx (cu_dropped_records (cw_usage window))) (\<lambda>_. return ())) s
      else (Inr (), s))"

definition user_message :: "content_part list \<Rightarrow> message" where
  "user_message input = \<lparr>m_role = RoleUser, m_content = input, m_name = None\<rparr>"

definition add_input ::
  "('c, 'w) wiring \<Rightarrow> string \<Rightarrow> execution_context \<Rightarrow> (unit, 'c, 'w) action" where
  "add_input wi session cx s =
     (let m = user_message (rn_input s)
      in append_entry wi session cx (entry_new m)
           (s\<lparr>rn_input := [], rn_current_input_tokens := Some (count_message (wi_counter wi) m)\<rparr>))"

definition prepare ::
  "('c, 'w) wiring \<Rightarrow> string \<Rightarrow> execution_context \<Rightarrow> (unit, 'c, 'w) action" where
  "prepare wi session cx =
     and_then (call_world (wi_list wi cx) (\<lambda>_. None)) (\<lambda>listed.
     and_then (modify (\<lambda>s. s\<lparr>rn_available :=
         (case wi_allowed wi of
            None \<Rightarrow> listed
          | Some allowed \<Rightarrow> filter (\<lambda>spec. sp_name spec \<in> set allowed) listed)\<rparr>)) (\<lambda>_.
     and_then (add_prompt wi session cx) (\<lambda>_.
     and_then (early_room wi session cx) (\<lambda>_.
     add_input wi session cx))))"

section \<open>A model turn\<close>

fun estimate_messages ::
  "token_counter \<Rightarrow> message list \<Rightarrow> u64 \<times> u64 \<times> u64 \<times> u64 \<Rightarrow> u64 \<times> u64 \<times> u64 \<times> u64" where
  "estimate_messages k [] acc = acc"
| "estimate_messages k (m # ms) (system, conversation, calls, results) =
     (let cost = count_message k m in
      if m_role m = RoleSystem then estimate_messages k ms (system + cost, conversation, calls, results)
      else estimate_messages k ms
        (system, conversation + cost,
         calls + sum_list (map (count_part k)
           (filter (\<lambda>p. case p of ToolCallPart _ \<Rightarrow> True | _ \<Rightarrow> False) (m_content m))),
         results + sum_list (map (count_part k)
           (filter (\<lambda>p. case p of ToolResultPart _ _ _ \<Rightarrow> True | _ \<Rightarrow> False) (m_content m)))))"

definition estimate_request ::
  "message list \<Rightarrow> tool_definition list \<Rightarrow> token_counter \<Rightarrow> u64 option \<Rightarrow> request_estimate" where
  "estimate_request messages tools k user_input_tokens =
     (case estimate_messages k messages (0, 0, 0, 0) of
        (system, conversation, calls, results) \<Rightarrow>
          let definitions = sum_list (map (\<lambda>d. k_text k (td_name d) + k_text k (td_description d)
                                + count_json k (td_input_schema d)) tools)
          in \<lparr>es_system_tokens = system, es_conversation_tokens = conversation,
              es_user_input_tokens = user_input_tokens, es_tool_call_tokens = calls,
              es_tool_result_tokens = results, es_tool_definition_tokens = definitions,
              es_tools_offered = length tools, es_total_tokens = system + conversation + definitions\<rparr>)"

definition add_usage :: "usage option \<Rightarrow> ('c, 'w) agent_run \<Rightarrow> ('c, 'w) agent_run" where
  "add_usage u s =
     (case u of
        None \<Rightarrow> s
      | Some u \<Rightarrow>
          s\<lparr>rn_usage := \<lparr>us_input_tokens = sat_add (us_input_tokens (rn_usage s)) (us_input_tokens u),
                         us_output_tokens = sat_add (us_output_tokens (rn_usage s)) (us_output_tokens u)\<rparr>,
            rn_usage_reported := True\<rparr>)"

definition reported_usage :: "('c, 'w) agent_run \<Rightarrow> usage option" where
  "reported_usage s = (if rn_usage_reported s then Some (rn_usage s) else None)"

definition publish_measurement ::
  "('c, 'w) wiring \<Rightarrow> string \<Rightarrow> execution_context \<Rightarrow> request_estimate \<Rightarrow> context_usage \<Rightarrow> usage option
   \<Rightarrow> duration \<Rightarrow> ('c, 'w) agent_run \<Rightarrow> ('c, 'w) agent_run" where
  "publish_measurement wi session cx estimate context provider_usage latency s =
     (case wi_events wi of
        None \<Rightarrow> s
      | Some publish \<Rightarrow>
          (case wi_now wi (rn_world s) of (now, w) \<Rightarrow>
             s\<lparr>rn_world := publish
               \<lparr>rm_correlation = cx_correlation cx, rm_timestamp = now, rm_session = session,
                rm_model = al_model (wi_settings wi), rm_turn = rn_turns s,
                rm_cumulative_tool_calls = rn_tool_calls s, rm_estimate = estimate,
                rm_context = context, rm_provider_usage = provider_usage,
                rm_cumulative_provider_usage = reported_usage s,
                rm_model_latency_ms = u64_try_from (as_millis latency)\<rparr> w\<rparr>))"

definition charge_for :: "('c, 'w) wiring \<Rightarrow> usage option \<Rightarrow> request_estimate \<Rightarrow> message \<Rightarrow> usage_charge" where
  "charge_for wi u estimate reply =
     (case u of
        Some u \<Rightarrow>
          \<lparr>uc_model = al_model (wi_settings wi), uc_turns = 1, uc_input_tokens = us_input_tokens u,
           uc_output_tokens = us_output_tokens u, uc_estimated = False\<rparr>
      | None \<Rightarrow>
          \<lparr>uc_model = al_model (wi_settings wi), uc_turns = 1, uc_input_tokens = es_total_tokens estimate,
           uc_output_tokens = count_message (wi_counter wi) reply, uc_estimated = True\<rparr>)"

definition charge ::
  "('c, 'w) wiring \<Rightarrow> execution_context \<Rightarrow> usage option \<Rightarrow> request_estimate \<Rightarrow> message
   \<Rightarrow> (unit, 'c, 'w) action" where
  "charge wi cx u estimate reply =
     (case wi_quota wi of
        None \<Rightarrow> return ()
      | Some quota \<Rightarrow>
          let ch = charge_for wi u estimate reply
          in call_world (qg_record quota ch cx) (\<lambda>ok. Some (EvCharge ch ok)))"

fun calls_of :: "content_part list \<Rightarrow> tool_call list" where
  "calls_of [] = []"
| "calls_of (ToolCallPart call # ps) = call # calls_of ps"
| "calls_of (_ # ps) = calls_of ps"

definition text_parts :: "content_part list \<Rightarrow> content_part list" where
  "text_parts ps = filter (\<lambda>p. case p of ToolCallPart _ \<Rightarrow> False | _ \<Rightarrow> True) ps"

text \<open>The end of \<^verbatim>\<open>turn\<close>: the parts of the reply become pending calls and updates.\<close>

definition settle_reply :: "string \<Rightarrow> message \<Rightarrow> (agent_update list, 'c, 'w) action" where
  "settle_reply session reply s =
     (let s' = s\<lparr>rn_pending := rn_pending s @ calls_of (m_content reply)\<rparr>;
          output = text_parts (m_content reply);
          updates = map UpdContent output
      in (Inr (if rn_pending s' = []
               then updates @ [UpdFinished \<lparr>ar_session = session, ar_output = output,
                      ar_usage = reported_usage s'\<rparr>]
               else updates), s'))"

definition ask_model ::
  "('c, 'w) wiring \<Rightarrow> execution_context \<Rightarrow> completion_request
   \<Rightarrow> (completion_response \<times> duration, 'c, 'w) action" where
  "ask_model wi cx request s =
     (case wi_complete wi request (child cx) (rn_world s) of (res, w) \<Rightarrow>
        (map_sum id (\<lambda>r. (r, wi_elapsed wi (rn_world s) w)) res,
         log_event (EvAsk request (\<not> isl res)) (s\<lparr>rn_world := w\<rparr>)))"

text \<open>The parts of \<^verbatim>\<open>turn\<close>: the quota check, the window with room made for it, the request
  with its measurement and charge.\<close>

definition admit_turn :: "('c, 'w) wiring \<Rightarrow> execution_context \<Rightarrow> (unit, 'c, 'w) action" where
  "admit_turn wi cx =
     (case wi_quota wi of
        None \<Rightarrow> return ()
      | Some quota \<Rightarrow>
          call_world (qg_check quota (al_model (wi_settings wi)) cx) (\<lambda>ok. Some (EvCheck ok)))"

definition fresh_window ::
  "('c, 'w) wiring \<Rightarrow> string \<Rightarrow> execution_context \<Rightarrow> (context_window, 'c, 'w) action" where
  "fresh_window wi session cx =
     and_then (read_window wi session cx) (\<lambda>window.
     and_then (make_room wi session cx (cu_dropped_records (cw_usage window))) (\<lambda>made.
     if made then read_window wi session cx else return window))"

definition ask_phase ::
  "('c, 'w) wiring \<Rightarrow> string \<Rightarrow> execution_context \<Rightarrow> context_window
   \<Rightarrow> (completion_response, 'c, 'w) action" where
  "ask_phase wi session cx window s =
     (let definitions = map definition_from (rn_available s);
          estimate = estimate_request (cw_messages window) definitions (wi_counter wi)
            (rn_current_input_tokens s);
          request = \<lparr>cr_model = al_model (wi_settings wi), cr_messages = cw_messages window,
            cr_tools = definitions, cr_parameters = al_parameters (wi_settings wi)\<rparr>
      in and_then (ask_model wi cx request) (\<lambda>(response, latency).
         and_then (modify (\<lambda>s. publish_measurement wi session cx estimate (cw_usage window)
             (re_usage response) latency (add_usage (re_usage response) (s\<lparr>rn_turns := rn_turns s + 1\<rparr>)))) (\<lambda>_.
         and_then (charge wi cx (re_usage response) estimate (re_message response)) (\<lambda>_.
         return response))) (s\<lparr>rn_current_input_tokens := None\<rparr>))"

definition turn ::
  "('c, 'w) wiring \<Rightarrow> string \<Rightarrow> execution_context \<Rightarrow> (agent_update list, 'c, 'w) action" where
  "turn wi session cx s =
     (if al_max_turns (wi_settings wi) \<le> rn_turns s
      then throw (other (''agent run in session `'' @ session @ ''` reached its limit of ''
             @ dec (al_max_turns (wi_settings wi)) @ '' model turns without producing a final response'')) s
      else
        and_then (admit_turn wi cx) (\<lambda>_.
        and_then (fresh_window wi session cx) (\<lambda>window.
        and_then (ask_phase wi session cx window) (\<lambda>response.
        if re_finish_reason response = FinishCancelled then throw Cancelled
        else
          and_then (append_entry wi session cx (entry_new (re_message response))) (\<lambda>_.
          settle_reply session (re_message response))))) s)"

section \<open>Tool calls\<close>

definition announce ::
  "('c, 'w) wiring \<Rightarrow> string \<Rightarrow> tool_call \<Rightarrow> (agent_update list, 'c, 'w) action" where
  "announce wi session call s =
     (if al_max_tool_calls (wi_settings wi) \<le> rn_tool_calls s
      then throw (other (''agent run in session `'' @ session @ ''` reached its limit of ''
             @ dec (al_max_tool_calls (wi_settings wi)) @ '' tool calls''))
             (s\<lparr>rn_pending := call # rn_pending s\<rparr>)
      else (Inr [UpdToolCall call],
            s\<lparr>rn_tool_calls := rn_tool_calls s + 1, rn_running := Some call\<rparr>))"

definition error_outcome :: "json \<Rightarrow> tool_outcome" where
  "error_outcome v = \<lparr>to_output = v, to_is_error = True, to_trust = Trusted\<rparr>"

definition failure_value :: "string \<Rightarrow> string \<Rightarrow> json" where
  "failure_value k msg =
     JObject (bt_insert ''kind'' (JString k) (bt_insert ''message'' (JString msg) []))"

definition failed :: "(error \<Rightarrow> string) \<Rightarrow> error \<Rightarrow> tool_outcome" where
  "failed show e = error_outcome (failure_value (classify (kind e)) (show e))"

definition unavailable :: "string \<Rightarrow> tool_outcome" where
  "unavailable name = error_outcome (failure_value (classify KNotFound)
     (''no tool named `'' @ name @ ''` is available to this agent''))"

definition tool_result_entry :: "string \<Rightarrow> json \<Rightarrow> bool \<Rightarrow> context_entry" where
  "tool_result_entry call_id content is_error =
     entry_new \<lparr>m_role = RoleTool, m_content = [ToolResultPart call_id content is_error], m_name = None\<rparr>"

text \<open>The outcome of a call and, if the run was found stopping, why.\<close>

definition tool_outcome_of ::
  "('c, 'w) wiring \<Rightarrow> execution_context \<Rightarrow> tool_call \<Rightarrow> (tool_outcome \<times> error option, 'c, 'w) action" where
  "tool_outcome_of wi cx call s =
     (if tc_name call \<in> sp_name ` set (rn_available s)
      then (case call_world (wi_invoke wi (tc_name call) (tc_arguments call) (child cx))
                   (\<lambda>ok. Some (EvInvoke (tc_name call) ok)) s of
              (Inr outcome, s') \<Rightarrow> (Inr (outcome, None), s')
            | (Inl e, s') \<Rightarrow>
                (case guard wi cx s' of
                   (Inr _, s'') \<Rightarrow> (Inr (failed (wi_show wi) e, None), s'')
                 | (Inl stopped, s'') \<Rightarrow> (Inr (failed (wi_show wi) e, Some stopped), s'')))
      else (Inr (unavailable (tc_name call), None), s))"

definition call_tool ::
  "('c, 'w) wiring \<Rightarrow> string \<Rightarrow> execution_context \<Rightarrow> tool_call \<Rightarrow> (agent_update list, 'c, 'w) action" where
  "call_tool wi session cx call =
     and_then (tool_outcome_of wi cx call) (\<lambda>(outcome, stop).
     and_then (append_entry wi session cx
         (tool_result_entry (tc_call_id call) (to_output outcome) (to_is_error outcome))) (\<lambda>_.
     (case stop of
        Some stopped \<Rightarrow> throw stopped
      | None \<Rightarrow> return [UpdToolResult (tc_call_id call) outcome])))"

section \<open>Advancing\<close>

definition step ::
  "('c, 'w) wiring \<Rightarrow> string \<Rightarrow> execution_context \<Rightarrow> (agent_update list, 'c, 'w) action" where
  "step wi session cx =
     and_then (guard wi cx) (\<lambda>_.
     and_then (\<lambda>s. if rn_prepared s then (Inr (), s)
                   else and_then (prepare wi session cx) (\<lambda>_. modify (\<lambda>s. s\<lparr>rn_prepared := True\<rparr>)) s) (\<lambda>_.
     (\<lambda>s. case rn_running s of
            Some call \<Rightarrow> call_tool wi session cx call (s\<lparr>rn_running := None\<rparr>)
          | None \<Rightarrow>
              (case rn_pending s of
                 call # rest \<Rightarrow> announce wi session call (s\<lparr>rn_pending := rest\<rparr>)
               | [] \<Rightarrow> turn wi session cx s))))"

definition abandoned_entry :: "('c, 'w) wiring \<Rightarrow> error \<Rightarrow> tool_call \<Rightarrow> context_entry" where
  "abandoned_entry wi reason call =
     tool_result_entry (tc_call_id call)
       (failure_value (classify (kind reason))
         (''the run stopped before this call was made: '' @ wi_show wi reason)) True"

definition outstanding :: "('c, 'w) agent_run \<Rightarrow> tool_call list" where
  "outstanding s = (case rn_running s of None \<Rightarrow> [] | Some call \<Rightarrow> [call]) @ rn_pending s"

definition abandon_outstanding_calls ::
  "('c, 'w) wiring \<Rightarrow> string \<Rightarrow> execution_context \<Rightarrow> error \<Rightarrow> ('c, 'w) agent_run \<Rightarrow> ('c, 'w) agent_run" where
  "abandon_outstanding_calls wi session cx reason s =
     fold (\<lambda>call s. snd (append_entry wi session cx (abandoned_entry wi reason call) s))
       (outstanding s) (s\<lparr>rn_running := None, rn_pending := []\<rparr>)"

definition advance ::
  "('c, 'w) wiring \<Rightarrow> string \<Rightarrow> execution_context \<Rightarrow> (agent_update list, 'c, 'w) action" where
  "advance wi session cx s =
     (case step wi session cx s of
        (Inr updates, s') \<Rightarrow> (Inr updates, s')
      | (Inl e, s') \<Rightarrow> (Inl e, abandon_outstanding_calls wi session cx e s'))"

section \<open>What each action does\<close>

text \<open>An action that leaves the trace and the control state alone.\<close>

definition quiet :: "('c, 'w) agent_run \<Rightarrow> ('c, 'w) agent_run \<Rightarrow> bool" where
  "quiet s s' \<longleftrightarrow> rn_trace s' = rn_trace s \<and> rn_available s' = rn_available s \<and>
     rn_prepared s' = rn_prepared s \<and> rn_pending s' = rn_pending s \<and> rn_running s' = rn_running s \<and>
     rn_turns s' = rn_turns s \<and> rn_tool_calls s' = rn_tool_calls s \<and> rn_input s' = rn_input s"

lemma quiet_refl [simp]: "quiet s s"
  by (simp add: quiet_def)

lemma quiet_trans: "quiet s s' \<Longrightarrow> quiet s' s'' \<Longrightarrow> quiet s s''"
  by (simp add: quiet_def)

lemma and_thenE:
  assumes "and_then m f s = (r, s')"
  obtains e where "m s = (Inl e, s')" "r = Inl e"
  | x s1 where "m s = (Inr x, s1)" "f x s1 = (r, s')"
  using assms by (auto simp: and_then_def split: prod.splits sum.splits)

lemma guard_quiet: "guard wi cx s = (r, s') \<Longrightarrow> quiet s s'"
  by (auto simp: guard_def quiet_def split: prod.splits if_splits option.splits)

lemma read_window_quiet: "read_window wi session cx s = (r, s') \<Longrightarrow> s' = s"
  by (simp add: read_window_def)

lemma make_room_quiet: "make_room wi session cx n s = (r, s') \<Longrightarrow> quiet s s'"
  by (auto simp: make_room_def quiet_def Let_def split: prod.splits if_splits option.splits sum.splits)

text \<open>The measure of the loop: what is left of the two limits, and the call that is under way.\<close>

definition fuel_left :: "('c, 'w) wiring \<Rightarrow> ('c, 'w) agent_run \<Rightarrow> nat" where
  "fuel_left wi s =
     (al_max_turns (wi_settings wi) - rn_turns s)
     + 2 * (al_max_tool_calls (wi_settings wi) - rn_tool_calls s)
     + (if rn_running s = None then 0 else 1)"

lemma fuel_left_quiet: "quiet s s' \<Longrightarrow> fuel_left wi s' = fuel_left wi s"
  by (simp add: quiet_def fuel_left_def)

definition same_control :: "('c, 'w) agent_run \<Rightarrow> ('c, 'w) agent_run \<Rightarrow> bool" where
  "same_control s s' \<longleftrightarrow> rn_prepared s' = rn_prepared s \<and> rn_pending s' = rn_pending s \<and>
     rn_running s' = rn_running s \<and> rn_turns s' = rn_turns s \<and> rn_tool_calls s' = rn_tool_calls s"

lemma quiet_same_control: "quiet s s' \<Longrightarrow> same_control s s'"
  by (simp add: quiet_def same_control_def)

lemma append_entry_spec:
  assumes "append_entry wi session cx entry s = (r, s')"
  shows "\<exists>c. s' = s\<lparr>rn_ctx := c, rn_trace := rn_trace s @ [EvAppend entry (\<not> isl r)]\<rparr>"
  using assms by (auto simp: append_entry_def log_event_def isl_map_sum split: prod.splits)

text \<open>The prompt may be appended first, if one is configured.\<close>

definition prompt_events :: "('c, 'w) wiring \<Rightarrow> bool \<Rightarrow> agent_event list \<Rightarrow> bool" where
  "prompt_events wi ok tr \<longleftrightarrow> tr = [] \<or>
     (\<exists>prompt. al_system_prompt (wi_settings wi) = Some prompt \<and>
        tr = [EvAppend (entry_pinned (entry_new (message_text RoleSystem prompt))) ok])"

definition offered :: "('c, 'w) wiring \<Rightarrow> tool_spec list \<Rightarrow> bool" where
  "offered wi specs \<longleftrightarrow>
     (case wi_allowed wi of None \<Rightarrow> True | Some allowed \<Rightarrow> sp_name ` set specs \<subseteq> set allowed)"

lemma add_prompt_spec:
  assumes "add_prompt wi session cx s = (r, s')"
  shows "same_control s s' \<and> rn_available s' = rn_available s \<and> rn_input s' = rn_input s \<and>
    (\<exists>p b. prompt_events wi b p \<and> (isl r \<or> b) \<and> rn_trace s' = rn_trace s @ p)"
proof (cases "al_system_prompt (wi_settings wi)")
  case (Some prompt)
  with assms show ?thesis
    by (auto simp: add_prompt_def return_def same_control_def prompt_events_def
        elim!: and_thenE dest!: append_entry_spec split: if_splits)
qed (use assms in \<open>auto simp: add_prompt_def return_def same_control_def prompt_events_def\<close>)

lemma early_room_quiet: "early_room wi session cx s = (r, s') \<Longrightarrow> quiet s s'"
  by (auto simp: early_room_def return_def elim!: and_thenE dest!: read_window_quiet make_room_quiet split: if_splits)

lemma add_input_spec:
  assumes "add_input wi session cx s = (r, s')"
  shows "same_control s s' \<and> rn_available s' = rn_available s \<and>
    rn_trace s' = rn_trace s @ [EvAppend (entry_new (user_message (rn_input s))) (\<not> isl r)]"
  using append_entry_spec [OF assms [unfolded add_input_def Let_def]] by (auto simp: same_control_def)

lemma same_control_trans: "same_control s s' \<Longrightarrow> same_control s' s'' \<Longrightarrow> same_control s s''"
  by (simp add: same_control_def)

text \<open>What the run has appended when its preparation ends: the prompt, if there is one to add, and
  the caller's input.\<close>

definition setup_events :: "('c, 'w) wiring \<Rightarrow> content_part list \<Rightarrow> agent_event list \<Rightarrow> bool" where
  "setup_events wi input tr \<longleftrightarrow>
     (\<exists>p. prompt_events wi True p \<and> tr = p @ [EvAppend (entry_new (user_message input)) True])"

definition partial_setup :: "('c, 'w) wiring \<Rightarrow> content_part list \<Rightarrow> agent_event list \<Rightarrow> bool" where
  "partial_setup wi input tr \<longleftrightarrow> (\<exists>b. prompt_events wi b tr) \<or>
     (\<exists>p. prompt_events wi True p \<and> tr = p @ [EvAppend (entry_new (user_message input)) False])"

lemma listing_spec:
  assumes "call_world (wi_list wi cx) (\<lambda>_. None) s = (Inr listed, s1)"
    and "modify (\<lambda>s. s\<lparr>rn_available :=
         (case wi_allowed wi of
            None \<Rightarrow> listed
          | Some allowed \<Rightarrow> filter (\<lambda>spec. sp_name spec \<in> set allowed) listed)\<rparr>) s1 = (Inr u, s2)"
  shows "same_control s s2 \<and> rn_trace s2 = rn_trace s \<and> offered wi (rn_available s2) \<and> rn_input s2 = rn_input s"
  using assms
  by (auto simp: call_world_def modify_def same_control_def offered_def split: prod.splits option.splits)

lemma prepare_spec:
  assumes "prepare wi session cx s = (r, s')"
  shows "same_control s s' \<and> (rn_available s' = rn_available s \<or> offered wi (rn_available s')) \<and>
    (\<exists>tr. rn_trace s' = rn_trace s @ tr \<and>
       (if isl r then partial_setup wi (rn_input s) tr
        else setup_events wi (rn_input s) tr \<and> offered wi (rn_available s')))"
  using assms unfolding prepare_def
proof (elim and_thenE, goal_cases)
  case (1 e)
  then show ?case
    by (auto simp: call_world_def same_control_def partial_setup_def prompt_events_def split: prod.splits)
next
  case (2 listed s1 e)
  then show ?case by (simp add: modify_def)
next
  case (3 listed s1 u s2 e)
  note s2 = listing_spec [OF 3(1,2)]
  show ?case
    using s2 add_prompt_spec [OF 3(3)] 3(4) by (auto simp: same_control_def partial_setup_def)
next
  case (4 listed s1 u s2 v s3 e)
  note s2 = listing_spec [OF 4(1,2)]
  show ?case
    using s2 add_prompt_spec [OF 4(3)] early_room_quiet [OF 4(4)] 4(5)
    by (auto simp: same_control_def quiet_def partial_setup_def)
next
  case (5 listed s1 u s2 v s3 x s4)
  note s2 = listing_spec [OF 5(1,2)]
  show ?case
    using s2 add_prompt_spec [OF 5(3)] early_room_quiet [OF 5(4)] add_input_spec [OF 5(5)]
    by (cases "isl r") (auto simp: same_control_def quiet_def partial_setup_def setup_events_def)
qed

section \<open>Reading a trace\<close>

fun appended :: "agent_event list \<Rightarrow> message list" where
  "appended [] = []"
| "appended (EvAppend entry True # tr) = ce_message entry # appended tr"
| "appended (_ # tr) = appended tr"

definition no_loss :: "agent_event list \<Rightarrow> bool" where
  "no_loss tr \<longleftrightarrow> list_all (\<lambda>ev. case ev of EvAppend _ ok \<Rightarrow> ok | _ \<Rightarrow> True) tr"

definition asks :: "agent_event list \<Rightarrow> nat" where
  "asks tr = length (filter (\<lambda>ev. case ev of EvAsk _ ok \<Rightarrow> ok | _ \<Rightarrow> False) tr)"

fun invoked :: "agent_event list \<Rightarrow> string list" where
  "invoked [] = []"
| "invoked (EvInvoke name _ # tr) = name # invoked tr"
| "invoked (_ # tr) = invoked tr"

text \<open>The protocol with the quota guard: every request is cleared just before it is sent, and every
  answered request is charged before anything else is done.\<close>

datatype meter = Settled | Cleared | Owed

fun meter_step :: "meter \<Rightarrow> agent_event \<Rightarrow> meter option" where
  "meter_step Settled (EvCheck ok) = Some (if ok then Cleared else Settled)"
| "meter_step Settled (EvAppend _ _) = Some Settled"
| "meter_step Settled (EvInvoke _ _) = Some Settled"
| "meter_step Cleared (EvAsk _ ok) = Some (if ok then Owed else Settled)"
| "meter_step Owed (EvCharge _ _) = Some Settled"
| "meter_step _ _ = None"

fun metered :: "meter \<Rightarrow> agent_event list \<Rightarrow> meter option" where
  "metered m [] = Some m"
| "metered m (ev # tr) = Option.bind (meter_step m ev) (\<lambda>m'. metered m' tr)"

lemma appended_append [simp]: "appended (xs @ ys) = appended xs @ appended ys"
  by (induction xs rule: appended.induct) auto

lemma invoked_append [simp]: "invoked (xs @ ys) = invoked xs @ invoked ys"
  by (induction xs rule: invoked.induct) auto

lemma asks_append [simp]: "asks (xs @ ys) = asks xs + asks ys"
  by (simp add: asks_def)

lemma asks_simps [simp]:
  "asks [] = 0" "asks (EvAsk q ok # tr) = (if ok then 1 else 0) + asks tr"
  "asks (EvAppend e b # tr) = asks tr" "asks (EvCheck b # tr) = asks tr"
  "asks (EvCharge ch b # tr) = asks tr" "asks (EvInvoke n b # tr) = asks tr"
  by (simp_all add: asks_def)

lemma no_loss_append [simp]: "no_loss (xs @ ys) \<longleftrightarrow> no_loss xs \<and> no_loss ys"
  by (simp add: no_loss_def)

lemma no_loss_simps [simp]:
  "no_loss []" "no_loss (EvAppend e b # tr) \<longleftrightarrow> b \<and> no_loss tr"
  "no_loss (EvAsk q b # tr) \<longleftrightarrow> no_loss tr" "no_loss (EvCheck b # tr) \<longleftrightarrow> no_loss tr"
  "no_loss (EvCharge ch b # tr) \<longleftrightarrow> no_loss tr" "no_loss (EvInvoke n b # tr) \<longleftrightarrow> no_loss tr"
  by (simp_all add: no_loss_def)

lemma metered_append [simp]: "metered m (xs @ ys) = Option.bind (metered m xs) (\<lambda>m'. metered m' ys)"
  by (induction m xs rule: metered.induct) (auto split: bind_splits)

section \<open>What a turn does\<close>

lemma admit_turn_spec:
  assumes "admit_turn wi cx s = (r, s')"
  shows "\<exists>chk. rn_trace s' = rn_trace s @ chk \<and>
    chk = (if wi_quota wi = None then [] else [EvCheck (\<not> isl r)]) \<and>
    quiet (s\<lparr>rn_trace := rn_trace s'\<rparr>) s'"
  using assms
  by (cases "wi_quota wi")
     (auto simp: admit_turn_def return_def call_world_def log_event_def quiet_def split: prod.splits)

lemma fresh_window_quiet: "fresh_window wi session cx s = (r, s') \<Longrightarrow> quiet s s'"
  by (auto simp: fresh_window_def return_def elim!: and_thenE dest!: read_window_quiet make_room_quiet
      split: if_splits)

lemma publish_quiet: "quiet s (publish_measurement wi session cx est u pu d (add_usage us s))"
  by (auto simp: publish_measurement_def add_usage_def quiet_def split: option.splits prod.splits)

lemma charge_spec:
  assumes "charge wi cx u est reply s = (r, s')"
  shows "\<exists>chg. rn_trace s' = rn_trace s @ chg \<and>
    (wi_quota wi = None \<and> chg = [] \<and> \<not> isl r \<or> wi_quota wi \<noteq> None \<and> (\<exists>ch. chg = [EvCharge ch (\<not> isl r)])) \<and>
    quiet (s\<lparr>rn_trace := rn_trace s'\<rparr>) s'"
  using assms
  by (cases "wi_quota wi")
     (auto simp: charge_def return_def call_world_def log_event_def quiet_def Let_def split: prod.splits)

lemma ask_model_spec:
  assumes "ask_model wi cx q s = (r, s')"
  shows "\<exists>w. s' = s\<lparr>rn_world := w, rn_trace := rn_trace s @ [EvAsk q (\<not> isl r)]\<rparr>"
  using assms by (auto simp: ask_model_def log_event_def isl_map_sum split: prod.splits)

lemma ask_phase_spec:
  assumes "ask_phase wi session cx window s = (r, s')"
  shows "\<exists>q tr. rn_trace s' = rn_trace s @ tr \<and> cr_tools q = map definition_from (rn_available s) \<and>
    quiet (s\<lparr>rn_trace := rn_trace s @ tr, rn_turns := rn_turns s + asks tr\<rparr>) s' \<and>
    (tr = [EvAsk q False] \<and> isl r \<or>
     wi_quota wi = None \<and> tr = [EvAsk q True] \<and> \<not> isl r \<or>
     wi_quota wi \<noteq> None \<and> (\<exists>ch. tr = [EvAsk q True, EvCharge ch (\<not> isl r)]))"
proof -
  define q where "q = \<lparr>cr_model = al_model (wi_settings wi), cr_messages = cw_messages window,
      cr_tools = map definition_from (rn_available s), cr_parameters = al_parameters (wi_settings wi)\<rparr>"
  have tools: "cr_tools q = map definition_from (rn_available s)" by (simp add: q_def)
  from assms show ?thesis
    unfolding ask_phase_def Let_def q_def [symmetric] case_prod_beta
  proof (elim and_thenE, goal_cases)
    case (1 e)
    then show ?case using ask_model_spec [OF 1(1)]
      by (intro exI [of _ q] exI [of _ "[EvAsk q False]"]) (auto simp: tools quiet_def)
  next
    case (2 x s1 e)
    then show ?case by (simp add: modify_def)
  next
    case (3 x s1 u s2 e)
    have "quiet (s\<lparr>rn_trace := rn_trace s @ [EvAsk q True], rn_turns := rn_turns s + 1\<rparr>) s2"
      using ask_model_spec [OF 3(1)] 3(2) publish_quiet [of "s1\<lparr>rn_turns := rn_turns s1 + 1\<rparr>"]
      by (auto simp: modify_def quiet_def)
    with charge_spec [OF 3(3)] 3(4) tools show ?case
      by (intro exI [of _ q]) (auto simp: quiet_def)
  next
    case (4 x s1 u s2 v s3)
    have "quiet (s\<lparr>rn_trace := rn_trace s @ [EvAsk q True], rn_turns := rn_turns s + 1\<rparr>) s2"
      using ask_model_spec [OF 4(1)] 4(2) publish_quiet [of "s1\<lparr>rn_turns := rn_turns s1 + 1\<rparr>"]
      by (auto simp: modify_def quiet_def)
    with charge_spec [OF 4(3)] 4(4) tools show ?case
      by (intro exI [of _ q]) (auto simp: quiet_def return_def)
  qed
qed

text \<open>The response \<^verbatim>\<open>run\<close> looks for among the updates of an action.\<close>

definition response_in :: "agent_update list \<Rightarrow> agent_response option" where
  "response_in updates =
     (case List.map_filter (\<lambda>u. case u of UpdFinished resp \<Rightarrow> Some resp | _ \<Rightarrow> None) updates of
        [] \<Rightarrow> None | resp # _ \<Rightarrow> Some resp)"

lemma response_in_contents [simp]: "response_in (map UpdContent ps) = None"
  by (simp add: response_in_def List.map_filter_def comp_def)

lemma response_in_finish [simp]: "response_in (map UpdContent ps @ [UpdFinished resp]) = Some resp"
  by (simp add: response_in_def List.map_filter_def comp_def)

definition finished :: "agent_update list \<Rightarrow> bool" where
  "finished updates \<longleftrightarrow> list_ex (\<lambda>u. case u of UpdFinished _ \<Rightarrow> True | _ \<Rightarrow> False) updates"

text \<open>A turn that succeeds appends one reply, whose calls become pending; a turn that fails appends
  nothing.\<close>

definition turn_trace :: "('c, 'w) wiring \<Rightarrow> agent_event list \<Rightarrow> bool" where
  "turn_trace wi tr \<longleftrightarrow> invoked tr = [] \<and> asks tr \<le> 1 \<and> (wi_quota wi \<noteq> None \<longrightarrow> metered Settled tr \<noteq> None)"

lemma turn_spec:
  assumes "turn wi session cx s = (r, s')"
  shows "\<exists>tr. rn_trace s' = rn_trace s @ tr \<and> turn_trace wi tr \<and>
    (asks tr = 0 \<or> rn_turns s < al_max_turns (wi_settings wi)) \<and>
    (case r of
       Inl _ \<Rightarrow> appended tr = [] \<and>
         quiet (s\<lparr>rn_trace := rn_trace s @ tr, rn_turns := rn_turns s + asks tr\<rparr>) s'
     | Inr updates \<Rightarrow> asks tr = 1 \<and> no_loss tr \<and> (wi_quota wi \<noteq> None \<longrightarrow> metered Settled tr = Some Settled) \<and>
         (\<exists>reply. appended tr = [reply] \<and>
            quiet (s\<lparr>rn_trace := rn_trace s @ tr, rn_turns := rn_turns s + 1,
                     rn_pending := rn_pending s @ calls_of (m_content reply)\<rparr>) s' \<and>
            (finished updates \<longleftrightarrow> rn_pending s' = []) \<and>
            (\<forall>resp. response_in updates = Some resp \<longrightarrow> ar_output resp = text_parts (m_content reply))))"
proof (cases "al_max_turns (wi_settings wi) \<le> rn_turns s")
  case True
  with assms show ?thesis by (auto simp: turn_def throw_def turn_trace_def quiet_def)
next
  case False
  note body = assms [unfolded turn_def if_not_P [OF False]]
  from body show ?thesis
  proof (elim and_thenE, goal_cases)
    case (1 e)
    then show ?case using admit_turn_spec [OF 1(1)] False
      by (auto simp: turn_trace_def quiet_def not_le)
  next
    case (2 u s1 e)
    then show ?case using admit_turn_spec [OF 2(1)] fresh_window_quiet [OF 2(2)] False
      by (auto simp: turn_trace_def quiet_def not_le)
  next
    case (3 u s1 window s2 e)
    then show ?case
      using admit_turn_spec [OF 3(1)] fresh_window_quiet [OF 3(2)] ask_phase_spec [OF 3(3)] False
      by (auto simp: turn_trace_def quiet_def not_le)
  next
    case (4 u s1 window s2 response s3)
    have "\<exists>pre. rn_trace s3 = rn_trace s @ pre \<and> invoked pre = [] \<and> asks pre = 1 \<and> appended pre = [] \<and>
        no_loss pre \<and> (wi_quota wi \<noteq> None \<longrightarrow> metered Settled pre = Some Settled) \<and>
        quiet (s\<lparr>rn_trace := rn_trace s @ pre, rn_turns := rn_turns s + 1\<rparr>) s3"
      using admit_turn_spec [OF 4(1)] fresh_window_quiet [OF 4(2)] ask_phase_spec [OF 4(3)]
      by (auto simp: quiet_def split: if_splits)
    then obtain pre where pre: "rn_trace s3 = rn_trace s @ pre" "invoked pre = []" "asks pre = 1"
      "appended pre = []" "no_loss pre" "wi_quota wi \<noteq> None \<longrightarrow> metered Settled pre = Some Settled"
      "quiet (s\<lparr>rn_trace := rn_trace s @ pre, rn_turns := rn_turns s + 1\<rparr>) s3" by blast
    show ?case
    proof (cases "re_finish_reason response = FinishCancelled")
      case True
      then have "r = Inl Cancelled" "s' = s3" using 4(4) by (simp_all add: throw_def)
      then show ?thesis using pre False by (intro exI [of _ pre]) (auto simp: turn_trace_def)
    next
      case go: False
      define reply where "reply = re_message response"
      have "and_then (append_entry wi session cx (entry_new reply)) (\<lambda>_. settle_reply session reply) s3 = (r, s')"
        using 4(4) go by (simp add: reply_def)
      then show ?thesis
      proof (cases rule: and_thenE)
        case (1 e)
        then show ?thesis using append_entry_spec [OF 1(1)] pre False
          by (intro exI [of _ "pre @ [EvAppend (entry_new reply) False]"])
             (auto simp: turn_trace_def quiet_def)
      next
        case (2 x s4)
        then show ?thesis using append_entry_spec [OF 2(1)] pre False
          by (intro exI [of _ "pre @ [EvAppend (entry_new reply) True]"])
             (auto simp: turn_trace_def quiet_def settle_reply_def Let_def finished_def entry_new_def list_ex_iff split: if_splits)
      qed
    qed
  qed
qed

section \<open>What a tool call does\<close>

lemma tool_outcome_of_spec:
  assumes "tool_outcome_of wi cx call s = (r, s')"
  shows "\<exists>x tr. r = Inr x \<and> quiet (s\<lparr>rn_trace := rn_trace s @ tr\<rparr>) s' \<and>
    (tr = [] \<or> (\<exists>ok. tr = [EvInvoke (tc_name call) ok]) \<and> tc_name call \<in> sp_name ` set (rn_available s))"
proof (cases "tc_name call \<in> sp_name ` set (rn_available s)")
  case True
  obtain o1 s1 where c: "call_world (wi_invoke wi (tc_name call) (tc_arguments call) (child cx))
      (\<lambda>ok. Some (EvInvoke (tc_name call) ok)) s = (o1, s1)" by fastforce
  then have s1: "quiet (s\<lparr>rn_trace := rn_trace s @ [EvInvoke (tc_name call) (\<not> isl o1)]\<rparr>) s1"
    by (auto simp: call_world_def log_event_def quiet_def split: prod.splits)
  obtain g s2 where g: "guard wi cx s1 = (g, s2)" by fastforce
  show ?thesis
  proof (cases o1)
    case (Inl e)
    then have "s' = s2" "\<exists>x. r = Inr x"
      using assms True c g by (auto simp: tool_outcome_of_def split: sum.splits)
    then show ?thesis using s1 guard_quiet [OF g] True by (blast intro: quiet_trans)
  next
    case (Inr x)
    then show ?thesis using assms True c s1 by (auto simp: tool_outcome_of_def)
  qed
next
  case False
  then show ?thesis using assms by (auto simp: tool_outcome_of_def quiet_def)
qed

definition answers :: "tool_call \<Rightarrow> message \<Rightarrow> bool" where
  "answers call m \<longleftrightarrow> m_role m = RoleTool \<and> m_name m = None \<and>
     (case m_content m of [ToolResultPart i _ _] \<Rightarrow> i = tc_call_id call | _ \<Rightarrow> False)"

lemma answers_result [simp]: "answers call (ce_message (tool_result_entry (tc_call_id call) v b))"
  by (simp add: answers_def tool_result_entry_def entry_new_def)

lemma call_tool_spec:
  assumes "call_tool wi session cx call s = (r, s')"
  shows "\<exists>tr. rn_trace s' = rn_trace s @ tr \<and> quiet (s\<lparr>rn_trace := rn_trace s @ tr\<rparr>) s' \<and>
    asks tr = 0 \<and> metered Settled tr = Some Settled \<and>
    length (invoked tr) \<le> 1 \<and> set (invoked tr) \<subseteq> sp_name ` set (rn_available s) \<and>
    (no_loss tr \<longrightarrow> (\<exists>m. appended tr = [m] \<and> answers call m)) \<and>
    (\<not> isl r \<longrightarrow> no_loss tr \<and> \<not> finished (projr r))"
  using assms unfolding call_tool_def
proof (cases rule: and_thenE)
  case (1 e)
  then show ?thesis using tool_outcome_of_spec [OF 1(1)] by auto
next
  case (2 x s1)
  obtain outcome stop where x: "x = (outcome, stop)" by (cases x)
  from tool_outcome_of_spec [OF 2(1)] obtain tr1 where
    q: "quiet (s\<lparr>rn_trace := rn_trace s @ tr1\<rparr>) s1" and
    tr1: "tr1 = [] \<or> (\<exists>ok. tr1 = [EvInvoke (tc_name call) ok]) \<and> tc_name call \<in> sp_name ` set (rn_available s)"
    by auto
  let ?entry = "tool_result_entry (tc_call_id call) (to_output outcome) (to_is_error outcome)"
  have facts: "asks tr1 = 0" "metered Settled tr1 = Some Settled" "length (invoked tr1) \<le> 1"
    "set (invoked tr1) \<subseteq> sp_name ` set (rn_available s)" "appended tr1 = []" "no_loss tr1"
    using tr1 by auto
  from 2(2) [unfolded x prod.case] show ?thesis
  proof (cases rule: and_thenE)
    case (1 e)
    then show ?thesis using append_entry_spec [OF 1(1)] q facts
      by (intro exI [of _ "tr1 @ [EvAppend ?entry False]"]) (auto simp: quiet_def)
  next
    case (2 u s2)
    then show ?thesis using append_entry_spec [OF 2(1)] q facts
      by (intro exI [of _ "tr1 @ [EvAppend ?entry True]"])
         (auto simp: quiet_def throw_def return_def finished_def split: option.splits)
  qed
qed

lemma announce_spec:
  assumes "announce wi session call s = (r, s')"
  shows "if al_max_tool_calls (wi_settings wi) \<le> rn_tool_calls s
    then isl r \<and> s' = s\<lparr>rn_pending := call # rn_pending s\<rparr>
    else r = Inr [UpdToolCall call] \<and>
      s' = s\<lparr>rn_tool_calls := rn_tool_calls s + 1, rn_running := Some call\<rparr>"
  using assms by (auto simp: announce_def throw_def)

section \<open>The loop\<close>

lemma step_fuel:
  assumes "step wi session cx s = (Inr updates, s')"
  shows "fuel_left wi s' < fuel_left wi s"
  using assms unfolding step_def
proof (elim and_thenE, goal_cases)
  case (3 u s1 v s2)
  have "same_control s s1" using guard_quiet [OF 3(1)] by (rule quiet_same_control)
  moreover have "rn_pending s2 = rn_pending s1 \<and> rn_running s2 = rn_running s1 \<and> rn_turns s2 = rn_turns s1
      \<and> rn_tool_calls s2 = rn_tool_calls s1"
    using 3(2) by (auto simp: modify_def same_control_def elim!: and_thenE dest!: prepare_spec split: if_splits)
  ultimately have fuel: "fuel_left wi s2 = fuel_left wi s"
    by (simp add: same_control_def fuel_left_def)
  show ?case
  proof (cases "rn_running s2")
    case (Some call)
    with 3(3) have "call_tool wi session cx call (s2\<lparr>rn_running := None\<rparr>) = (Inr updates, s')" by simp
    from call_tool_spec [OF this] Some fuel show ?thesis by (auto simp: fuel_left_def quiet_def)
  next
    case None
    show ?thesis
    proof (cases "rn_pending s2")
      case (Cons call rest)
      with 3(3) None have "announce wi session call (s2\<lparr>rn_pending := rest\<rparr>) = (Inr updates, s')" by simp
      from announce_spec [OF this] None fuel show ?thesis by (auto simp: fuel_left_def split: if_splits)
    next
      case Nil
      with 3(3) None have "turn wi session cx s2 = (Inr updates, s')" by simp
      from turn_spec [OF this] None fuel show ?thesis by (auto simp: fuel_left_def quiet_def)
    qed
  qed
qed simp_all

text \<open>\<^verbatim>\<open>AgentLoop::run\<close>: advance until the response arrives.\<close>

function agent_loop ::
  "('c, 'w) wiring \<Rightarrow> string \<Rightarrow> execution_context \<Rightarrow> (agent_response, 'c, 'w) action" where
  "agent_loop wi session cx s =
     (case advance wi session cx s of
        (Inl e, s') \<Rightarrow> (Inl e, s')
      | (Inr updates, s') \<Rightarrow>
          (case response_in updates of
             Some resp \<Rightarrow> (Inr resp, s')
           | None \<Rightarrow> agent_loop wi session cx s'))"
  by pat_completeness auto
termination
  by (relation "measure (\<lambda>(wi, session, cx, s). fuel_left wi s)")
     (auto simp: advance_def dest: step_fuel split: prod.splits sum.splits)

declare agent_loop.simps [simp del]

definition agent_attribute :: string where
  "agent_attribute = ''aik.agent''"

definition begin_context :: "string \<Rightarrow> string \<Rightarrow> execution_context \<Rightarrow> execution_context" where
  "begin_context agent session cx =
     with_attribute (with_attribute (child cx) agent_attribute (JString agent))
       ''aik.agent.session'' (JString session)"

definition agent_run_request ::
  "('c, 'w) wiring \<Rightarrow> string \<Rightarrow> agent_request \<Rightarrow> execution_context \<Rightarrow> 'c \<Rightarrow> 'w
   \<Rightarrow> agent_response result \<times> ('c, 'w) agent_run" where
  "agent_run_request wi agent request cx c w =
     agent_loop wi (aq_session request) (begin_context agent (aq_session request) cx)
       (run_new wi (aq_input request) c w)"

section \<open>The transcript\<close>

text \<open>The grammar of a conversation: replies, each followed by one result for each of its calls, in
  order. The calls that are still open at the end are returned.\<close>

fun dialogue :: "tool_call list \<Rightarrow> message list \<Rightarrow> tool_call list option" where
  "dialogue opened [] = Some opened"
| "dialogue [] (m # ms) = dialogue (calls_of (m_content m)) ms"
| "dialogue (call # calls) (m # ms) = (if answers call m then dialogue calls ms else None)"

lemma dialogue_append: "dialogue op (xs @ ys) = Option.bind (dialogue op xs) (\<lambda>op'. dialogue op' ys)"
  by (induction op xs rule: dialogue.induct) auto

definition prompt_part :: "('c, 'w) wiring \<Rightarrow> message list \<Rightarrow> bool" where
  "prompt_part wi p \<longleftrightarrow> p = [] \<or>
     (case al_system_prompt (wi_settings wi) of
        None \<Rightarrow> False | Some prompt \<Rightarrow> p = [message_text RoleSystem prompt])"

text \<open>What a run has added to its session: the prompt, the caller's input and a dialogue with the
  given calls open; or, when it stopped while preparing, at most the prompt.\<close>

definition conversation ::
  "('c, 'w) wiring \<Rightarrow> content_part list \<Rightarrow> tool_call list \<Rightarrow> message list \<Rightarrow> bool" where
  "conversation wi input opened ms \<longleftrightarrow>
     (\<exists>p dl. prompt_part wi p \<and> ms = p @ user_message input # dl \<and> dialogue [] dl = Some opened)"

definition transcript :: "('c, 'w) wiring \<Rightarrow> content_part list \<Rightarrow> message list \<Rightarrow> bool" where
  "transcript wi input ms \<longleftrightarrow> prompt_part wi ms \<or> conversation wi input [] ms"

lemma prompt_part_events: "prompt_events wi b p \<Longrightarrow> prompt_part wi (appended p)"
  by (cases b) (auto simp: prompt_events_def prompt_part_def entry_pinned_def entry_new_def)

lemma events_simps:
  "prompt_events wi b p \<Longrightarrow> asks p = 0 \<and> invoked p = [] \<and> metered Settled p = Some Settled"
  "setup_events wi input tr \<Longrightarrow> asks tr = 0 \<and> invoked tr = [] \<and> metered Settled tr = Some Settled \<and> no_loss tr"
  "partial_setup wi input tr \<Longrightarrow> asks tr = 0 \<and> invoked tr = [] \<and> metered Settled tr = Some Settled"
  by (auto simp: prompt_events_def setup_events_def partial_setup_def)

lemma conversation_setup: "setup_events wi input tr \<Longrightarrow> conversation wi input [] (appended tr)"
  by (auto simp: setup_events_def conversation_def entry_new_def dest!: prompt_part_events)

lemma partial_setup_prompt: "partial_setup wi input tr \<Longrightarrow> prompt_part wi (appended tr)"
  by (auto simp: partial_setup_def dest!: prompt_part_events)

lemma conversation_append:
  "conversation wi input op ms \<Longrightarrow> dialogue op ms' = Some op' \<Longrightarrow> conversation wi input op' (ms @ ms')"
  by (fastforce simp: conversation_def dialogue_append)

section \<open>The invariant of a run\<close>

definition within_limits :: "('c, 'w) wiring \<Rightarrow> agent_event list \<Rightarrow> bool" where
  "within_limits wi tr \<longleftrightarrow> asks tr \<le> al_max_turns (wi_settings wi) \<and>
     length (invoked tr) \<le> al_max_tool_calls (wi_settings wi) \<and>
     (\<exists>specs. offered wi specs \<and> set (invoked tr) \<subseteq> sp_name ` set specs)"

text \<open>Between two actions.\<close>

definition run_inv :: "('c, 'w) wiring \<Rightarrow> content_part list \<Rightarrow> ('c, 'w) agent_run \<Rightarrow> bool" where
  "run_inv wi input s \<longleftrightarrow>
     asks (rn_trace s) = rn_turns s \<and> rn_turns s \<le> al_max_turns (wi_settings wi) \<and>
     length (invoked (rn_trace s)) + (if rn_running s = None then 0 else 1) \<le> rn_tool_calls s \<and>
     rn_tool_calls s \<le> al_max_tool_calls (wi_settings wi) \<and>
     no_loss (rn_trace s) \<and> (wi_quota wi \<noteq> None \<longrightarrow> metered Settled (rn_trace s) = Some Settled) \<and>
     (if rn_prepared s
      then offered wi (rn_available s) \<and> set (invoked (rn_trace s)) \<subseteq> sp_name ` set (rn_available s) \<and>
           conversation wi input (outstanding s) (appended (rn_trace s))
      else rn_trace s = [] \<and> outstanding s = [] \<and> rn_input s = input)"

text \<open>When an action has failed, before the outstanding calls are abandoned.\<close>

definition stopped_inv :: "('c, 'w) wiring \<Rightarrow> content_part list \<Rightarrow> ('c, 'w) agent_run \<Rightarrow> bool" where
  "stopped_inv wi input s \<longleftrightarrow> within_limits wi (rn_trace s) \<and>
     (wi_quota wi \<noteq> None \<longrightarrow>
        metered Settled (rn_trace s) \<noteq> None \<and>
        (outstanding s \<noteq> [] \<longrightarrow> metered Settled (rn_trace s) = Some Settled)) \<and>
     (no_loss (rn_trace s) \<longrightarrow>
        prompt_part wi (appended (rn_trace s)) \<and> outstanding s = [] \<or>
        conversation wi input (outstanding s) (appended (rn_trace s)))"

text \<open>When the run is over.\<close>

definition over_inv :: "('c, 'w) wiring \<Rightarrow> content_part list \<Rightarrow> agent_event list \<Rightarrow> bool" where
  "over_inv wi input tr \<longleftrightarrow> within_limits wi tr \<and> (wi_quota wi \<noteq> None \<longrightarrow> metered Settled tr \<noteq> None) \<and>
     (no_loss tr \<longrightarrow> transcript wi input (appended tr))"

lemma run_inv_new: "run_inv wi input (run_new wi input c w)"
  by (simp add: run_inv_def run_new_def outstanding_def split: prod.split)

lemma offered_Nil [simp]: "offered wi []"
  by (simp add: offered_def split: option.split)

lemma same_control_outstanding: "same_control s s' \<Longrightarrow> outstanding s' = outstanding s"
  by (simp add: same_control_def outstanding_def)

lemma run_inv_quiet: "run_inv wi input s \<Longrightarrow> quiet s s' \<Longrightarrow> run_inv wi input s'"
  using same_control_outstanding [OF quiet_same_control, of s s'] by (simp add: run_inv_def quiet_def)

lemma run_inv_limits: "run_inv wi input s \<Longrightarrow> within_limits wi (rn_trace s)"
proof -
  assume inv: "run_inv wi input s"
  have "\<exists>specs. offered wi specs \<and> set (invoked (rn_trace s)) \<subseteq> sp_name ` set specs"
    using inv by (cases "rn_prepared s") (auto simp: run_inv_def intro: exI [of _ "[]"])
  with inv show ?thesis by (auto simp: run_inv_def within_limits_def)
qed

lemma run_inv_stopped: "run_inv wi input s \<Longrightarrow> stopped_inv wi input s"
  using run_inv_limits [of wi input s]
  by (cases "rn_prepared s") (auto simp: run_inv_def stopped_inv_def prompt_part_def)

lemma prepare_phase:
  assumes "run_inv wi input s"
    and "(if rn_prepared s then (Inr (), s)
          else and_then (prepare wi session cx) (\<lambda>_. modify (\<lambda>s. s\<lparr>rn_prepared := True\<rparr>)) s) = (r, s')"
  shows "if isl r then stopped_inv wi input s' else run_inv wi input s' \<and> rn_prepared s'"
proof (cases "rn_prepared s")
  case True
  with assms show ?thesis by auto
next
  case False
  with assms(1) have s: "rn_trace s = []" "outstanding s = []" "rn_input s = input" "rn_turns s = 0"
    by (auto simp: run_inv_def)
  from assms(2) False have "and_then (prepare wi session cx) (\<lambda>_. modify (\<lambda>s. s\<lparr>rn_prepared := True\<rparr>)) s = (r, s')"
    by simp
  then show ?thesis
  proof (cases rule: and_thenE)
    case (1 e)
    from prepare_spec [OF 1(1)] s 1(2) obtain tr where "rn_trace s' = tr" "partial_setup wi input tr" "same_control s s'"
      by auto
    with s 1(2) show ?thesis
      using same_control_outstanding [of s s'] events_simps(3) [of wi input tr] partial_setup_prompt [of wi input tr]
      by (auto simp: stopped_inv_def within_limits_def intro: exI [of _ "[]"])
  next
    case (2 x s1)
    from prepare_spec [OF 2(1)] s obtain tr where "rn_trace s1 = tr" "setup_events wi input tr" "same_control s s1"
      "offered wi (rn_available s1)"
      by auto
    with s 2(2) assms(1) show ?thesis
      using events_simps(2) [of wi input tr] conversation_setup [of wi input tr]
      by (auto simp: run_inv_def same_control_def outstanding_def modify_def)
  qed
qed

text \<open>A response is the content of the last reply, which asked for no tool.\<close>

definition answered_by :: "agent_response \<Rightarrow> agent_event list \<Rightarrow> bool" where
  "answered_by resp tr \<longleftrightarrow> appended tr \<noteq> [] \<and> ar_output resp = m_content (last (appended tr)) \<and>
     calls_of (ar_output resp) = []"

lemma text_parts_all: "calls_of ps = [] \<Longrightarrow> text_parts ps = ps"
  unfolding text_parts_def by (induction ps rule: calls_of.induct) auto

lemma response_in_finished: "response_in updates = Some resp \<Longrightarrow> finished updates"
  by (induction updates) (auto simp: response_in_def finished_def List.map_filter_def split: list.splits
      agent_update.splits option.splits if_splits)

text \<open>The three kinds of action of a prepared run.\<close>

definition advanced :: "('c, 'w) wiring \<Rightarrow> content_part list \<Rightarrow> agent_update list result \<Rightarrow> ('c, 'w) agent_run \<Rightarrow> bool" where
  "advanced wi input r s' \<longleftrightarrow>
     (case r of
        Inl _ \<Rightarrow> stopped_inv wi input s'
      | Inr updates \<Rightarrow> run_inv wi input s' \<and> (finished updates \<longrightarrow> outstanding s' = []) \<and>
          (\<forall>resp. response_in updates = Some resp \<longrightarrow> answered_by resp (rn_trace s')))"

lemma turn_inv:
  assumes inv: "run_inv wi input s" and prep: "rn_prepared s" and idle: "rn_running s = None" "rn_pending s = []"
    and run: "turn wi session cx s = (r, s')"
  shows "advanced wi input r s'"
proof -
  from turn_spec [OF run] obtain tr where tr: "rn_trace s' = rn_trace s @ tr" "turn_trace wi tr"
    "asks tr = 0 \<or> rn_turns s < al_max_turns (wi_settings wi)" and
    res: "case r of
       Inl _ \<Rightarrow> appended tr = [] \<and>
         quiet (s\<lparr>rn_trace := rn_trace s @ tr, rn_turns := rn_turns s + asks tr\<rparr>) s'
     | Inr updates \<Rightarrow> asks tr = 1 \<and> no_loss tr \<and> (wi_quota wi \<noteq> None \<longrightarrow> metered Settled tr = Some Settled) \<and>
         (\<exists>reply. appended tr = [reply] \<and>
            quiet (s\<lparr>rn_trace := rn_trace s @ tr, rn_turns := rn_turns s + 1,
                     rn_pending := rn_pending s @ calls_of (m_content reply)\<rparr>) s' \<and>
            (finished updates \<longleftrightarrow> rn_pending s' = []) \<and>
            (\<forall>resp. response_in updates = Some resp \<longrightarrow> ar_output resp = text_parts (m_content reply)))" by blast
  have conv: "conversation wi input [] (appended (rn_trace s))"
    using inv prep idle by (auto simp: run_inv_def outstanding_def)
  have lim: "asks (rn_trace s') \<le> al_max_turns (wi_settings wi)" "invoked (rn_trace s') = invoked (rn_trace s)"
    using inv tr by (auto simp: run_inv_def turn_trace_def)
  show ?thesis
  proof (cases r)
    case (Inl e)
    with res have q: "appended tr = []" "quiet (s\<lparr>rn_trace := rn_trace s @ tr, rn_turns := rn_turns s + asks tr\<rparr>) s'"
      by auto
    then have out: "outstanding s' = []" using idle by (simp add: quiet_def outstanding_def)
    have "within_limits wi (rn_trace s')"
      using lim run_inv_limits [OF inv] by (auto simp: within_limits_def)
    moreover have "wi_quota wi \<noteq> None \<longrightarrow> metered Settled (rn_trace s') \<noteq> None"
      using inv tr by (auto simp: run_inv_def turn_trace_def)
    ultimately show ?thesis
      using out conv tr(1) q(1) by (simp add: advanced_def stopped_inv_def Inl)
  next
    case (Inr updates)
    with res obtain reply where q: "asks tr = 1" "no_loss tr" "wi_quota wi \<noteq> None \<longrightarrow> metered Settled tr = Some Settled"
      "appended tr = [reply]" "finished updates \<longleftrightarrow> rn_pending s' = []"
      "\<forall>resp. response_in updates = Some resp \<longrightarrow> ar_output resp = text_parts (m_content reply)"
      "quiet (s\<lparr>rn_trace := rn_trace s @ tr, rn_turns := rn_turns s + 1,
                     rn_pending := rn_pending s @ calls_of (m_content reply)\<rparr>) s'" by auto
    have out: "outstanding s' = calls_of (m_content reply)" using q(7) idle by (simp add: quiet_def outstanding_def)
    have "conversation wi input (outstanding s') (appended (rn_trace s'))"
      unfolding out using conversation_append [OF conv, of "[reply]"] tr(1) q(4) by simp
    moreover have "answered_by resp (rn_trace s')" if "response_in updates = Some resp" for resp
      using q out idle tr(1) response_in_finished [OF that] that
      by (auto simp: answered_by_def quiet_def outstanding_def text_parts_all)
    ultimately show ?thesis
      using inv prep q tr lim out idle
      by (auto simp: advanced_def Inr run_inv_def quiet_def outstanding_def)
  qed
qed

lemma announce_inv:
  assumes inv: "run_inv wi input s" and prep: "rn_prepared s" and idle: "rn_running s = None" "rn_pending s = call # rest"
    and run: "announce wi session call (s\<lparr>rn_pending := rest\<rparr>) = (r, s')"
  shows "advanced wi input r s'"
proof (cases "al_max_tool_calls (wi_settings wi) \<le> rn_tool_calls s")
  case True
  with announce_spec [OF run] have "isl r" "s' = s\<lparr>rn_pending := call # rest\<rparr>" by auto
  then have "isl r" "s' = s" using idle by simp_all
  then show ?thesis using run_inv_stopped [OF inv] by (auto simp: advanced_def split: sum.splits)
next
  case False
  with announce_spec [OF run] have "r = Inr [UpdToolCall call]"
    "s' = s\<lparr>rn_pending := rest, rn_tool_calls := rn_tool_calls s + 1, rn_running := Some call\<rparr>" by auto
  then show ?thesis
    using inv prep idle False
    by (auto simp: advanced_def run_inv_def outstanding_def finished_def response_in_def List.map_filter_def)
qed

lemma call_inv:
  assumes inv: "run_inv wi input s" and prep: "rn_prepared s" and busy: "rn_running s = Some call"
    and run: "call_tool wi session cx call (s\<lparr>rn_running := None\<rparr>) = (r, s')"
  shows "advanced wi input r s'"
proof -
  from call_tool_spec [OF run] obtain tr where tr: "rn_trace s' = rn_trace s @ tr"
    "quiet (s\<lparr>rn_running := None, rn_trace := rn_trace s @ tr\<rparr>) s'" "asks tr = 0"
    "metered Settled tr = Some Settled" "length (invoked tr) \<le> 1"
    "set (invoked tr) \<subseteq> sp_name ` set (rn_available s)"
    "no_loss tr \<longrightarrow> (\<exists>m. appended tr = [m] \<and> answers call m)"
    "\<not> isl r \<longrightarrow> no_loss tr \<and> \<not> finished (projr r)" by auto
  have out: "outstanding s = call # outstanding s'" using busy tr(2) by (simp add: quiet_def outstanding_def)
  have conv: "conversation wi input (call # outstanding s') (appended (rn_trace s))"
    using inv prep out by (auto simp: run_inv_def)
  have conv': "conversation wi input (outstanding s') (appended (rn_trace s'))" if "no_loss tr"
  proof -
    from tr(7) that obtain m where "appended tr = [m]" "answers call m" by blast
    with conversation_append [OF conv, of "[m]"] show ?thesis by (simp add: tr(1))
  qed
  have lim: "length (invoked (rn_trace s')) \<le> rn_tool_calls s" "rn_tool_calls s \<le> al_max_tool_calls (wi_settings wi)"
    "asks (rn_trace s') = rn_turns s" "rn_turns s \<le> al_max_turns (wi_settings wi)"
    "set (invoked (rn_trace s')) \<subseteq> sp_name ` set (rn_available s)" "offered wi (rn_available s)"
    "wi_quota wi \<noteq> None \<longrightarrow> metered Settled (rn_trace s') = Some Settled"
    using inv prep busy tr by (auto simp: run_inv_def)
  show ?thesis
  proof (cases r)
    case (Inl e)
    have "within_limits wi (rn_trace s')" using lim by (auto simp: within_limits_def)
    then show ?thesis using lim(7) conv' tr(1) by (auto simp: advanced_def Inl stopped_inv_def)
  next
    case (Inr updates)
    then have "no_loss tr" "\<not> finished updates" using tr(8) by auto
    then show ?thesis
      using inv prep lim conv' tr(1,2) response_in_finished [of updates]
      by (auto simp: advanced_def Inr run_inv_def quiet_def)
  qed
qed

lemma step_inv:
  assumes "run_inv wi input s" and "step wi session cx s = (r, s')"
  shows "advanced wi input r s'"
  using assms(2) unfolding step_def
proof (elim and_thenE, goal_cases)
  case (1 e)
  then show ?case
    using run_inv_stopped [OF run_inv_quiet [OF assms(1) guard_quiet [OF 1(1)]]] by (simp add: advanced_def)
next
  case (2 u s1 e)
  then show ?case
    using prepare_phase [OF run_inv_quiet [OF assms(1) guard_quiet [OF 2(1)]] 2(2)] by (simp add: advanced_def)
next
  case (3 u s1 v s2)
  have inv: "run_inv wi input s2" "rn_prepared s2"
    using prepare_phase [OF run_inv_quiet [OF assms(1) guard_quiet [OF 3(1)]] 3(2)] by auto
  show ?case
  proof (cases "rn_running s2")
    case (Some call)
    with 3(3) call_inv [OF inv Some] show ?thesis by simp
  next
    case None
    with 3(3) announce_inv [OF inv None] turn_inv [OF inv None] show ?thesis by (cases "rn_pending s2") auto
  qed
qed

section \<open>A run as a whole\<close>

lemma abandoned_answers [simp]: "answers call (ce_message (abandoned_entry wi reason call))"
  by (simp add: abandoned_entry_def)

lemma abandon_fold:
  "\<exists>tr. rn_trace (fold (\<lambda>call s. snd (append_entry wi session cx (abandoned_entry wi reason call) s)) calls s)
      = rn_trace s @ tr \<and> asks tr = 0 \<and> invoked tr = [] \<and> metered Settled tr = Some Settled \<and>
      (calls = [] \<longrightarrow> tr = []) \<and> (no_loss tr \<longrightarrow> dialogue calls (appended tr) = Some [])"
proof (induction calls arbitrary: s)
  case (Cons call calls)
  obtain r s1 where ap: "append_entry wi session cx (abandoned_entry wi reason call) s = (r, s1)" by fastforce
  from append_entry_spec [OF ap]
  have s1: "rn_trace s1 = rn_trace s @ [EvAppend (abandoned_entry wi reason call) (\<not> isl r)]" by auto
  from Cons [of s1] obtain tr where
    "rn_trace (fold (\<lambda>call s. snd (append_entry wi session cx (abandoned_entry wi reason call) s)) calls s1)
      = rn_trace s1 @ tr" "asks tr = 0" "invoked tr = []" "metered Settled tr = Some Settled"
    "no_loss tr \<longrightarrow> dialogue calls (appended tr) = Some []" by blast
  then show ?case
    by (intro exI [of _ "EvAppend (abandoned_entry wi reason call) (\<not> isl r) # tr"])
       (cases "isl r"; simp add: ap s1)
qed simp

lemma abandon_over:
  assumes "stopped_inv wi input s"
  shows "over_inv wi input (rn_trace (abandon_outstanding_calls wi session cx reason s))"
proof -
  from abandon_fold [where calls = "outstanding s" and s = "s\<lparr>rn_running := None, rn_pending := []\<rparr>" and wi = wi
      and session = session and cx = cx and reason = reason]
  obtain tr where tr: "rn_trace (abandon_outstanding_calls wi session cx reason s) = rn_trace s @ tr"
    "asks tr = 0" "invoked tr = []" "metered Settled tr = Some Settled" "outstanding s = [] \<longrightarrow> tr = []"
    "no_loss tr \<longrightarrow> dialogue (outstanding s) (appended tr) = Some []"
    by (auto simp: abandon_outstanding_calls_def)
  have "within_limits wi (rn_trace s @ tr)" using assms tr by (simp add: stopped_inv_def within_limits_def)
  moreover have "wi_quota wi \<noteq> None \<longrightarrow> metered Settled (rn_trace s @ tr) \<noteq> None"
    using assms tr by (cases "outstanding s = []") (auto simp: stopped_inv_def)
  moreover have "transcript wi input (appended (rn_trace s @ tr))" if "no_loss (rn_trace s @ tr)"
  proof -
    from that assms consider "prompt_part wi (appended (rn_trace s))" "outstanding s = []"
      | "conversation wi input (outstanding s) (appended (rn_trace s))" by (auto simp: stopped_inv_def)
    then show ?thesis
    proof cases
      case 1
      with tr(5) show ?thesis by (simp add: transcript_def)
    next
      case 2
      with conversation_append [of wi input "outstanding s" "appended (rn_trace s)" "appended tr" "[]"] tr(6) that
      show ?thesis by (simp add: transcript_def)
    qed
  qed
  ultimately show ?thesis by (simp add: over_inv_def tr(1))
qed

lemma run_inv_over: "run_inv wi input s \<Longrightarrow> outstanding s = [] \<Longrightarrow> over_inv wi input (rn_trace s)"
  using run_inv_limits [of wi input s]
  by (cases "rn_prepared s") (auto simp: run_inv_def over_inv_def transcript_def prompt_part_def)

lemma agent_loop_over:
  "run_inv wi input s \<Longrightarrow> agent_loop wi session cx s = (r, s') \<Longrightarrow>
   over_inv wi input (rn_trace s') \<and> (\<forall>resp. r = Inr resp \<longrightarrow> answered_by resp (rn_trace s'))"
proof (induction wi session cx s arbitrary: r s' rule: agent_loop.induct)
  case (1 wi session cx s)
  obtain res s1 where st: "step wi session cx s = (res, s1)" by fastforce
  note adv = step_inv [OF 1(2) st]
  show ?case
  proof (cases res)
    case (Inl e)
    then have "s' = abandon_outstanding_calls wi session cx e s1" "r = Inl e"
      using 1(3) st by (simp_all add: agent_loop.simps advance_def)
    then show ?thesis using adv abandon_over by (simp add: advanced_def Inl)
  next
    case (Inr updates)
    have ad: "advance wi session cx s = (Inr updates, s1)" using st Inr by (simp add: advance_def)
    show ?thesis
    proof (cases "response_in updates")
      case None
      have "agent_loop wi session cx s1 = (r, s')"
        using 1(3) ad None by (subst (asm) agent_loop.simps) simp
      then show ?thesis using 1(1) [OF ad [symmetric] refl None] adv by (simp add: advanced_def Inr)
    next
      case (Some resp)
      then have "s' = s1" "r = Inr resp" using 1(3) ad by (subst (asm) agent_loop.simps, simp)+
      then show ?thesis
        using adv run_inv_over [of wi input s1] response_in_finished [OF Some] Some
        by (simp add: advanced_def Inr)
    qed
  qed
qed

section \<open>The run and the log of its session\<close>

text \<open>An action keeps a property of runs.\<close>

definition keeps :: "(('c, 'w) agent_run \<Rightarrow> bool) \<Rightarrow> ('a, 'c, 'w) action \<Rightarrow> bool" where
  "keeps P m \<longleftrightarrow> (\<forall>s. P s \<longrightarrow> P (snd (m s)))"

lemma keepsD: "keeps P m \<Longrightarrow> P s \<Longrightarrow> m s = (r, s') \<Longrightarrow> P s'"
  unfolding keeps_def by (metis snd_conv)

lemma keeps_and_then: "keeps P m \<Longrightarrow> (\<And>x. keeps P (f x)) \<Longrightarrow> keeps P (and_then m f)"
  by (fastforce simp: keeps_def and_then_def split: prod.split sum.split)

lemma keeps_simple: "keeps P (return x)" "keeps P (throw e)" "keeps P (read_window wi session cx)"
  "keeps P (\<lambda>s. (f s, s))"
  by (simp_all add: keeps_def return_def throw_def read_window_def)

lemma keeps_option: "(x = None \<Longrightarrow> keeps P m) \<Longrightarrow> (\<And>y. x = Some y \<Longrightarrow> keeps P (f y)) \<Longrightarrow>
    keeps P (case x of None \<Rightarrow> m | Some y \<Rightarrow> f y)"
  by (cases x) simp_all

lemma keeps_if: "keeps P m \<Longrightarrow> keeps P n \<Longrightarrow> keeps P (if b then m else n)"
  by simp

lemma keeps_quiet: "(\<And>s r s'. m s = (r, s') \<Longrightarrow> P s \<Longrightarrow> P s') \<Longrightarrow> keeps P m"
  unfolding keeps_def by (metis prod.collapse)

lemmas keeps_rules = keeps_and_then keeps_simple keeps_option keeps_if

text \<open>Properties of the store and of what was appended, which every append keeps: without a
  compactor, a whole run keeps them.\<close>

definition append_stable ::
  "('c, 'w) wiring \<Rightarrow> string \<Rightarrow> execution_context \<Rightarrow> (('c, 'w) agent_run \<Rightarrow> bool) \<Rightarrow> bool" where
  "append_stable wi session cx P \<longleftrightarrow> wi_compactor wi = None \<and>
     (\<forall>entry. keeps P (append_entry wi session cx entry)) \<and>
     (\<forall>s s'. rn_ctx s' = rn_ctx s \<longrightarrow> appended (rn_trace s') = appended (rn_trace s) \<longrightarrow> P s \<longrightarrow> P s')"

lemma stable_frame:
  "append_stable wi session cx P \<Longrightarrow> rn_ctx s' = rn_ctx s \<Longrightarrow> appended (rn_trace s') = appended (rn_trace s) \<Longrightarrow>
   P s \<Longrightarrow> P s'"
  unfolding append_stable_def by blast

lemma stable_append: "append_stable wi session cx P \<Longrightarrow> keeps P (append_entry wi session cx entry)"
  unfolding append_stable_def by blast

lemma stable_world:
  assumes "append_stable wi session cx P" and "\<And>ok e. ev ok = Some e \<Longrightarrow> appended [e] = []"
  shows "keeps P (call_world f ev)"
  by (rule keeps_quiet, rule stable_frame [OF assms(1)])
     (use assms(2) in \<open>auto simp: call_world_def log_event_def split: prod.splits option.splits\<close>)

lemma stable_modify:
  assumes "append_stable wi session cx P" and "\<And>s. rn_ctx (g s) = rn_ctx s \<and> rn_trace (g s) = rn_trace s"
  shows "keeps P (modify g)"
  by (rule keeps_quiet, rule stable_frame [OF assms(1)]) (use assms(2) in \<open>auto simp: modify_def\<close>)

lemma stable_guard: "append_stable wi session cx P \<Longrightarrow> keeps P (guard wi cx')"
  by (rule keeps_quiet, rule stable_frame)
     (auto simp: guard_def split: prod.splits option.splits if_splits)

lemma stable_room: "append_stable wi session cx P \<Longrightarrow> keeps P (make_room wi session cx n)"
  by (simp add: keeps_def make_room_def compactor_of_def append_stable_def)

lemma stable_prepare:
  assumes "append_stable wi session cx P"
  shows "keeps P (prepare wi session cx)"
proof -
  have "keeps P (early_room wi session cx)"
    using assms by (simp add: keeps_def early_room_def compactor_of_def append_stable_def)
  moreover have "keeps P (add_input wi session cx)"
  proof (rule keeps_quiet)
    fix s r s' assume "add_input wi session cx s = (r, s')" "P s"
    then show "P s'"
      unfolding add_input_def Let_def
      by (elim keepsD [OF stable_append [OF assms], rotated]) (rule stable_frame [OF assms], auto)
  qed
  ultimately show ?thesis
    unfolding prepare_def add_prompt_def
    by (intro keeps_rules stable_world [OF assms] stable_modify [OF assms] stable_append [OF assms]) auto
qed

lemma stable_ask:
  assumes "append_stable wi session cx P"
  shows "keeps P (ask_phase wi session cx window)"
proof (rule keeps_quiet)
  fix s r s' assume run: "ask_phase wi session cx window s = (r, s')" and P: "P s"
  have ask: "keeps P (ask_model wi cx q)" for q
    by (rule keeps_quiet, rule stable_frame [OF assms])
       (auto simp: ask_model_def log_event_def split: prod.splits)
  have pub: "rn_ctx (publish_measurement wi session cx est u pu d (add_usage us (s\<lparr>rn_turns := n\<rparr>))) = rn_ctx s \<and>
      rn_trace (publish_measurement wi session cx est u pu d (add_usage us (s\<lparr>rn_turns := n\<rparr>))) = rn_trace s"
    for est u pu d us s n
    by (auto simp: publish_measurement_def add_usage_def split: option.splits prod.splits)
  have ch: "keeps P (charge wi cx u est reply)" for u est reply
    unfolding charge_def Let_def by (intro keeps_rules stable_world [OF assms]) auto
  have "P (s\<lparr>rn_current_input_tokens := None\<rparr>)" by (rule stable_frame [OF assms _ _ P]) auto
  with run show "P s'"
    unfolding ask_phase_def Let_def case_prod_beta
    by (elim keepsD [rotated 2])
       (intro keeps_rules ask ch stable_modify [OF assms pub])
qed

lemma stable_turn:
  assumes "append_stable wi session cx P"
  shows "keeps P (turn wi session cx)"
proof (rule keeps_quiet)
  have settle: "keeps P (settle_reply session reply)" for reply
    by (rule keeps_quiet, rule stable_frame [OF assms]) (auto simp: settle_reply_def Let_def)
  have adm: "keeps P (admit_turn wi cx)"
    unfolding admit_turn_def by (intro keeps_rules stable_world [OF assms]) auto
  have win: "keeps P (fresh_window wi session cx)"
    unfolding fresh_window_def by (intro keeps_rules stable_room [OF assms])
  fix s r s' assume "turn wi session cx s = (r, s')" "P s"
  then show "P s'"
    unfolding turn_def
    by (cases "al_max_turns (wi_settings wi) \<le> rn_turns s")
       (simp add: throw_def,
        simp only: if_False,
        elim keepsD [rotated 2],
        intro keeps_rules adm win settle stable_ask [OF assms] stable_append [OF assms])
qed

lemma stable_call_tool:
  assumes "append_stable wi session cx P"
  shows "keeps P (call_tool wi session cx call)"
proof -
  have "keeps P (tool_outcome_of wi cx call)"
  proof (rule keeps_quiet)
    fix s r s' assume run: "tool_outcome_of wi cx call s = (r, s')" and P: "P s"
    let ?inv = "call_world (wi_invoke wi (tc_name call) (tc_arguments call) (child cx))
        (\<lambda>ok. Some (EvInvoke (tc_name call) ok))"
    obtain o1 s1 where c: "?inv s = (o1, s1)" by fastforce
    obtain g s2 where g: "guard wi cx s1 = (g, s2)" by fastforce
    have "P s1" by (rule keepsD [OF stable_world [OF assms] P c]) auto
    moreover from this have "P s2" by (rule keepsD [OF stable_guard [OF assms] _ g])
    moreover have "s' = s \<or> s' = s1 \<or> s' = s2"
      using run c g by (auto simp: tool_outcome_of_def split: if_splits sum.splits)
    ultimately show "P s'" using P by auto
  qed
  then show ?thesis
    unfolding call_tool_def case_prod_beta by (intro keeps_rules stable_append [OF assms])
qed

lemma stable_step:
  assumes "append_stable wi session cx P"
  shows "keeps P (step wi session cx)"
proof -
  have prep: "keeps P (\<lambda>s. if rn_prepared s then (Inr (), s)
      else and_then (prepare wi session cx) (\<lambda>_. modify (\<lambda>s. s\<lparr>rn_prepared := True\<rparr>)) s)"
  proof -
    have "keeps P (and_then (prepare wi session cx) (\<lambda>_. modify (\<lambda>s. s\<lparr>rn_prepared := True\<rparr>)))"
      by (intro keeps_rules stable_prepare [OF assms] stable_modify [OF assms]) auto
    then show ?thesis by (simp add: keeps_def)
  qed
  have act: "keeps P (\<lambda>s. case rn_running s of
            Some call \<Rightarrow> call_tool wi session cx call (s\<lparr>rn_running := None\<rparr>)
          | None \<Rightarrow>
              (case rn_pending s of
                 call # rest \<Rightarrow> announce wi session call (s\<lparr>rn_pending := rest\<rparr>)
               | [] \<Rightarrow> turn wi session cx s))"
  proof (unfold keeps_def, intro allI impI)
    fix s assume P: "P s"
    have "P (s\<lparr>rn_running := None\<rparr>)" by (rule stable_frame [OF assms _ _ P]) auto
    then have "P (snd (call_tool wi session cx call (s\<lparr>rn_running := None\<rparr>)))" for call
      using stable_call_tool [OF assms] unfolding keeps_def by blast
    moreover have "P (snd (turn wi session cx s))"
      using stable_turn [OF assms] P unfolding keeps_def by blast
    moreover have "P (snd (announce wi session call (s\<lparr>rn_pending := rest\<rparr>)))" for call rest
      by (rule stable_frame [OF assms _ _ P]) (auto simp: announce_def throw_def)
    ultimately show "P (snd (case rn_running s of
            Some call \<Rightarrow> call_tool wi session cx call (s\<lparr>rn_running := None\<rparr>)
          | None \<Rightarrow>
              (case rn_pending s of
                 call # rest \<Rightarrow> announce wi session call (s\<lparr>rn_pending := rest\<rparr>)
               | [] \<Rightarrow> turn wi session cx s)))"
      by (simp split: option.split list.split)
  qed
  show ?thesis
    unfolding step_def by (intro keeps_and_then stable_guard [OF assms] prep act)
qed

lemma stable_advance:
  assumes "append_stable wi session cx P"
  shows "keeps P (advance wi session cx)"
proof -
  have "P (fold (\<lambda>call s. snd (append_entry wi session cx (abandoned_entry wi e call) s)) calls s)"
    if "P s" for calls e s
    using that stable_append [OF assms] by (induction calls arbitrary: s) (auto simp: keeps_def)
  moreover have "P (s\<lparr>rn_running := None, rn_pending := []\<rparr>)" if "P s" for s
    by (rule stable_frame [OF assms _ _ that]) auto
  ultimately have "P (abandon_outstanding_calls wi session cx e s)" if "P s" for e s
    using that by (simp add: abandon_outstanding_calls_def)
  then show ?thesis
    using stable_step [OF assms] by (fastforce simp: keeps_def advance_def split: prod.split sum.split)
qed

lemma stable_loop:
  "append_stable wi session cx P \<Longrightarrow> P s \<Longrightarrow> agent_loop wi session cx s = (r, s') \<Longrightarrow> P s'"
proof (induction wi session cx s arbitrary: r s' rule: agent_loop.induct)
  case (1 wi session cx s)
  obtain res s1 where ad: "advance wi session cx s = (res, s1)" by fastforce
  have "P s1" using keepsD [OF stable_advance [OF 1(2)] 1(3) ad] .
  show ?case
  proof (cases res)
    case (Inl e)
    then show ?thesis using 1(4) ad \<open>P s1\<close> by (simp add: agent_loop.simps)
  next
    case (Inr updates)
    show ?thesis
    proof (cases "response_in updates")
      case None
      have "agent_loop wi session cx s1 = (r, s')"
        using 1(4) ad None Inr by (subst (asm) agent_loop.simps) simp
      with 1(1) [OF ad [symmetric] Inr None] 1(2) \<open>P s1\<close> show ?thesis by blast
    next
      case (Some resp)
      then have "s' = s1" using 1(4) ad Inr by (subst (asm) agent_loop.simps) simp
      then show ?thesis using \<open>P s1\<close> by simp
    qed
  qed
qed

context message_log
begin

text \<open>Every log is what it was, and the run's own has grown by what the run appended.\<close>

lemma logged_append:
  assumes "append_entry wi session cx entry s = (r, s')" and "wi_append wi = add"
    and "\<forall>sid. log (rn_ctx s) sid = log c0 sid @ (if sid = session then appended (rn_trace s) else [])"
  shows "\<forall>sid. log (rn_ctx s') sid = log c0 sid @ (if sid = session then appended (rn_trace s') else [])"
proof
  fix sid
  obtain res c where ap: "add session entry cx (rn_ctx s) = (res, c)" by fastforce
  have s': "rn_ctx s' = c" "rn_trace s' = rn_trace s @ [EvAppend entry (\<not> isl res)]"
    using assms(1,2) ap by (auto simp: append_entry_def log_event_def)
  show "log (rn_ctx s') sid = log c0 sid @ (if sid = session then appended (rn_trace s') else [])"
  proof (cases res)
    case (Inl e)
    with add_failed [of session entry cx "rn_ctx s" e c] ap assms(3) s' show ?thesis by simp
  next
    case (Inr rec)
    with add_ok [of session entry cx "rn_ctx s" rec c] add_other [OF ap, of sid] ap assms(3) s' show ?thesis by auto
  qed
qed

lemma logged_run:
  assumes "wi_append wi = add" and "wi_compactor wi = None"
    and "agent_run_request wi agent request cx c w = (r, s')"
  shows "log (rn_ctx s') sid = log c sid @ (if sid = aq_session request then appended (rn_trace s') else [])"
proof -
  let ?session = "aq_session request"
  let ?P = "\<lambda>s. \<forall>sid. log (rn_ctx s) sid = log c sid @ (if sid = ?session then appended (rn_trace s) else [])"
  have "append_stable wi ?session cx' ?P" for cx'
    unfolding append_stable_def using assms(2)
    by (intro conjI allI impI keeps_quiet logged_append [OF _ assms(1)]) auto
  moreover have "?P (run_new wi (aq_input request) c w)" by (simp add: run_new_def split: prod.split)
  ultimately show ?thesis using stable_loop assms(3) unfolding agent_run_request_def by blast
qed

end

lemma agent_run_over:
  assumes "agent_run_request wi agent request cx c w = (r, s')"
  shows "over_inv wi (aq_input request) (rn_trace s')" "r = Inr resp \<Longrightarrow> answered_by resp (rn_trace s')"
  using agent_loop_over [OF run_inv_new assms [unfolded agent_run_request_def]] by auto

section \<open>Properties\<close>

text \<open>C22. A run of the agent always ends, within its limits: whatever the model, the tools and the
  clock do, the model answers at most as many requests as there are turns, tools are invoked at
  most as often as allowed, and only tools the agent was given are invoked.\<close>

theorem agent_bounded:
  "let tr = rn_trace (snd (agent_run_request wi agent request cx c w)) in
     asks tr \<le> al_max_turns (wi_settings wi) \<and> length (invoked tr) \<le> al_max_tool_calls (wi_settings wi) \<and>
     (case wi_allowed wi of None \<Rightarrow> True | Some allowed \<Rightarrow> set (invoked tr) \<subseteq> set allowed)"
proof -
  obtain r s' where run: "agent_run_request wi agent request cx c w = (r, s')" by fastforce
  from agent_run_over(1) [OF run] have "within_limits wi (rn_trace s')" by (simp add: over_inv_def)
  then show ?thesis
    by (cases "wi_allowed wi") (auto simp: run Let_def within_limits_def offered_def dest: subset_trans)
qed



section \<open>Witnesses\<close>

text \<open>A world that counts model calls: the first answer asks for a tool, the second is final.\<close>

definition demo_reply :: "nat \<Rightarrow> completion_response" where
  "demo_reply n =
     \<lparr>re_message = \<lparr>m_role = RoleAssistant, m_content =
        (if n = 0 then [ToolCallPart \<lparr>tc_call_id = ''c'', tc_name = ''t'', tc_arguments = JNull\<rparr>]
         else [TextPart ''done'']), m_name = None\<rparr>,
      re_finish_reason = FinishStop, re_usage = None\<rparr>"

definition demo_wiring :: "(supplied_store, nat) wiring" where
  "demo_wiring =
     \<lparr>wi_complete = (\<lambda>_ _ n. (Inr (demo_reply n), Suc n)),
      wi_list = (\<lambda>_ n. (Inr [], n)),
      wi_invoke = (\<lambda>_ _ _ n. (Inl Cancelled, n)),
      wi_append = supplied_append dec (\<lambda>_. 0),
      wi_window = (\<lambda>session budget cx c. fst (store_window 0 session budget cx (snd c))),
      wi_stats = (\<lambda>session cx c. store_stats session cx (snd c)),
      wi_now = (\<lambda>n. (0, n)), wi_cancelled = (\<lambda>n. (False, n)), wi_elapsed = (\<lambda>_ _. 0),
      wi_settings = \<lparr>al_model = ''m'',
        al_budget = \<lparr>cb_max_tokens = None, cb_max_records = None, cb_max_part_tokens = None\<rparr>,
        al_max_turns = 2, al_max_tool_calls = 1, al_system_prompt = None, al_parameters = JNull\<rparr>,
      wi_counter = demo_counter, wi_events = None, wi_allowed = None, wi_compactor = None,
      wi_quota = Some \<lparr>qg_check = (\<lambda>_ _ n. (Inr (), n)), qg_record = (\<lambda>_ _ n. (Inr (), n))\<rparr>,
      wi_show = (\<lambda>_. ''e'')\<rparr>"

definition demo_request_agent :: agent_request where
  "demo_request_agent = \<lparr>aq_session = ''s'', aq_input = [TextPart ''hi''], aq_context = JNull\<rparr>"

definition demo_result :: "agent_response result \<times> (supplied_store, nat) agent_run" where
  "demo_result = agent_run_request demo_wiring ''a'' demo_request_agent (demo_who ''ada'')
     (0, store_new demo_counter False 9) 0"

lemma demo_result_no_loss: "no_loss (rn_trace (snd demo_result))"
  by code_simp

lemma demo_result_ok: "\<not> isl (fst demo_result)"
  by code_simp



end
