(* ===== verification/Aik_Cron.thy ===== *)
theory Aik_Cron
  imports Aik_Prelude
begin

text \<open>
  The five-field cron dialect of the scheduler (src/crates/scheduler/src/cron.rs): the parser of
  a field and of an expression, and the search for the next matching minute. Dates come from a
  library; its operations are a parameter (\<open>chrono\<close>), and what the search relies on of them
  is the predicate \<open>chrono_laws\<close>. The parser's arithmetic is kept at 32 bits.
\<close>

section \<open>Fields\<close>

record cron_field =
  fd_included :: "bool list"
  fd_is_wildcard :: bool

text \<open>\<^verbatim>\<open>str::split_once\<close> at a character.\<close>

fun split_once :: "char \<Rightarrow> string \<Rightarrow> (string \<times> string) option" where
  "split_once d [] = None"
| "split_once d (c # cs) =
     (if c = d then Some ([], cs) else map_option (\<lambda>(a, b). (c # a, b)) (split_once d cs))"

definition parse_u32 :: "string \<Rightarrow> u32 option" where
  "parse_u32 s = map_option word_of_nat (parse_unsigned 32 s)"

text \<open>The loop \<^verbatim>\<open>while v <= end { included[v] = true; v += step; }\<close>. The addition wraps, as it
  does without overflow checks. Every turn visits another value up to \<open>en\<close>, so that
  \<open>Suc (unat en)\<close> turns are enough (\<open>mark_steps_enough\<close>).\<close>

fun mark_steps :: "nat \<Rightarrow> u32 \<Rightarrow> u32 \<Rightarrow> u32 \<Rightarrow> bool list \<Rightarrow> bool list" where
  "mark_steps 0 v en step inc = inc"
| "mark_steps (Suc fuel) v en step inc =
     (if v \<le> en then mark_steps fuel (v + step) en step (inc[unat v := True]) else inc)"

text \<open>What one comma-separated part denotes: its first and last value and its step.\<close>

definition part_range :: "u32 \<Rightarrow> u32 \<Rightarrow> string \<Rightarrow> string + (u32 \<times> u32 \<times> u32)" where
  "part_range mn mx part =
     (case (case split_once CHR ''/'' part of
              Some (rng, step) \<Rightarrow> map_option (Pair rng) (parse_u32 step)
            | None \<Rightarrow> Some (part, 1)) of
        None \<Rightarrow> Inl (''invalid step in `'' @ part @ ''`'')
      | Some (rng, step) \<Rightarrow>
     if step = 0 then Inl (''step of zero in `'' @ part @ ''`'')
     else (case (if rng = ''*'' then Some (mn, mx)
                 else (case split_once CHR ''-'' rng of
                         Some (a, b) \<Rightarrow>
                           (case (parse_u32 a, parse_u32 b) of
                              (Some x, Some y) \<Rightarrow> Some (x, y) | _ \<Rightarrow> None)
                       | None \<Rightarrow> map_option (\<lambda>v. (v, v)) (parse_u32 rng))) of
             None \<Rightarrow> Inl (''invalid value in `'' @ part @ ''`'')
           | Some (start, en) \<Rightarrow>
               if start < mn \<or> mx < en \<or> en < start
               then Inl (''`'' @ part @ ''` is outside the range '' @ dec (unat mn) @ ''-'' @ dec (unat mx))
               else Inr (start, en, step)))"

fun mark_parts :: "u32 \<Rightarrow> u32 \<Rightarrow> string list \<Rightarrow> bool list \<Rightarrow> string + bool list" where
  "mark_parts mn mx [] inc = Inr inc"
| "mark_parts mn mx (part # parts) inc =
     (case part_range mn mx part of
        Inl e \<Rightarrow> Inl e
      | Inr (start, en, step) \<Rightarrow>
          mark_parts mn mx parts (mark_steps (Suc (unat en)) start en step inc))"

definition field_parse :: "string \<Rightarrow> u32 \<Rightarrow> u32 \<Rightarrow> string + cron_field" where
  "field_parse s mn mx =
     (case mark_parts mn mx (split_on CHR '','' s) (replicate (Suc (unat mx)) False) of
        Inl e \<Rightarrow> Inl e
      | Inr inc \<Rightarrow> Inr \<lparr>fd_included = inc, fd_is_wildcard = (s = ''*'')\<rparr>)"

definition field_contains :: "cron_field \<Rightarrow> u32 \<Rightarrow> bool" where
  "field_contains f v \<longleftrightarrow> unat v < length (fd_included f) \<and> fd_included f ! unat v"

section \<open>Expressions\<close>

record cron_schedule =
  cs_minute :: cron_field
  cs_hour :: cron_field
  cs_day_of_month :: cron_field
  cs_month :: cron_field
  cs_day_of_week :: cron_field

text \<open>\<^verbatim>\<open>str::split_whitespace\<close>: the non-empty pieces between runs of white space.\<close>

function split_white :: "string \<Rightarrow> string \<Rightarrow> string list" where
  "split_white s acc =
     (case skip_white (map (map char_of) white_space) s of
        Some r \<Rightarrow> (if acc = [] then [] else [rev acc]) @ split_white r []
      | None \<Rightarrow>
          (case s of [] \<Rightarrow> (if acc = [] then [] else [rev acc]) | c # cs \<Rightarrow> split_white cs (c # acc)))"
  by pat_completeness auto
termination
proof (relation "measure (\<lambda>(s, acc). length s)")
  fix s acc r assume "skip_white (map (map char_of) white_space) s = Some r"
  moreover have "[] \<notin> set (map (map char_of :: nat list \<Rightarrow> string) white_space)"
    by (simp add: white_space_def)
  ultimately have "length r < length s" by (rule skip_white_shorter)
  then show "((r, []), (s, acc)) \<in> measure (\<lambda>(s, acc). length s)" by simp
qed auto

declare split_white.simps [simp del]

definition split_whitespace :: "string \<Rightarrow> string list" where
  "split_whitespace s = split_white s []"

definition include_sunday :: "cron_field \<Rightarrow> cron_field" where
  "include_sunday f =
     (if field_contains f 7 then f\<lparr>fd_included := (fd_included f)[0 := True]\<rparr> else f)"

definition cron_parse :: "string \<Rightarrow> string + cron_schedule" where
  "cron_parse expression =
     (case split_whitespace expression of
        [minute, hour, day_of_month, month, day_of_week] \<Rightarrow>
          (case field_parse day_of_week 0 7 of Inl e \<Rightarrow> Inl e | Inr dow \<Rightarrow>
          (case field_parse minute 0 59 of Inl e \<Rightarrow> Inl e | Inr mi \<Rightarrow>
          (case field_parse hour 0 23 of Inl e \<Rightarrow> Inl e | Inr ho \<Rightarrow>
          (case field_parse day_of_month 1 31 of Inl e \<Rightarrow> Inl e | Inr dm \<Rightarrow>
          (case field_parse month 1 12 of Inl e \<Rightarrow> Inl e | Inr mo \<Rightarrow>
             Inr \<lparr>cs_minute = mi, cs_hour = ho, cs_day_of_month = dm, cs_month = mo,
                  cs_day_of_week = include_sunday dow\<rparr>)))))
      | fs \<Rightarrow> Inl (''expected 5 fields (minute hour day-of-month month day-of-week), found ''
                     @ dec (length fs)))"

section \<open>The search\<close>

text \<open>The operations of the date library: reading a date off an instant and replacing one of its
  parts. An operation that does not succeed is \<open>None\<close>; where the source unwraps or adds with
  an operator, that is a panic.\<close>

record 'd chrono =
  ch_from_millis :: "int \<Rightarrow> 'd option"
  ch_millis :: "'d \<Rightarrow> int"
  ch_year :: "'d \<Rightarrow> int"
  ch_month :: "'d \<Rightarrow> u32"
  ch_day :: "'d \<Rightarrow> u32"
  ch_weekday :: "'d \<Rightarrow> u32"
  ch_hour :: "'d \<Rightarrow> u32"
  ch_minute :: "'d \<Rightarrow> u32"
  ch_with_nanosecond :: "'d \<Rightarrow> u32 \<Rightarrow> 'd option"
  ch_with_second :: "'d \<Rightarrow> u32 \<Rightarrow> 'd option"
  ch_with_minute :: "'d \<Rightarrow> u32 \<Rightarrow> 'd option"
  ch_with_hour :: "'d \<Rightarrow> u32 \<Rightarrow> 'd option"
  ch_with_day :: "'d \<Rightarrow> u32 \<Rightarrow> 'd option"
  ch_add :: "'d \<Rightarrow> int \<Rightarrow> 'd option"
  ch_add_months :: "'d \<Rightarrow> nat \<Rightarrow> 'd option"

definition truncate_to_minute :: "'d chrono \<Rightarrow> 'd \<Rightarrow> 'd option" where
  "truncate_to_minute ch d =
     Option.bind (ch_with_second ch d 0) (\<lambda>d. ch_with_nanosecond ch d 0)"

definition start_of_hour :: "'d chrono \<Rightarrow> 'd \<Rightarrow> 'd option" where
  "start_of_hour ch d = Option.bind (truncate_to_minute ch d) (\<lambda>d. ch_with_minute ch d 0)"

definition start_of_day :: "'d chrono \<Rightarrow> 'd \<Rightarrow> 'd option" where
  "start_of_day ch d = Option.bind (start_of_hour ch d) (\<lambda>d. ch_with_hour ch d 0)"

text \<open>The day is replaced without an unwrap: \<open>Some None\<close> is that it could not be.\<close>

definition start_of_month :: "'d chrono \<Rightarrow> 'd \<Rightarrow> 'd option option" where
  "start_of_month ch d = map_option (\<lambda>d. ch_with_day ch d 1) (start_of_day ch d)"

definition day_matches :: "'d chrono \<Rightarrow> cron_schedule \<Rightarrow> 'd \<Rightarrow> bool" where
  "day_matches ch s d =
     (let dom_ok = field_contains (cs_day_of_month s) (ch_day ch d);
          dow_ok = field_contains (cs_day_of_week s) (ch_weekday ch d)
      in case (fd_is_wildcard (cs_day_of_month s), fd_is_wildcard (cs_day_of_week s)) of
           (True, True) \<Rightarrow> True
         | (True, False) \<Rightarrow> dow_ok
         | (False, True) \<Rightarrow> dom_ok
         | (False, False) \<Rightarrow> dom_ok \<or> dow_ok)"

text \<open>One turn of the loop: go on from a later candidate, return, or panic.\<close>

datatype 'd cron_turn = Again 'd | Returns "timestamp option" | Panics

definition cron_turn :: "'d chrono \<Rightarrow> cron_schedule \<Rightarrow> int \<Rightarrow> 'd \<Rightarrow> 'd cron_turn" where
  "cron_turn ch s horizon c =
     (let unwrap = (\<lambda>r. case r of None \<Rightarrow> Panics | Some d \<Rightarrow> Again d) in
      if horizon < ch_year ch c then Returns None
      else if \<not> field_contains (cs_month s) (ch_month ch c)
      then (case start_of_month ch c of
              None \<Rightarrow> Panics
            | Some None \<Rightarrow> Returns None
            | Some (Some d) \<Rightarrow>
                (case ch_add_months ch d 1 of None \<Rightarrow> Returns None | Some d' \<Rightarrow> Again d'))
      else if \<not> day_matches ch s c
      then unwrap (Option.bind (start_of_day ch c) (\<lambda>d. ch_add ch d 86400000))
      else if \<not> field_contains (cs_hour s) (ch_hour ch c)
      then unwrap (Option.bind (start_of_hour ch c) (\<lambda>d. ch_add ch d 3600000))
      else if \<not> field_contains (cs_minute s) (ch_minute ch c)
      then unwrap (ch_add ch c 60000)
      else Returns
        (let ms = ch_millis ch c in if 0 \<le> ms \<and> ms < 2 ^ 64 then Some (word_of_int ms) else None))"

text \<open>The loop; \<open>None\<close> when it does not return, whether it panics or goes on for ever.\<close>

partial_function (option) cron_search ::
  "'d chrono \<Rightarrow> cron_schedule \<Rightarrow> int \<Rightarrow> 'd \<Rightarrow> timestamp option option" where
  "cron_search ch s horizon c =
     (case cron_turn ch s horizon c of
        Again c' \<Rightarrow> cron_search ch s horizon c'
      | Returns r \<Rightarrow> Some r
      | Panics \<Rightarrow> None)"

definition search_horizon_years :: int where
  "search_horizon_years = 8"

definition next_after :: "'d chrono \<Rightarrow> cron_schedule \<Rightarrow> timestamp \<Rightarrow> timestamp option option" where
  "next_after ch s after =
     (case Option.bind (i64_of after) (ch_from_millis ch) of
        None \<Rightarrow> Some None
      | Some d \<Rightarrow>
          (case Option.bind (truncate_to_minute ch d) (\<lambda>d. ch_add ch d 60000) of
             None \<Rightarrow> None
           | Some c \<Rightarrow> cron_search ch s (ch_year ch d + search_horizon_years) c))"

section \<open>What a field includes\<close>

lemma length_mark_steps [simp]: "length (mark_steps fuel v en step inc) = length inc"
  by (induction fuel arbitrary: v inc) auto

lemma mark_steps_above [simp]: "en < v \<Longrightarrow> mark_steps fuel v en step inc = inc"
  by (cases fuel) auto

lemma unat_add_u32: "unat (v + step) = (unat v + unat step) mod 2 ^ 32" for v step :: u32
  by (simp add: unat_word_ariths)

text \<open>Without a wrap-around the values are \<open>start\<close>, \<open>start + step\<close> and so on, up to the end.\<close>

lemma mark_steps_spec:
  assumes "0 < step" "unat en + unat step < 2 ^ 32" "unat en < length inc"
    "unat en < fuel + unat v" "i < length inc"
  shows "mark_steps fuel v en step inc ! i \<longleftrightarrow>
    inc ! i \<or> (unat v \<le> i \<and> i \<le> unat en \<and> (i - unat v) mod unat step = 0)"
  using assms
proof (induction fuel arbitrary: v inc)
  case 0
  then show ?case by auto
next
  case (Suc fuel)
  show ?case
  proof (cases "v \<le> en")
    case False
    then show ?thesis by (auto simp: word_le_nat_alt)
  next
    case True
    have next_v: "unat (v + step) = unat v + unat step"
      using True Suc.prems(2) by (simp add: unat_add_u32 word_le_nat_alt)
    have pos: "0 < unat step" using Suc.prems(1) by (simp add: word_less_nat_alt)
    have IH: "mark_steps fuel (v + step) en step (inc[unat v := True]) ! i \<longleftrightarrow>
      inc[unat v := True] ! i \<or>
        (unat v + unat step \<le> i \<and> i \<le> unat en \<and> (i - (unat v + unat step)) mod unat step = 0)"
      using Suc.IH [of "inc[unat v := True]" "v + step"] Suc.prems pos next_v by simp
    have first: "inc[unat v := True] ! i \<longleftrightarrow> inc ! i \<or> i = unat v"
      using True Suc.prems(3) by (simp add: nth_list_update word_le_nat_alt)
    have "(i - unat v) mod unat step = 0 \<longleftrightarrow>
      i = unat v \<or> unat v + unat step \<le> i \<and> (i - (unat v + unat step)) mod unat step = 0"
      if "unat v \<le> i"
    proof (cases "unat v + unat step \<le> i")
      case True
      then have "(i - unat v) mod unat step = (i - (unat v + unat step)) mod unat step"
        using le_mod_geq [of "unat step" "i - unat v"] by simp
      with True pos show ?thesis by auto
    next
      case False
      then have "i - unat v < unat step" using that by linarith
      with that False show ?thesis by auto
    qed
    with True IH first show ?thesis by (auto simp: word_le_nat_alt)
  qed
qed

text \<open>In every case the loop ends: it visits distinct values, ever larger for a step below half the
  range and ever smaller for one above.\<close>

lemma mark_steps_up:
  assumes "0 < step" "unat step < 2 ^ 31" "unat en < 2 ^ 31"
    "unat en < fuel + unat v" "unat en < fuel' + unat v"
  shows "mark_steps fuel v en step inc = mark_steps fuel' v en step inc"
  using assms(4,5)
proof (induction fuel arbitrary: fuel' v inc)
  case 0
  then show ?case by (simp add: word_less_nat_alt)
next
  case (Suc fuel)
  show ?case
  proof (cases "v \<le> en")
    case True
    with Suc.prems obtain g where g: "fuel' = Suc g" by (cases fuel') (auto simp: word_le_nat_alt)
    have "unat (v + step) = unat v + unat step"
      using True assms(2,3) by (simp add: unat_add_u32 word_le_nat_alt)
    moreover have "0 < unat step" using assms(1) by (simp add: word_less_nat_alt)
    ultimately have "mark_steps fuel (v + step) en step (inc[unat v := True])
      = mark_steps g (v + step) en step (inc[unat v := True])"
      using Suc.prems g by (intro Suc.IH) auto
    with g show ?thesis by simp
  qed simp
qed

lemma mark_steps_down:
  assumes "2 ^ 31 \<le> unat step" "unat en < 2 ^ 31" "unat v < fuel" "unat v < fuel'"
  shows "mark_steps fuel v en step inc = mark_steps fuel' v en step inc"
  using assms(3,4)
proof (induction fuel arbitrary: fuel' v inc)
  case (Suc fuel)
  obtain g where g: "fuel' = Suc g" using Suc.prems by (cases fuel') auto
  show ?case
  proof (cases "v \<le> en")
    case True
    have v: "unat v < 2 ^ 31" using True assms(2) by (simp add: word_le_nat_alt)
    have "mark_steps fuel (v + step) en step (inc[unat v := True])
      = mark_steps g (v + step) en step (inc[unat v := True])"
    proof (cases "unat v + unat step < 2 ^ 32")
      case True
      then have "en < v + step" using assms(1,2) by (simp add: unat_add_u32 word_less_nat_alt)
      then show ?thesis by simp
    next
      case False
      then have "unat (v + step) = unat v + unat step - 2 ^ 32"
        using v unat_less_pow [of step] by (simp add: unat_add_u32 le_mod_geq)
      then have "unat (v + step) < unat v" using unat_less_pow [of step] False by simp
      with Suc.prems g show ?thesis by (intro Suc.IH) auto
    qed
    with g show ?thesis by simp
  qed (simp add: g)
qed simp

lemma mark_steps_enough:
  assumes "0 < step" "unat en < 2 ^ 31" "Suc (unat en) \<le> fuel"
  shows "mark_steps fuel v en step inc = mark_steps (Suc (unat en)) v en step inc"
proof (cases "v \<le> en")
  case False
  then show ?thesis by simp
next
  case True
  show ?thesis
  proof (cases "unat step < 2 ^ 31")
    case small: True
    show ?thesis by (rule mark_steps_up) (use assms small in auto)
  next
    case False
    then show ?thesis using assms True
      by (intro mark_steps_down) (auto simp: word_le_nat_alt)
  qed
qed

lemma part_range_bounds:
  "part_range mn mx part = Inr (a, b, st) \<Longrightarrow> mn \<le> a \<and> a \<le> b \<and> b \<le> mx \<and> 0 < st"
  by (auto simp: part_range_def Let_def word_neq_0_conv not_less
      split: option.splits if_splits prod.splits)

text \<open>A part denotes a value when the value is in its range, a whole number of steps from the
  first.\<close>

definition part_denotes :: "u32 \<Rightarrow> u32 \<Rightarrow> string \<Rightarrow> nat \<Rightarrow> bool" where
  "part_denotes mn mx part i \<longleftrightarrow>
     (case part_range mn mx part of
        Inl _ \<Rightarrow> False
      | Inr (a, b, st) \<Rightarrow> unat a \<le> i \<and> i \<le> unat b \<and> (i - unat a) mod unat st = 0)"

definition step_fits :: "u32 \<Rightarrow> u32 \<Rightarrow> string \<Rightarrow> bool" where
  "step_fits mn mx part \<longleftrightarrow>
     (case part_range mn mx part of Inl _ \<Rightarrow> True | Inr (a, b, st) \<Rightarrow> unat mx + unat st < 2 ^ 32)"

lemma mark_parts_spec:
  assumes "mark_parts mn mx parts inc = Inr inc'" "length inc = Suc (unat mx)"
    "list_all (step_fits mn mx) parts" "i \<le> unat mx"
  shows "length inc' = Suc (unat mx) \<and> (inc' ! i \<longleftrightarrow> inc ! i \<or> list_ex (\<lambda>p. part_denotes mn mx p i) parts)"
  using assms
proof (induction parts arbitrary: inc)
  case (Cons part parts)
  obtain a b st where r: "part_range mn mx part = Inr (a, b, st)"
    using Cons.prems(1) by (auto split: sum.splits)
  note bounds = part_range_bounds [OF r]
  let ?inc = "mark_steps (Suc (unat b)) a b st inc"
  have "?inc ! i \<longleftrightarrow> inc ! i \<or> part_denotes mn mx part i"
    using bounds r Cons.prems(2-4)
    by (subst mark_steps_spec) (auto simp: part_denotes_def step_fits_def word_le_nat_alt)
  moreover have "length inc' = Suc (unat mx) \<and>
    (inc' ! i \<longleftrightarrow> ?inc ! i \<or> list_ex (\<lambda>p. part_denotes mn mx p i) parts)"
    using Cons.prems r by (intro Cons.IH) simp_all
  ultimately show ?case by auto
qed simp

lemma mark_parts_ok:
  "(\<exists>inc'. mark_parts mn mx parts inc = Inr inc') \<longleftrightarrow>
     list_all (\<lambda>p. \<exists>r. part_range mn mx p = Inr r) parts"
  by (induction parts arbitrary: inc) (auto split: sum.splits)

text \<open>A field is accepted exactly when each of its comma-separated parts is a wildcard, a value
  or a range within the field's bounds with a positive step, and it then includes a value exactly
  when one of the parts denotes it, provided that no step is so large that adding it to the
  field's maximum leaves 32 bits.\<close>

theorem cron_field_meaning:
  assumes "list_all (step_fits mn mx) (split_on CHR '','' s)"
  shows "case field_parse s mn mx of
      Inl _ \<Rightarrow> list_ex (\<lambda>p. \<exists>e. part_range mn mx p = Inl e) (split_on CHR '','' s)
    | Inr f \<Rightarrow> list_all (\<lambda>p. \<exists>r. part_range mn mx p = Inr r) (split_on CHR '','' s) \<and>
        (\<forall>v. field_contains f v \<longleftrightarrow>
          v \<le> mx \<and> list_ex (\<lambda>p. part_denotes mn mx p (unat v)) (split_on CHR '','' s))"
proof (cases "field_parse s mn mx")
  case (Inl e)
  then have "\<nexists>inc'. mark_parts mn mx (split_on CHR '','' s) (replicate (Suc (unat mx)) False) = Inr inc'"
    by (auto simp: field_parse_def split: sum.splits)
  then have "\<not> list_all (\<lambda>p. \<exists>r. part_range mn mx p = Inr r) (split_on CHR '','' s)"
    by (simp only: mark_parts_ok simp_thms)
  then obtain p where "p \<in> set (split_on CHR '','' s)" "\<nexists>r. part_range mn mx p = Inr r"
    by (auto simp: list_all_iff)
  then have "\<exists>e. part_range mn mx p = Inl e" by (cases "part_range mn mx p") auto
  with \<open>p \<in> _\<close> Inl show ?thesis by (auto simp: list_ex_iff)
next
  case (Inr f)
  then have m: "mark_parts mn mx (split_on CHR '','' s) (replicate (Suc (unat mx)) False)
      = Inr (fd_included f)"
    by (auto simp: field_parse_def split: sum.splits)
  have "field_contains f v \<longleftrightarrow>
    v \<le> mx \<and> list_ex (\<lambda>p. part_denotes mn mx p (unat v)) (split_on CHR '','' s)" for v
    using mark_parts_spec [OF m length_replicate assms, of "unat v"]
      mark_parts_spec [OF m length_replicate assms, of 0]
    by (auto simp: field_contains_def word_le_nat_alt less_Suc_eq_le nth_replicate simp del: replicate.simps)
  moreover have "list_all (\<lambda>p. \<exists>r. part_range mn mx p = Inr r) (split_on CHR '','' s)"
    using m mark_parts_ok by blast
  ultimately show ?thesis using Inr by simp
qed

text \<open>Where a step does leave 32 bits, values the part does not denote are included.\<close>

lemma cron_step_overflow:
  "\<exists>f. field_parse ''5/4294967295'' 1 31 = Inr f \<and> field_contains f 0 \<and> field_contains f 3"
proof -
  have "parse_u32 ''5'' = Some 5"
    by (simp add: parse_u32_def parse_unsigned_def digit_value_def Let_def)
  moreover have "parse_u32 ''4294967295'' = Some (- 1)"
    by (simp add: parse_u32_def parse_unsigned_def digit_value_def Let_def)
  ultimately have "part_range 1 31 ''5/4294967295'' = Inr (5, 5, - 1)"
    by (simp add: part_range_def)
  moreover have "split_on CHR '','' ''5/4294967295'' = [''5/4294967295'']" by simp
  moreover have "mark_steps (Suc (unat (5::u32))) 5 5 (- 1) inc =
    inc[5 := True, 4 := True, 3 := True, 2 := True, 1 := True, 0 := True]" for inc
  proof -
    have "Suc (unat (5::u32)) = Suc (Suc (Suc (Suc (Suc (Suc 0)))))" by simp
    then show ?thesis by (simp only:) simp
  qed
  ultimately show ?thesis
    by (simp add: field_parse_def field_contains_def nth_list_update del: mark_steps.simps)
qed

section \<open>The search finds the next matching minute\<close>

text \<open>What the search relies on of the date library, on instants that are whole milliseconds: UTC
  clock arithmetic, dates that depend on the day alone, months as intervals of days, and years
  that grow with time and have at most 366 days. The library represents years beyond 262000.\<close>

definition whole :: "'d chrono \<Rightarrow> 'd \<Rightarrow> bool" where
  "whole ch d \<longleftrightarrow> ch_from_millis ch (ch_millis ch d) = Some d"

definition instants_ok :: "'d chrono \<Rightarrow> bool" where
  "instants_ok ch \<longleftrightarrow> (\<forall>m d. ch_from_millis ch m = Some d \<longrightarrow> ch_millis ch d = m)"

definition reads_clock :: "'d chrono \<Rightarrow> bool" where
  "reads_clock ch \<longleftrightarrow> (\<forall>d. whole ch d \<longrightarrow>
     ch_hour ch d = word_of_int (ch_millis ch d div 3600000 mod 24) \<and>
     ch_minute ch d = word_of_int (ch_millis ch d div 60000 mod 60))"

definition lands :: "'d chrono \<Rightarrow> 'd option \<Rightarrow> int \<Rightarrow> bool" where
  "lands ch r m \<longleftrightarrow> (\<exists>d. r = Some d \<and> whole ch d \<and> ch_millis ch d = m)"

definition sets_clock :: "'d chrono \<Rightarrow> bool" where
  "sets_clock ch \<longleftrightarrow> (\<forall>d. whole ch d \<longrightarrow>
     lands ch (ch_with_nanosecond ch d 0) (ch_millis ch d - ch_millis ch d mod 1000) \<and>
     lands ch (ch_with_second ch d 0) (ch_millis ch d - ch_millis ch d div 1000 mod 60 * 1000) \<and>
     lands ch (ch_with_minute ch d 0) (ch_millis ch d - ch_millis ch d div 60000 mod 60 * 60000) \<and>
     lands ch (ch_with_hour ch d 0) (ch_millis ch d - ch_millis ch d div 3600000 mod 24 * 3600000))"

definition adds_time :: "'d chrono \<Rightarrow> bool" where
  "adds_time ch \<longleftrightarrow> (\<forall>d n. whole ch d \<longrightarrow> ch_year ch d \<le> 262000 \<longrightarrow> 0 \<le> n \<longrightarrow> n \<le> 86400000 \<longrightarrow>
     lands ch (ch_add ch d n) (ch_millis ch d + n))"

definition same_month :: "'d chrono \<Rightarrow> 'd \<Rightarrow> 'd \<Rightarrow> bool" where
  "same_month ch d e \<longleftrightarrow> ch_year ch d = ch_year ch e \<and> ch_month ch d = ch_month ch e"

definition dates_days :: "'d chrono \<Rightarrow> bool" where
  "dates_days ch \<longleftrightarrow> (\<forall>d e. whole ch d \<longrightarrow> whole ch e \<longrightarrow>
     ch_millis ch d div 86400000 = ch_millis ch e div 86400000 \<longrightarrow>
     same_month ch d e \<and> ch_day ch d = ch_day ch e \<and> ch_weekday ch d = ch_weekday ch e)"

definition counts_months :: "'d chrono \<Rightarrow> bool" where
  "counts_months ch \<longleftrightarrow> (\<forall>d. whole ch d \<longrightarrow> ch_year ch d \<le> 262000 \<longrightarrow> ch_millis ch d mod 86400000 = 0 \<longrightarrow>
     (\<exists>d1 d2. ch_with_day ch d 1 = Some d1 \<and> ch_add_months ch d1 1 = Some d2 \<and> whole ch d2 \<and>
        ch_millis ch d2 mod 86400000 = 0 \<and>
        (\<forall>e. whole ch e \<longrightarrow>
           (ch_millis ch d1 \<le> ch_millis ch e \<and> ch_millis ch e < ch_millis ch d2 \<longleftrightarrow> same_month ch d e))))"

definition grows_years :: "'d chrono \<Rightarrow> bool" where
  "grows_years ch \<longleftrightarrow> (\<forall>d e. whole ch d \<longrightarrow> whole ch e \<longrightarrow> ch_millis ch d \<le> ch_millis ch e \<longrightarrow>
       ch_year ch d \<le> ch_year ch e) \<and>
     (\<forall>d. whole ch d \<longrightarrow> 0 \<le> ch_millis ch d \<longrightarrow>
        ch_millis ch d < (ch_year ch d - 1969) * 31622400000)"

definition chrono_laws :: "'d chrono \<Rightarrow> bool" where
  "chrono_laws ch \<longleftrightarrow> instants_ok ch \<and> reads_clock ch \<and> sets_clock ch \<and> adds_time ch \<and>
     dates_days ch \<and> counts_months ch \<and> grows_years ch"

text \<open>The reference: a date matches when its month, day, hour and minute do.\<close>

definition cron_matches :: "'d chrono \<Rightarrow> cron_schedule \<Rightarrow> 'd \<Rightarrow> bool" where
  "cron_matches ch s d \<longleftrightarrow>
     field_contains (cs_month s) (ch_month ch d) \<and> day_matches ch s d \<and>
     field_contains (cs_hour s) (ch_hour ch d) \<and> field_contains (cs_minute s) (ch_minute ch d)"

lemma lands_bind: "lands ch r m \<Longrightarrow> (\<And>d. whole ch d \<Longrightarrow> ch_millis ch d = m \<Longrightarrow> lands ch (f d) n) \<Longrightarrow>
    lands ch (Option.bind r f) n"
  by (auto simp: lands_def)

lemma floor_twice:
  fixes m a b :: int
  assumes "0 < a" "0 \<le> b"
  shows "m div a * a - m div a * a div a mod b * a = m div (a * b) * (a * b)"
proof -
  have "m div a * a - m div a mod b * a = (m div a - m div a mod b) * a"
    by (simp add: left_diff_distrib)
  also have "m div a - m div a mod b = m div a div b * b" by (simp add: minus_mod_eq_div_mult)
  also have "m div a div b = m div (a * b)" using assms by (simp add: zdiv_zmult2_eq)
  finally show ?thesis using assms by (simp add: mult.commute mult.left_commute)
qed

lemma floor_remainder:
  fixes m a b :: int
  assumes "0 < a" "0 \<le> b"
  shows "m - m div a mod b * a - (m - m div a mod b * a) mod a = m div (a * b) * (a * b)"
proof -
  have "(m - m div a mod b * a) mod a = m mod a"
    by (metis mod_diff_right_eq mod_mult_self2_is_0 diff_zero)
  then have "m - m div a mod b * a - (m - m div a mod b * a) mod a = m div a * a - m div a mod b * a"
    using minus_mod_eq_div_mult [of m a] by linarith
  then show ?thesis using floor_twice [OF assms, of m] assms by simp
qed

lemma sets_clockD:
  assumes "sets_clock ch" "whole ch d"
  shows "lands ch (ch_with_nanosecond ch d 0) (ch_millis ch d - ch_millis ch d mod 1000)"
    "lands ch (ch_with_second ch d 0) (ch_millis ch d - ch_millis ch d div 1000 mod 60 * 1000)"
    "lands ch (ch_with_minute ch d 0) (ch_millis ch d - ch_millis ch d div 60000 mod 60 * 60000)"
    "lands ch (ch_with_hour ch d 0) (ch_millis ch d - ch_millis ch d div 3600000 mod 24 * 3600000)"
  using assms unfolding sets_clock_def by blast+

lemma truncate_lands:
  assumes "sets_clock ch" "whole ch d"
  shows "lands ch (truncate_to_minute ch d) (ch_millis ch d div 60000 * 60000)"
  unfolding truncate_to_minute_def
proof (rule lands_bind)
  let ?m = "ch_millis ch d - ch_millis ch d div 1000 mod 60 * 1000"
  show "lands ch (ch_with_second ch d 0) ?m" by (rule sets_clockD [OF assms])
  fix e assume e: "whole ch e" and m: "ch_millis ch e = ?m"
  have "ch_millis ch e - ch_millis ch e mod 1000 = ch_millis ch d div 60000 * 60000"
    unfolding m using floor_remainder [of 1000 60 "ch_millis ch d"] by simp
  then show "lands ch (ch_with_nanosecond ch e 0) (ch_millis ch d div 60000 * 60000)"
    using sets_clockD(1) [OF assms(1) e] by (simp only:)
qed

lemma start_of_hour_lands:
  assumes "sets_clock ch" "whole ch d"
  shows "lands ch (start_of_hour ch d) (ch_millis ch d div 3600000 * 3600000)"
  unfolding start_of_hour_def
proof (rule lands_bind)
  let ?m = "ch_millis ch d div 60000 * 60000"
  show "lands ch (truncate_to_minute ch d) ?m" by (rule truncate_lands [OF assms])
  fix e assume e: "whole ch e" and m: "ch_millis ch e = ?m"
  have "ch_millis ch e - ch_millis ch e div 60000 mod 60 * 60000 = ch_millis ch d div 3600000 * 3600000"
    unfolding m using floor_twice [of 60000 60 "ch_millis ch d"] by simp
  then show "lands ch (ch_with_minute ch e 0) (ch_millis ch d div 3600000 * 3600000)"
    using sets_clockD(3) [OF assms(1) e] by (simp only:)
qed

lemma start_of_day_lands:
  assumes "sets_clock ch" "whole ch d"
  shows "lands ch (start_of_day ch d) (ch_millis ch d div 86400000 * 86400000)"
  unfolding start_of_day_def
proof (rule lands_bind)
  let ?m = "ch_millis ch d div 3600000 * 3600000"
  show "lands ch (start_of_hour ch d) ?m" by (rule start_of_hour_lands [OF assms])
  fix e assume e: "whole ch e" and m: "ch_millis ch e = ?m"
  have "ch_millis ch e - ch_millis ch e div 3600000 mod 24 * 3600000 = ch_millis ch d div 86400000 * 86400000"
    unfolding m using floor_twice [of 3600000 24 "ch_millis ch d"] by simp
  then show "lands ch (ch_with_hour ch e 0) (ch_millis ch d div 86400000 * 86400000)"
    using sets_clockD(4) [OF assms(1) e] by (simp only:)
qed

text \<open>The invariant of the loop: the candidate is a whole minute after the start, and no whole
  minute in between matches.\<close>

definition cron_inv :: "'d chrono \<Rightarrow> cron_schedule \<Rightarrow> int \<Rightarrow> 'd \<Rightarrow> bool" where
  "cron_inv ch s after c \<longleftrightarrow> whole ch c \<and> 60000 dvd ch_millis ch c \<and> after < ch_millis ch c \<and>
     (\<forall>e. whole ch e \<longrightarrow> 60000 dvd ch_millis ch e \<longrightarrow> after < ch_millis ch e \<longrightarrow>
        ch_millis ch e < ch_millis ch c \<longrightarrow> \<not> cron_matches ch s e)"

definition advances :: "'d chrono \<Rightarrow> cron_schedule \<Rightarrow> int \<Rightarrow> 'd \<Rightarrow> 'd option \<Rightarrow> bool" where
  "advances ch s after c r \<longleftrightarrow>
     (\<exists>d. r = Some d \<and> cron_inv ch s after d \<and> ch_millis ch c < ch_millis ch d)"

lemma advancesI:
  assumes "cron_inv ch s after c" "lands ch r m" "60000 dvd m" "ch_millis ch c < m"
    and "\<And>e. whole ch e \<Longrightarrow> 60000 dvd ch_millis ch e \<Longrightarrow> ch_millis ch c \<le> ch_millis ch e \<Longrightarrow>
      ch_millis ch e < m \<Longrightarrow> \<not> cron_matches ch s e"
  shows "advances ch s after c r"
  using assms unfolding advances_def cron_inv_def lands_def by (smt (verit, ccfv_SIG))

lemma same_bucket:
  fixes c e h :: int
  shows "0 < h \<Longrightarrow> c \<le> e \<Longrightarrow> e < c div h * h + h \<Longrightarrow> e div h = c div h"
proof -
  assume "0 < h" "c \<le> e" "e < c div h * h + h"
  moreover from \<open>0 < h\<close> have "c div h * h \<le> c"
    using pos_mod_sign [of h c] minus_mod_eq_div_mult [of c h] by linarith
  ultimately show ?thesis by (intro int_div_pos_eq [of e h "c div h" "e - c div h * h"]) auto
qed

lemma bucket_end: "0 < h \<Longrightarrow> c < c div h * h + h" for c h :: int
  using pos_mod_bound [of h c] minus_mod_eq_div_mult [of c h] by linarith

lemma day_matches_same:
  "ch_day ch d = ch_day ch e \<Longrightarrow> ch_weekday ch d = ch_weekday ch e \<Longrightarrow>
     day_matches ch s d = day_matches ch s e"
  by (simp add: day_matches_def)

lemma dates_daysD:
  assumes "dates_days ch" "whole ch d" "whole ch e"
    "ch_millis ch d div 86400000 = ch_millis ch e div 86400000"
  shows "same_month ch d e" "ch_day ch d = ch_day ch e" "ch_weekday ch d = ch_weekday ch e"
  using assms unfolding dates_days_def by blast+

lemma lands_add:
  assumes "adds_time ch" "dates_days ch" "lands ch r m" "whole ch c" "ch_year ch c \<le> 262000"
    "m div 86400000 = ch_millis ch c div 86400000" "0 \<le> n" "n \<le> 86400000"
  shows "lands ch (Option.bind r (\<lambda>d. ch_add ch d n)) (m + n)"
proof (rule lands_bind [OF assms(3)])
  fix d assume "whole ch d" "ch_millis ch d = m"
  moreover from this have "ch_year ch d = ch_year ch c"
    using dates_daysD(1) [OF assms(2) _ assms(4), of d] assms(6) by (simp add: same_month_def)
  ultimately show "lands ch (ch_add ch d n) (m + n)"
    using assms by (auto simp: adds_time_def)
qed

text \<open>Each of the four ways the loop skips ahead keeps the invariant.\<close>

lemma skip_month:
  assumes laws: "chrono_laws ch" and inv: "cron_inv ch s after c" and y: "ch_year ch c \<le> 262000"
    and no: "\<not> field_contains (cs_month s) (ch_month ch c)"
  shows "\<exists>d1. start_of_month ch c = Some (Some d1) \<and> advances ch s after c (ch_add_months ch d1 1)"
proof -
  have c: "whole ch c" using inv by (simp add: cron_inv_def)
  obtain d where d: "start_of_day ch c = Some d" "whole ch d"
      "ch_millis ch d = ch_millis ch c div 86400000 * 86400000"
    using start_of_day_lands [OF _ c] laws by (auto simp: chrono_laws_def lands_def)
  have same: "same_month ch d c"
    using laws c d by (simp add: chrono_laws_def dates_days_def)
  then obtain d1 d2 where m: "ch_with_day ch d 1 = Some d1" "ch_add_months ch d1 1 = Some d2"
      "whole ch d2" "ch_millis ch d2 mod 86400000 = 0"
      "\<And>e. whole ch e \<Longrightarrow>
        ch_millis ch d1 \<le> ch_millis ch e \<and> ch_millis ch e < ch_millis ch d2 \<longleftrightarrow> same_month ch d e"
    using laws d y unfolding chrono_laws_def counts_months_def same_month_def by auto
  have "advances ch s after c (Some d2)"
  proof (rule advancesI [OF inv])
    show "lands ch (Some d2) (ch_millis ch d2)" using m(3) by (simp add: lands_def)
    show "60000 dvd ch_millis ch d2"
      using m(4) dvd_trans [of 60000 "86400000 :: int"] by (simp add: mod_eq_0_iff_dvd)
    show "ch_millis ch c < ch_millis ch d2" using m(5) [OF c] same by simp
    fix e assume "whole ch e" "ch_millis ch c \<le> ch_millis ch e" "ch_millis ch e < ch_millis ch d2"
    then have "same_month ch d e" using m(5) [OF c] m(5) [of e] same by auto
    with same no show "\<not> cron_matches ch s e" by (simp add: same_month_def cron_matches_def)
  qed
  with d(1) m(1,2) show ?thesis by (simp add: start_of_month_def)
qed

lemma skip_day:
  assumes laws: "chrono_laws ch" and inv: "cron_inv ch s after c" and y: "ch_year ch c \<le> 262000"
    and no: "\<not> day_matches ch s c"
  shows "advances ch s after c (Option.bind (start_of_day ch c) (\<lambda>d. ch_add ch d 86400000))"
proof (rule advancesI [OF inv])
  have c: "whole ch c" using inv by (simp add: cron_inv_def)
  let ?m = "ch_millis ch c div 86400000 * 86400000"
  show "lands ch (Option.bind (start_of_day ch c) (\<lambda>d. ch_add ch d 86400000)) (?m + 86400000)"
    using laws c y by (intro lands_add start_of_day_lands) (auto simp: chrono_laws_def)
  show "60000 dvd ?m + 86400000" by (intro dvd_add dvd_mult) simp_all
  show "ch_millis ch c < ?m + 86400000" by (rule bucket_end) simp
  fix e assume e: "whole ch e" "ch_millis ch c \<le> ch_millis ch e" "ch_millis ch e < ?m + 86400000"
  then have "ch_millis ch e div 86400000 = ch_millis ch c div 86400000" by (intro same_bucket) auto
  then have "day_matches ch s e = day_matches ch s c"
    using laws c e(1) by (intro day_matches_same dates_daysD) (auto simp: chrono_laws_def)
  with no show "\<not> cron_matches ch s e" by (simp add: cron_matches_def)
qed

lemma skip_hour:
  assumes laws: "chrono_laws ch" and inv: "cron_inv ch s after c" and y: "ch_year ch c \<le> 262000"
    and no: "\<not> field_contains (cs_hour s) (ch_hour ch c)"
  shows "advances ch s after c (Option.bind (start_of_hour ch c) (\<lambda>d. ch_add ch d 3600000))"
proof (rule advancesI [OF inv])
  have c: "whole ch c" using inv by (simp add: cron_inv_def)
  let ?m = "ch_millis ch c div 3600000 * 3600000"
  have "?m div 86400000 = ch_millis ch c div 86400000"
    using zdiv_zmult2_eq [of 24 ?m 3600000] zdiv_zmult2_eq [of 24 "ch_millis ch c" 3600000] by simp
  then show "lands ch (Option.bind (start_of_hour ch c) (\<lambda>d. ch_add ch d 3600000)) (?m + 3600000)"
    using laws c y by (intro lands_add start_of_hour_lands) (auto simp: chrono_laws_def)
  show "60000 dvd ?m + 3600000" by (intro dvd_add dvd_mult) simp_all
  show "ch_millis ch c < ?m + 3600000" by (rule bucket_end) simp
  fix e assume e: "whole ch e" "ch_millis ch c \<le> ch_millis ch e" "ch_millis ch e < ?m + 3600000"
  then have "ch_millis ch e div 3600000 = ch_millis ch c div 3600000" by (intro same_bucket) auto
  with laws c e(1) have "ch_hour ch e = ch_hour ch c" by (simp add: chrono_laws_def reads_clock_def)
  with no show "\<not> cron_matches ch s e" by (simp add: cron_matches_def)
qed

lemma skip_minute:
  assumes laws: "chrono_laws ch" and inv: "cron_inv ch s after c" and y: "ch_year ch c \<le> 262000"
    and no: "\<not> field_contains (cs_minute s) (ch_minute ch c)"
  shows "advances ch s after c (ch_add ch c 60000)"
proof (rule advancesI [OF inv])
  have c: "whole ch c" "60000 dvd ch_millis ch c" using inv by (simp_all add: cron_inv_def)
  show "lands ch (ch_add ch c 60000) (ch_millis ch c + 60000)"
    using laws c y by (simp add: chrono_laws_def adds_time_def)
  show "60000 dvd ch_millis ch c + 60000" using c(2) by simp
  fix e assume e: "whole ch e" "ch_millis ch c \<le> ch_millis ch e" "ch_millis ch e < ch_millis ch c + 60000"
  then have "ch_millis ch e div 60000 = ch_millis ch c div 60000"
    using c(2) by (intro same_bucket) auto
  with laws c e(1) have "ch_minute ch e = ch_minute ch c" by (simp add: chrono_laws_def reads_clock_def)
  with no show "\<not> cron_matches ch s e" by (simp add: cron_matches_def)
qed simp

lemma millis_bound:
  assumes "grows_years ch" "whole ch d" "0 \<le> ch_millis ch d" "ch_year ch d \<le> y"
  shows "ch_millis ch d < (y - 1969) * 31622400000"
proof -
  have "ch_millis ch d < (ch_year ch d - 1969) * 31622400000"
    using assms by (simp add: grows_years_def)
  also have "\<dots> \<le> (y - 1969) * 31622400000" using assms(4) by simp
  finally show ?thesis .
qed

lemma advances_unwrap:
  "advances ch s after c r \<Longrightarrow>
     \<exists>d. (case r of None \<Rightarrow> Panics | Some d \<Rightarrow> Again d) = Again d \<and> cron_inv ch s after d \<and>
       ch_millis ch c < ch_millis ch d"
  by (auto simp: advances_def)

lemma turn_progress:
  assumes laws: "chrono_laws ch" and inv: "cron_inv ch s after c" and h: "horizon \<le> 262000" "0 \<le> after"
  shows "case cron_turn ch s horizon c of
      Again d \<Rightarrow> ch_year ch c \<le> horizon \<and> cron_inv ch s after d \<and> ch_millis ch c < ch_millis ch d
    | Returns None \<Rightarrow> horizon < ch_year ch c
    | Returns (Some t) \<Rightarrow> ch_year ch c \<le> horizon \<and> cron_matches ch s c \<and> int (unat t) = ch_millis ch c
    | Panics \<Rightarrow> False"
proof (cases "horizon < ch_year ch c")
  case True
  then show ?thesis by (simp add: cron_turn_def)
next
  case y: False
  then have y': "ch_year ch c \<le> 262000" using h by simp
  note skips = skip_month [OF laws inv y'] advances_unwrap [OF skip_day [OF laws inv y']]
    advances_unwrap [OF skip_hour [OF laws inv y']] advances_unwrap [OF skip_minute [OF laws inv y']]
  have "whole ch c" "0 \<le> ch_millis ch c" using inv h(2) by (simp_all add: cron_inv_def)
  then have "ch_millis ch c < (262000 - 1969) * 31622400000"
    using laws y' by (intro millis_bound) (auto simp: chrono_laws_def)
  then have small: "ch_millis ch c < 2 ^ 64" by simp
  show ?thesis
  proof (cases "cron_matches ch s c")
    case True
    with y small \<open>0 \<le> ch_millis ch c\<close> show ?thesis
      by (auto simp: cron_turn_def cron_matches_def unsigned_of_int take_bit_int_eq_self)
  next
    case False
    consider (month) "\<not> field_contains (cs_month s) (ch_month ch c)"
      | (day) "field_contains (cs_month s) (ch_month ch c)" "\<not> day_matches ch s c"
      | (hour) "field_contains (cs_month s) (ch_month ch c)" "day_matches ch s c"
          "\<not> field_contains (cs_hour s) (ch_hour ch c)"
      | (minute) "field_contains (cs_month s) (ch_month ch c)" "day_matches ch s c"
          "field_contains (cs_hour s) (ch_hour ch c)" "\<not> field_contains (cs_minute s) (ch_minute ch c)"
      using False by (auto simp: cron_matches_def)
    then show ?thesis
    proof cases
      case month
      then show ?thesis using y skips(1) by (auto simp: cron_turn_def advances_def)
    next
      case day
      then show ?thesis using y skips(2) by (auto simp: cron_turn_def)
    next
      case hour
      then show ?thesis using y skips(3) by (auto simp: cron_turn_def)
    next
      case minute
      then show ?thesis using y skips(4) by (auto simp: cron_turn_def)
    qed
  qed
qed

text \<open>The reference result: the first matching whole minute after an instant, within the horizon.\<close>

definition first_match :: "'d chrono \<Rightarrow> cron_schedule \<Rightarrow> int \<Rightarrow> int \<Rightarrow> timestamp option \<Rightarrow> bool" where
  "first_match ch s horizon after r \<longleftrightarrow>
     (let candidates = {e. whole ch e \<and> 60000 dvd ch_millis ch e \<and> after < ch_millis ch e \<and>
            ch_year ch e \<le> horizon \<and> cron_matches ch s e}
      in case r of
           None \<Rightarrow> candidates = {}
         | Some t \<Rightarrow> \<exists>d \<in> candidates. ch_millis ch d = int (unat t) \<and>
             (\<forall>e \<in> candidates. ch_millis ch d \<le> ch_millis ch e))"

lemma cron_search_returns:
  assumes laws: "chrono_laws ch" and inv: "cron_inv ch s after c" and h: "horizon \<le> 262000" "0 \<le> after"
  shows "\<exists>r. cron_search ch s horizon c = Some r \<and> first_match ch s horizon after r"
  using inv
proof (induction "nat ((horizon - 1969) * 31622400000 - ch_millis ch c)" arbitrary: c rule: less_induct)
  case less
  note turn = turn_progress [OF laws less.prems h]
  show ?case
  proof (cases "cron_turn ch s horizon c")
    case (Again d)
    with turn have d: "ch_year ch c \<le> horizon" "cron_inv ch s after d" "ch_millis ch c < ch_millis ch d"
      by simp_all
    have "ch_millis ch c < (horizon - 1969) * 31622400000"
      using laws less.prems d(1) h(2) by (intro millis_bound) (auto simp: chrono_laws_def cron_inv_def)
    with d have "\<exists>r. cron_search ch s horizon d = Some r \<and> first_match ch s horizon after r"
      by (intro less.hyps) auto
    with Again show ?thesis by (subst cron_search.simps) simp
  next
    case (Returns r)
    have "first_match ch s horizon after r"
    proof (cases r)
      case None
      with turn Returns have "horizon < ch_year ch c" by simp
      moreover have "ch_year ch c \<le> ch_year ch e" if "whole ch e" "ch_millis ch c \<le> ch_millis ch e" for e
        using laws less.prems that by (simp add: chrono_laws_def grows_years_def cron_inv_def)
      ultimately show ?thesis
        using None less.prems by (fastforce simp: first_match_def cron_inv_def)
    next
      case (Some t)
      with turn Returns less.prems show ?thesis
        by (force simp: first_match_def cron_inv_def intro!: bexI [of _ c] leI)
    qed
    with Returns show ?thesis by (subst cron_search.simps) simp
  next
    case Panics
    with turn show ?thesis by simp
  qed
qed

text \<open>C27. For every schedule and every representable instant, the search ends without a panic. It
  returns the earliest whole minute strictly after the instant whose month, day, hour and minute
  match, and nothing only when no minute up to the end of the eighth year from now does.\<close>

theorem next_after_earliest:
  assumes "chrono_laws ch" "unat after < 2 ^ 63" "ch_from_millis ch (int (unat after)) = Some d"
    "ch_year ch d \<le> 261992"
  shows "\<exists>r. next_after ch s after = Some r \<and>
    first_match ch s (ch_year ch d + search_horizon_years) (int (unat after)) r"
proof -
  let ?a = "int (unat after)"
  have d: "whole ch d" "ch_millis ch d = ?a"
    using assms by (auto simp: chrono_laws_def instants_ok_def whole_def)
  have "lands ch (Option.bind (truncate_to_minute ch d) (\<lambda>d. ch_add ch d 60000)) (?a div 60000 * 60000 + 60000)"
  proof (rule lands_add [where c = d])
    show "lands ch (truncate_to_minute ch d) (?a div 60000 * 60000)"
      using truncate_lands [of ch d] assms(1) d by (simp add: chrono_laws_def)
    show "?a div 60000 * 60000 div 86400000 = ch_millis ch d div 86400000"
      using zdiv_zmult2_eq [of 1440 "?a div 60000 * 60000" 60000] zdiv_zmult2_eq [of 1440 ?a 60000] d
      by simp
  qed (use assms d in \<open>auto simp: chrono_laws_def\<close>)
  then obtain c where c: "Option.bind (truncate_to_minute ch d) (\<lambda>d. ch_add ch d 60000) = Some c"
      "whole ch c" "ch_millis ch c = ?a div 60000 * 60000 + 60000"
    by (auto simp: lands_def)
  have "?a < ch_millis ch c" unfolding c(3) by (rule bucket_end) simp
  moreover have "\<not> (60000 dvd m \<and> ?a < m \<and> m < ?a div 60000 * 60000 + 60000)" for m
    using same_bucket [of 60000 ?a m] by (auto simp: dvd_def)
  ultimately have "cron_inv ch s ?a c"
    using c by (auto simp: cron_inv_def)
  from cron_search_returns [OF assms(1) this, of "ch_year ch d + search_horizon_years"] assms(4)
  show ?thesis using assms(2,3) c(1)
    by (simp add: next_after_def i64_of_def search_horizon_years_def)
qed

text \<open>The laws hold of a calendar with twelve months of thirty days.\<close>

definition flat_calendar :: "int chrono" where
  "flat_calendar =
     \<lparr>ch_from_millis = Some, ch_millis = (\<lambda>m. m),
      ch_year = (\<lambda>m. 1970 + m div 2592000000 div 12),
      ch_month = (\<lambda>m. word_of_int (m div 2592000000 mod 12 + 1)),
      ch_day = (\<lambda>m. word_of_int (m div 86400000 mod 30 + 1)),
      ch_weekday = (\<lambda>m. word_of_int ((m div 86400000 + 4) mod 7)),
      ch_hour = (\<lambda>m. word_of_int (m div 3600000 mod 24)),
      ch_minute = (\<lambda>m. word_of_int (m div 60000 mod 60)),
      ch_with_nanosecond = (\<lambda>m n. Some (m - m mod 1000 + uint n div 1000000)),
      ch_with_second = (\<lambda>m n. Some (m - m div 1000 mod 60 * 1000 + uint n * 1000)),
      ch_with_minute = (\<lambda>m n. Some (m - m div 60000 mod 60 * 60000 + uint n * 60000)),
      ch_with_hour = (\<lambda>m n. Some (m - m div 3600000 mod 24 * 3600000 + uint n * 3600000)),
      ch_with_day = (\<lambda>m n. Some (m - m div 86400000 mod 30 * 86400000 + (uint n - 1) * 86400000)),
      ch_add = (\<lambda>m n. Some (m + n)),
      ch_add_months = (\<lambda>m n. Some (m + int n * 2592000000))\<rparr>"

lemma flat_simps [simp]:
  "ch_from_millis flat_calendar = Some" "ch_millis flat_calendar m = m"
  "whole flat_calendar m" "lands flat_calendar (Some m) n \<longleftrightarrow> m = n"
  "ch_year flat_calendar m = 1970 + m div 2592000000 div 12"
  "ch_day flat_calendar m = word_of_int (m div 86400000 mod 30 + 1)"
  "ch_weekday flat_calendar m = word_of_int ((m div 86400000 + 4) mod 7)"
  "ch_hour flat_calendar m = word_of_int (m div 3600000 mod 24)"
  "ch_minute flat_calendar m = word_of_int (m div 60000 mod 60)"
  "ch_with_nanosecond flat_calendar m 0 = Some (m - m mod 1000)"
  "ch_with_second flat_calendar m 0 = Some (m - m div 1000 mod 60 * 1000)"
  "ch_with_minute flat_calendar m 0 = Some (m - m div 60000 mod 60 * 60000)"
  "ch_with_hour flat_calendar m 0 = Some (m - m div 3600000 mod 24 * 3600000)"
  "ch_with_day flat_calendar m 1 = Some (m - m div 86400000 mod 30 * 86400000)"
  "ch_add flat_calendar m n = Some (m + n)"
  "ch_add_months flat_calendar m (Suc 0) = Some (m + 2592000000)"
  by (simp_all add: flat_calendar_def whole_def lands_def)

lemma flat_same_month:
  "same_month flat_calendar m e \<longleftrightarrow> m div 2592000000 = e div 2592000000"
proof -
  have month: "uint (ch_month flat_calendar z) = z div 2592000000 mod 12 + 1" for z
    using pos_mod_bound [of 12 "z div 2592000000"] pos_mod_sign [of 12 "z div 2592000000"]
    by (simp add: flat_calendar_def uint_word_of_int_eq take_bit_int_eq_self del: of_int_add)
  show ?thesis
  proof
    assume same: "same_month flat_calendar m e"
    then have "m div 2592000000 mod 12 = e div 2592000000 mod 12"
      using month [of m] month [of e] by (simp add: same_month_def)
    moreover have "m div 2592000000 div 12 = e div 2592000000 div 12"
      using same by (simp add: same_month_def)
    ultimately show "m div 2592000000 = e div 2592000000" by (metis mult_div_mod_eq)
  next
    assume "m div 2592000000 = e div 2592000000"
    then show "same_month flat_calendar m e" by (simp add: same_month_def flat_calendar_def)
  qed
qed

lemma flat_months: "counts_months flat_calendar"
proof -
  have iff: "m div 2592000000 * 2592000000 \<le> e \<and> e < m div 2592000000 * 2592000000 + 2592000000 \<longleftrightarrow>
      m div 2592000000 = e div 2592000000" for m e :: int
    using same_bucket [of 2592000000 "m div 2592000000 * 2592000000" e] bucket_end [of 2592000000 e]
      pos_mod_sign [of 2592000000 e] minus_mod_eq_div_mult [of e 2592000000] by auto
  have first: "m - m div 86400000 mod 30 * 86400000 = m div 2592000000 * 2592000000"
    if "m mod 86400000 = 0" for m :: int
    using floor_twice [of 86400000 30 m] that minus_mod_eq_div_mult [of m 86400000] by simp
  have day0: "m div 2592000000 * 2592000000 mod 86400000 = 0" for m :: int
    by (simp add: mod_eq_0_iff_dvd dvd_mult)
  show ?thesis
    unfolding counts_months_def flat_same_month
  proof (intro allI impI)
    fix d :: int
    let ?d1 = "d div 2592000000 * 2592000000"
    assume "ch_millis flat_calendar d mod 86400000 = 0"
    then have "ch_with_day flat_calendar d 1 = Some ?d1" using first [of d] by simp
    moreover have "(?d1 + 2592000000) mod 86400000 = 0" using day0 [of d] by (simp add: mod_add_eq)
    ultimately show "\<exists>d1 d2. ch_with_day flat_calendar d 1 = Some d1 \<and>
        ch_add_months flat_calendar d1 1 = Some d2 \<and> whole flat_calendar d2 \<and>
        ch_millis flat_calendar d2 mod 86400000 = 0 \<and>
        (\<forall>e. whole flat_calendar e \<longrightarrow>
          (ch_millis flat_calendar d1 \<le> ch_millis flat_calendar e \<and>
             ch_millis flat_calendar e < ch_millis flat_calendar d2) =
          (d div 2592000000 = e div 2592000000))"
      using iff [of d] by (rule_tac exI [of _ ?d1], rule_tac exI [of _ "?d1 + 2592000000"]) simp
  qed
qed

lemma flat_laws: "chrono_laws flat_calendar"
proof -
  have "sets_clock flat_calendar" "reads_clock flat_calendar" "adds_time flat_calendar" "instants_ok flat_calendar"
    unfolding sets_clock_def reads_clock_def adds_time_def instants_ok_def
    by simp_all
  moreover have "dates_days flat_calendar"
    unfolding dates_days_def flat_same_month
    using zdiv_zmult2_eq [of 30 _ 86400000] by auto
  moreover have "grows_years flat_calendar"
    unfolding grows_years_def
  proof (intro conjI allI impI)
    fix d e :: int assume "ch_millis flat_calendar d \<le> ch_millis flat_calendar e"
    then show "ch_year flat_calendar d \<le> ch_year flat_calendar e" by (simp add: zdiv_mono1)
  next
    fix d :: int assume "0 \<le> ch_millis flat_calendar d"
    moreover have "d < d div 31104000000 * 31104000000 + 31104000000" by (rule bucket_end) simp
    moreover have "d div 2592000000 div 12 = d div 31104000000"
      using zdiv_zmult2_eq [of 12 d 2592000000] by simp
    ultimately show "ch_millis flat_calendar d < (ch_year flat_calendar d - 1969) * 31622400000"
      by simp
  qed
  ultimately show ?thesis using flat_months by (simp add: chrono_laws_def)
qed

definition half_past :: cron_schedule where
  "half_past =
     (let any = \<lambda>n. \<lparr>fd_included = replicate n True, fd_is_wildcard = True\<rparr>
      in \<lparr>cs_minute = \<lparr>fd_included = (replicate 60 False)[30 := True], fd_is_wildcard = False\<rparr>,
          cs_hour = any 24, cs_day_of_month = any 32, cs_month = any 13, cs_day_of_week = any 8\<rparr>)"

lemma next_after_earliest_witness:
  "\<exists>r. next_after flat_calendar half_past 1000000 = Some r \<and>
    first_match flat_calendar half_past (1970 + search_horizon_years) 1000000 r"
  using next_after_earliest [OF flat_laws, of 1000000 1000000 half_past] by simp

lemma cron_field_meaning_witness:
  "\<exists>f. field_parse ''1-9/4,20'' 0 59 = Inr f \<and> field_contains f 5 \<and> field_contains f 20 \<and>
     \<not> field_contains f 6"
proof -
  have s: "split_on CHR '','' ''1-9/4,20'' = [''1-9/4'', ''20'']" by simp
  have p: "part_range 0 59 ''1-9/4'' = Inr (1, 9, 4)" "part_range 0 59 ''20'' = Inr (20, 20, 1)"
    by (simp_all add: part_range_def parse_u32_def parse_unsigned_def digit_value_def Let_def)
  have "list_all (step_fits 0 59) (split_on CHR '','' ''1-9/4,20'')"
    unfolding s by (simp add: step_fits_def p)
  note meaning = cron_field_meaning [OF this, unfolded s]
  then obtain f where f: "field_parse ''1-9/4,20'' 0 59 = Inr f"
    using p by (cases "field_parse ''1-9/4,20'' 0 59") auto
  with meaning have "field_contains f v \<longleftrightarrow> v \<le> 59 \<and>
      (part_denotes 0 59 ''1-9/4'' (unat v) \<or> part_denotes 0 59 ''20'' (unat v))" for v
    by simp
  then show ?thesis using f by (simp add: part_denotes_def p)
qed

end
