(* ===== verification/Aik_Scheduler.thy ===== *)
theory Aik_Scheduler
  imports Aik_Api Aik_Cron
begin

text \<open>
  The job scheduler: the contract (src/crates/api/src/scheduler.rs), when a job runs next
  (state.rs), the durable store of persistent jobs (store.rs, persistent.rs), the schedule with
  its operations (scheduler.rs, owner.rs), the exclusion slots (runner.rs) and the run of one
  firing with its retries (runner.rs), all under src/crates/scheduler/src. Every operation that
  holds the lock of the schedule is one step; claims, firings on events, ends of runs, failures
  of the store and restarts interleave freely in the runs of a step relation.
\<close>

section \<open>Jobs\<close>

datatype trigger = At timestamp | After duration | Every duration | Cron string | OnEvent string

record retry_policy =
  rp_attempts :: u32
  rp_backoff :: duration
  rp_max_backoff :: duration

definition retry_none :: retry_policy where
  "retry_none = \<lparr>rp_attempts = 0, rp_backoff = 1000000000, rp_max_backoff = 60000000000\<rparr>"

text \<open>\<^verbatim>\<open>Duration::checked_mul\<close>: a duration has 64 bits of seconds.\<close>

definition duration_limit :: nat where
  "duration_limit = 2 ^ 64 * 1000000000"

definition duration_mul :: "duration \<Rightarrow> u32 \<Rightarrow> duration option" where
  "duration_mul d n = (let p = d * unat n in if p < duration_limit then Some p else None)"

definition checked_shl :: "u32 \<Rightarrow> u32 \<Rightarrow> u32 option" where
  "checked_shl a n = (if unat n < 32 then Some (push_bit (unat n) a) else None)"

definition delay_before :: "retry_policy \<Rightarrow> u32 \<Rightarrow> duration option" where
  "delay_before p attempt =
     (if attempt = 0 \<or> rp_attempts p < attempt then None
      else let factor = (case checked_shl 1 (attempt - 1) of Some f \<Rightarrow> f | None \<Rightarrow> - 1);
               doubled = (case duration_mul (rp_backoff p) factor of
                            Some d \<Rightarrow> d | None \<Rightarrow> rp_max_backoff p)
           in Some (min doubled (rp_max_backoff p)))"

record job_spec =
  sp_id :: string
  sp_trigger :: trigger
  sp_handler :: string
  sp_payload :: json
  sp_persistent :: bool
  sp_retry :: retry_policy
  sp_timeout :: "duration option"

definition job_spec_new :: "string \<Rightarrow> trigger \<Rightarrow> string \<Rightarrow> job_spec" where
  "job_spec_new i t h =
     \<lparr>sp_id = i, sp_trigger = t, sp_handler = h, sp_payload = JNull, sp_persistent = False,
      sp_retry = retry_none, sp_timeout = None\<rparr>"

record job_state =
  jb_spec :: job_spec
  jb_owner :: principal
  jb_next_run :: "timestamp option"
  jb_last_run :: "timestamp option"

record scheduled_job =
  sj_spec :: job_spec
  sj_owner :: string
  sj_next_run :: "timestamp option"
  sj_last_run :: "timestamp option"

definition to_scheduled :: "job_state \<Rightarrow> scheduled_job" where
  "to_scheduled j =
     \<lparr>sj_spec = jb_spec j, sj_owner = p_id (jb_owner j), sj_next_run = jb_next_run j,
      sj_last_run = jb_last_run j\<rparr>"

definition awaited_event :: "job_state \<Rightarrow> string option" where
  "awaited_event j = (case sp_trigger (jb_spec j) of OnEvent e \<Rightarrow> Some e | _ \<Rightarrow> None)"

definition is_event_driven :: "job_state \<Rightarrow> bool" where
  "is_event_driven j \<longleftrightarrow> (case sp_trigger (jb_spec j) of OnEvent _ \<Rightarrow> True | _ \<Rightarrow> False)"

section \<open>When a job runs\<close>

text \<open>Messages are kept but for the formatted interval and an apostrophe.\<close>

definition job_validate :: "job_spec \<Rightarrow> bool \<Rightarrow> unit result" where
  "job_validate spec persistence =
     (if sp_persistent spec \<and> \<not> persistence
      then Inl (Unsupported (''job `'' @ sp_id spec @ ''` asks to be persistent, but this scheduler keeps ''
             @ ''its schedule in memory only; wire the persistent scheduler component instead''))
      else (case sp_trigger spec of
              Every interval \<Rightarrow>
                if as_millis interval = 0
                then Inl (InvalidArgument (''job `'' @ sp_id spec @ ''` asks to repeat below the ''
                       @ ''one-millisecond resolution the kernel clock keeps''))
                else Inr ()
            | Cron expression \<Rightarrow>
                (case cron_parse expression of
                   Inl reason \<Rightarrow>
                     Inl (InvalidArgument (''job `'' @ sp_id spec @ ''` uses the cron expression `''
                       @ expression @ ''`, which this dialect rejects: '' @ reason))
                 | Inr _ \<Rightarrow> Inr ())
            | _ \<Rightarrow> Inr ()))"

text \<open>The next occurrence of a cron expression. That the search returns is \<open>next_after_earliest\<close>; a
  search that did not would be no occurrence here.\<close>

definition cron_next :: "'d chrono \<Rightarrow> string \<Rightarrow> timestamp \<Rightarrow> timestamp option" where
  "cron_next ch expression now =
     (case cron_parse expression of
        Inl _ \<Rightarrow> None
      | Inr s \<Rightarrow> (case next_after ch s now of None \<Rightarrow> None | Some r \<Rightarrow> r))"

definition first_run :: "'d chrono \<Rightarrow> trigger \<Rightarrow> timestamp \<Rightarrow> timestamp option" where
  "first_run ch t now =
     (case t of
        At timestamp \<Rightarrow> Some timestamp
      | After delay \<Rightarrow> Some (ts_add now delay)
      | Every interval \<Rightarrow> Some (ts_add now interval)
      | Cron expression \<Rightarrow> cron_next ch expression now
      | OnEvent _ \<Rightarrow> None)"

definition next_occurrence :: "timestamp \<Rightarrow> duration \<Rightarrow> timestamp \<Rightarrow> timestamp" where
  "next_occurrence anchor interval now =
     (let interval_ms = max (u64_try_from (as_millis interval)) 1 in
      if now < anchor then anchor
      else let elapsed = now - anchor; steps = sat_add (elapsed div interval_ms) 1
           in sat_add anchor (sat_mul steps interval_ms))"

definition next_run :: "'d chrono \<Rightarrow> trigger \<Rightarrow> timestamp \<Rightarrow> timestamp \<Rightarrow> timestamp option" where
  "next_run ch t fired_for now =
     (case t of
        Every interval \<Rightarrow> Some (next_occurrence fired_for interval now)
      | Cron expression \<Rightarrow> cron_next ch expression now
      | _ \<Rightarrow> None)"

datatype recovery = Pending | Overdue timestamp | Expired timestamp "timestamp option"

definition recover :: "'d chrono \<Rightarrow> job_state \<Rightarrow> timestamp \<Rightarrow> duration \<Rightarrow> recovery" where
  "recover ch j now window =
     (case jb_next_run j of
        None \<Rightarrow> Pending
      | Some due \<Rightarrow>
          if now < due then Pending
          else if ts_since now due \<le> window then Overdue due
          else Expired due (next_run ch (sp_trigger (jb_spec j)) due now))"

section \<open>The durable store\<close>

record stored_job =
  st_owner :: principal
  st_trigger :: trigger
  st_handler :: string
  st_payload :: json
  st_retry :: retry_policy
  st_timeout_ms :: "u64 option"
  st_next_run :: "timestamp option"
  st_last_run :: "timestamp option"

definition from_state :: "job_state \<Rightarrow> stored_job" where
  "from_state j =
     \<lparr>st_owner = jb_owner j, st_trigger = sp_trigger (jb_spec j), st_handler = sp_handler (jb_spec j),
      st_payload = sp_payload (jb_spec j), st_retry = sp_retry (jb_spec j),
      st_timeout_ms = map_option (\<lambda>d. u64_try_from (as_millis d)) (sp_timeout (jb_spec j)),
      st_next_run = jb_next_run j, st_last_run = jb_last_run j\<rparr>"

definition into_state :: "stored_job \<Rightarrow> string \<Rightarrow> job_state" where
  "into_state r i =
     \<lparr>jb_spec = (job_spec_new i (st_trigger r) (st_handler r))
        \<lparr>sp_payload := st_payload r, sp_persistent := True, sp_retry := st_retry r,
         sp_timeout := map_option from_millis (st_timeout_ms r)\<rparr>,
      jb_owner = st_owner r, jb_next_run = st_next_run r, jb_last_run = st_last_run r\<rparr>"

text \<open>A duration is serialized as its milliseconds, cast to 64 bits; reading it back multiplies
  again. The other fields come back as they were written.\<close>

definition ser_duration :: "duration \<Rightarrow> duration" where
  "ser_duration d = from_millis (word_of_nat (as_millis d))"

fun ser_trigger :: "trigger \<Rightarrow> trigger" where
  "ser_trigger (After d) = After (ser_duration d)"
| "ser_trigger (Every d) = Every (ser_duration d)"
| "ser_trigger t = t"

definition ser_retry :: "retry_policy \<Rightarrow> retry_policy" where
  "ser_retry p =
     p\<lparr>rp_backoff := ser_duration (rp_backoff p), rp_max_backoff := ser_duration (rp_max_backoff p)\<rparr>"

definition ser_job :: "stored_job \<Rightarrow> stored_job" where
  "ser_job r = r\<lparr>st_trigger := ser_trigger (st_trigger r), st_retry := ser_retry (st_retry r)\<rparr>"

text \<open>The table of jobs. Each access is one transaction that commits or fails; \<open>jt_faults\<close> says
  for each access to come whether it fails and how.\<close>

record job_store =
  jt_rows :: "(string, stored_job) btree_map"
  jt_faults :: "error option list"

definition transact :: "(job_store \<Rightarrow> 'a \<times> job_store) \<Rightarrow> job_store \<Rightarrow> 'a result \<times> job_store" where
  "transact f st =
     (let st' = st\<lparr>jt_faults := tl (jt_faults st)\<rparr> in
      case jt_faults st of
        Some e # _ \<Rightarrow> (Inl e, st')
      | _ \<Rightarrow> (case f st' of (a, st'') \<Rightarrow> (Inr a, st'')))"

definition job_load :: "job_store \<Rightarrow> job_state list result \<times> job_store" where
  "job_load = transact (\<lambda>st. (map (\<lambda>(i, r). into_state r i) (jt_rows st), st))"

definition job_put :: "job_state \<Rightarrow> job_store \<Rightarrow> unit result \<times> job_store" where
  "job_put j = transact (\<lambda>st.
     ((), st\<lparr>jt_rows := bt_insert (sp_id (jb_spec j)) (ser_job (from_state j)) (jt_rows st)\<rparr>))"

definition job_remove :: "string \<Rightarrow> job_store \<Rightarrow> unit result \<times> job_store" where
  "job_remove i = transact (\<lambda>st. ((), st\<lparr>jt_rows := bt_remove i (jt_rows st)\<rparr>))"

section \<open>The schedule\<close>

text \<open>A run's cancellation token is its run identifier; it is cancelled when the identifier is in
  \<open>sc_cancelled\<close> or the whole task scope is. Identifiers are drawn from a supply
  \<open>ids\<close> of UUIDs. A published event keeps its payload; an error in it is kept whole.\<close>

record run_slot =
  sl_run :: string
  sl_owner :: string

record firing =
  fi_spec :: job_spec
  fi_owner :: principal
  fi_run :: string
  fi_scheduled_for :: timestamp

datatype skip_reason = AlreadyRunning | Missed

record job_event =
  je_job :: string
  je_run :: string
  je_handler :: string
  je_correlation :: string
  je_timestamp :: timestamp
  je_owner :: string
  je_owner_kind :: principal_kind

datatype sched_event =
    JobStarted job_event u32 timestamp
  | JobCompleted job_event u32 u64
  | JobFailed job_event u32 u64 error bool
  | JobCancelled job_event u32
  | JobSkipped job_event timestamp skip_reason

record scheduler =
  sc_store :: "job_store option"
  sc_window :: duration
  sc_schedule :: "(string, job_state) btree_map"
  sc_running :: "(string, run_slot) hash_map"
  sc_handlers :: "string list option"
  sc_cancelled :: "string list"
  sc_stopped :: bool
  sc_live :: "firing list"
  sc_drawn :: nat
  sc_events :: "sched_event list"

definition default_catch_up_window :: duration where
  "default_catch_up_window = 3600 * 1000000000"

definition sched_build :: "job_store option \<Rightarrow> nat \<Rightarrow> scheduler" where
  "sched_build st drawn =
     \<lparr>sc_store = st, sc_window = default_catch_up_window, sc_schedule = [], sc_running = [],
      sc_handlers = None, sc_cancelled = [], sc_stopped = False, sc_live = [], sc_drawn = drawn,
      sc_events = []\<rparr>"

definition is_persistent :: "scheduler \<Rightarrow> bool" where
  "is_persistent s \<longleftrightarrow> sc_store s \<noteq> None"

definition sched_stop :: "scheduler \<Rightarrow> scheduler" where
  "sched_stop s = s\<lparr>sc_stopped := True\<rparr>"

definition make_job_event ::
  "string \<Rightarrow> string \<Rightarrow> principal \<Rightarrow> string \<Rightarrow> string \<Rightarrow> timestamp \<Rightarrow> job_event" where
  "make_job_event job handler owner run correlation now =
     \<lparr>je_job = job, je_run = run, je_handler = handler, je_correlation = correlation,
      je_timestamp = now, je_owner = p_id owner, je_owner_kind = p_kind owner\<rparr>"

definition publish :: "sched_event \<Rightarrow> scheduler \<Rightarrow> scheduler" where
  "publish e s = s\<lparr>sc_events := sc_events s @ [e]\<rparr>"

definition draw :: "nat \<Rightarrow> scheduler \<Rightarrow> scheduler" where
  "draw n s = s\<lparr>sc_drawn := sc_drawn s + n\<rparr>"

definition publish_skipped ::
  "(nat \<Rightarrow> string) \<Rightarrow> timestamp \<Rightarrow> job_state \<Rightarrow> timestamp \<Rightarrow> skip_reason \<Rightarrow> scheduler \<Rightarrow> scheduler" where
  "publish_skipped ids now j scheduled_for reason s =
     publish (JobSkipped (make_job_event (sp_id (jb_spec j)) (sp_handler (jb_spec j)) (jb_owner j)
         (ids (sc_drawn s + 1)) (ids (sc_drawn s)) now) scheduled_for reason) (draw 2 s)"

definition publish_missing_handler ::
  "(nat \<Rightarrow> string) \<Rightarrow> timestamp \<Rightarrow> job_state \<Rightarrow> string \<Rightarrow> scheduler \<Rightarrow> scheduler" where
  "publish_missing_handler ids now j run s =
     publish (JobFailed (make_job_event (sp_id (jb_spec j)) (sp_handler (jb_spec j)) (jb_owner j) run
         (ids (sc_drawn s)) now) 0 0 (NotFound ''job handler'' (sp_handler (jb_spec j))) False) (draw 1 s)"

subsection \<open>Slots and dispatch\<close>

definition slot_of :: "string \<Rightarrow> scheduler \<Rightarrow> run_slot option" where
  "slot_of i s = map_of (sc_running s) i"

definition is_running :: "string \<Rightarrow> scheduler \<Rightarrow> bool" where
  "is_running i s \<longleftrightarrow> slot_of i s \<noteq> None"

definition guard_claim :: "string \<Rightarrow> run_slot \<Rightarrow> scheduler \<Rightarrow> scheduler" where
  "guard_claim job slot s = s\<lparr>sc_running := AList.update job slot (sc_running s)\<rparr>"

definition guard_drop :: "string \<Rightarrow> string \<Rightarrow> scheduler \<Rightarrow> scheduler" where
  "guard_drop job run s =
     (if map_option sl_run (map_of (sc_running s) job) = Some run
      then s\<lparr>sc_running := AList.delete job (sc_running s)\<rparr> else s)"

definition dispatch ::
  "(nat \<Rightarrow> string) \<Rightarrow> timestamp \<Rightarrow> job_state \<Rightarrow> timestamp \<Rightarrow> scheduler \<Rightarrow> scheduler" where
  "dispatch ids now j scheduled_for s0 =
     (let run = ids (sc_drawn s0); s = draw 1 s0 in
      case sc_handlers s of
        None \<Rightarrow> s
      | Some handlers \<Rightarrow>
          if sp_handler (jb_spec j) \<notin> set handlers then publish_missing_handler ids now j run s
          else (guard_claim (sp_id (jb_spec j)) \<lparr>sl_run = run, sl_owner = p_id (jb_owner j)\<rparr> s)
            \<lparr>sc_live := sc_live s @
               [\<lparr>fi_spec = jb_spec j, fi_owner = jb_owner j, fi_run = run,
                 fi_scheduled_for = scheduled_for\<rparr>]\<rparr>)"

text \<open>The task of a firing ends, and drops its guard.\<close>

definition run_ends :: "firing \<Rightarrow> scheduler \<Rightarrow> scheduler" where
  "run_ends f s =
     guard_drop (sp_id (fi_spec f)) (fi_run f) (s\<lparr>sc_live := filter (\<lambda>g. fi_run g \<noteq> fi_run f) (sc_live s)\<rparr>)"

definition run_cancelled :: "firing \<Rightarrow> scheduler \<Rightarrow> bool" where
  "run_cancelled f s \<longleftrightarrow> sc_stopped s \<or> fi_run f \<in> set (sc_cancelled s)"

subsection \<open>Operations of the service\<close>

definition run_principal_name :: string where
  "run_principal_name = ''scheduler''"

definition job_authorize :: "string \<Rightarrow> string \<Rightarrow> principal \<Rightarrow> unit result" where
  "job_authorize i owner p =
     (if may_act_for p owner then Inr ()
      else Inl (PermissionDenied (''job `'' @ i @ ''` belongs to `'' @ owner @ ''`, not to `''
             @ p_id p @ ''`'')))"

definition run_principal :: "string \<Rightarrow> principal" where
  "run_principal owner = on_behalf_of (principal_new run_principal_name System) owner"

text \<open>A write to the store, when there is one.\<close>

definition on_store :: "(job_store \<Rightarrow> unit result \<times> job_store) \<Rightarrow> scheduler \<Rightarrow> unit result \<times> scheduler" where
  "on_store f s =
     (case sc_store s of
        None \<Rightarrow> (Inr (), s)
      | Some st \<Rightarrow> (case f st of (r, st') \<Rightarrow> (r, s\<lparr>sc_store := Some st'\<rparr>)))"

text \<open>The entry a call schedules: a replacement keeps the owner and the last run.\<close>

definition new_state ::
  "'d chrono \<Rightarrow> job_spec \<Rightarrow> execution_context \<Rightarrow> timestamp \<Rightarrow> scheduler \<Rightarrow> job_state" where
  "new_state ch spec cx now s =
     \<lparr>jb_spec = spec,
      jb_owner = (case map_of (sc_schedule s) (sp_id spec) of Some j \<Rightarrow> jb_owner j | None \<Rightarrow> principal_or_system cx),
      jb_next_run = first_run ch (sp_trigger spec) now,
      jb_last_run = Option.bind (map_of (sc_schedule s) (sp_id spec)) jb_last_run\<rparr>"

definition was_persistent :: "string \<Rightarrow> scheduler \<Rightarrow> bool" where
  "was_persistent i s =
     (case map_of (sc_schedule s) i of Some j \<Rightarrow> sp_persistent (jb_spec j) | None \<Rightarrow> False)"

text \<open>The owner of what is scheduled under an identifier has to agree, and the owner of what runs.\<close>

definition entry_authorized :: "string \<Rightarrow> principal \<Rightarrow> scheduler \<Rightarrow> unit result" where
  "entry_authorized i p s =
     (case map_of (sc_schedule s) i of
        Some j \<Rightarrow> job_authorize i (p_id (jb_owner j)) p | None \<Rightarrow> Inr ())"

definition slot_authorized :: "string \<Rightarrow> principal \<Rightarrow> scheduler \<Rightarrow> unit result" where
  "slot_authorized i p s =
     (case slot_of i s of Some slot \<Rightarrow> job_authorize i (sl_owner slot) p | None \<Rightarrow> Inr ())"

definition schedule_write :: "job_state \<Rightarrow> scheduler \<Rightarrow> unit result \<times> scheduler" where
  "schedule_write j s =
     (if sp_persistent (jb_spec j) then on_store (job_put j) s
      else if was_persistent (sp_id (jb_spec j)) s then on_store (job_remove (sp_id (jb_spec j))) s
      else (Inr (), s))"

definition schedule ::
  "'d chrono \<Rightarrow> job_spec \<Rightarrow> execution_context \<Rightarrow> timestamp \<Rightarrow> scheduler \<Rightarrow> unit result \<times> scheduler" where
  "schedule ch spec cx now s =
     (if sc_stopped s then (Inl Cancelled, s)
      else case job_validate spec (is_persistent s) of
        Inl e \<Rightarrow> (Inl e, s)
      | Inr _ \<Rightarrow>
     (case entry_authorized (sp_id spec) (principal_or_system cx) s of
        Inl e \<Rightarrow> (Inl e, s)
      | Inr _ \<Rightarrow>
          let j = new_state ch spec cx now s in
          case schedule_write j s of
            (Inl e, s') \<Rightarrow> (Inl e, s')
          | (Inr _, s') \<Rightarrow> (Inr (), s'\<lparr>sc_schedule := bt_insert (sp_id spec) j (sc_schedule s')\<rparr>)))"

text \<open>The removal of the entry, durably where it is persistent.\<close>

definition cancel_write :: "string \<Rightarrow> scheduler \<Rightarrow> unit result \<times> scheduler" where
  "cancel_write i s = (if was_persistent i s then on_store (job_remove i) s else (Inr (), s))"

definition cancel_slot :: "string \<Rightarrow> scheduler \<Rightarrow> scheduler" where
  "cancel_slot i s =
     (case slot_of i s of
        None \<Rightarrow> s
      | Some slot \<Rightarrow> s\<lparr>sc_cancelled := sl_run slot # sc_cancelled s\<rparr>)"

definition cancel ::
  "string \<Rightarrow> execution_context \<Rightarrow> scheduler \<Rightarrow> bool result \<times> scheduler" where
  "cancel i cx s =
     (case entry_authorized i (principal_or_system cx) s of
        Inl e \<Rightarrow> (Inl e, s)
      | Inr _ \<Rightarrow>
     (case slot_authorized i (principal_or_system cx) s of
        Inl e \<Rightarrow> (Inl e, s)
      | Inr _ \<Rightarrow>
     (case cancel_write i s of
        (Inl e, s') \<Rightarrow> (Inl e, s')
      | (Inr _, s') \<Rightarrow>
          (Inr (map_of (sc_schedule s) i \<noteq> None \<or> is_running i s),
           cancel_slot i (s'\<lparr>sc_schedule := bt_remove i (sc_schedule s')\<rparr>)))))"

definition list_jobs :: "execution_context \<Rightarrow> scheduler \<Rightarrow> scheduled_job list" where
  "list_jobs cx s =
     map to_scheduled (filter (\<lambda>j. may_act_for (principal_or_system cx) (p_id (jb_owner j)))
       (map snd (sc_schedule s)))"

subsection \<open>The driver\<close>

datatype claim_result = Dispatched | Skipped | Gone | StoreFailed

definition advance_job :: "'d chrono \<Rightarrow> timestamp \<Rightarrow> timestamp \<Rightarrow> job_state \<Rightarrow> job_state" where
  "advance_job ch due now j =
     j\<lparr>jb_last_run := Some due, jb_next_run := next_run ch (sp_trigger (jb_spec j)) due now\<rparr>"

text \<open>The claim made durable where the job is, and then in memory; a job without a next run is gone.\<close>

definition claim_write :: "string \<Rightarrow> job_state \<Rightarrow> scheduler \<Rightarrow> unit result \<times> scheduler" where
  "claim_write i advanced s =
     (if sp_persistent (jb_spec advanced)
      then on_store (case jb_next_run advanced of Some _ \<Rightarrow> job_put advanced | None \<Rightarrow> job_remove i) s
      else (Inr (), s))"

definition put_back :: "string \<Rightarrow> job_state \<Rightarrow> scheduler \<Rightarrow> scheduler" where
  "put_back i advanced s =
     s\<lparr>sc_schedule := (case jb_next_run advanced of
                        Some _ \<Rightarrow> bt_insert i advanced (sc_schedule s)
                      | None \<Rightarrow> bt_remove i (sc_schedule s))\<rparr>"

definition claim ::
  "'d chrono \<Rightarrow> (nat \<Rightarrow> string) \<Rightarrow> string \<Rightarrow> timestamp \<Rightarrow> scheduler \<Rightarrow> claim_result \<times> scheduler" where
  "claim ch ids i now s =
     (case map_of (sc_schedule s) i of
        None \<Rightarrow> (Gone, s)
      | Some j \<Rightarrow>
     (case jb_next_run j of
        None \<Rightarrow> (Gone, s)
      | Some due \<Rightarrow>
     if now < due then (Gone, s)
     else let advanced = advance_job ch due now j in
       case claim_write i advanced s of
         (Inl e, s') \<Rightarrow> (StoreFailed, s')
       | (Inr _, s') \<Rightarrow>
           let s'' = put_back i advanced s' in
           if is_running i s''
           then (Skipped, publish_skipped ids now advanced due AlreadyRunning s'')
           else (Dispatched, dispatch ids now advanced due s'')))"

definition due_ids :: "timestamp \<Rightarrow> scheduler \<Rightarrow> string list" where
  "due_ids now s =
     map (\<lambda>j. sp_id (jb_spec j))
       (filter (\<lambda>j. \<not> is_event_driven j \<and> (case jb_next_run j of None \<Rightarrow> False | Some t \<Rightarrow> t \<le> now))
         (map snd (sc_schedule s)))"

fun claim_all ::
  "'d chrono \<Rightarrow> (nat \<Rightarrow> string) \<Rightarrow> string list \<Rightarrow> timestamp \<Rightarrow> scheduler \<Rightarrow> bool \<times> scheduler" where
  "claim_all ch ids [] now s = (False, s)"
| "claim_all ch ids (i # is) now s =
     (case claim ch ids i now s of
        (c, s') \<Rightarrow> (case claim_all ch ids is now s' of (f, s'') \<Rightarrow> (c = StoreFailed \<or> f, s'')))"

definition fire_due ::
  "'d chrono \<Rightarrow> (nat \<Rightarrow> string) \<Rightarrow> timestamp \<Rightarrow> scheduler \<Rightarrow> bool \<times> scheduler" where
  "fire_due ch ids now s = claim_all ch ids (due_ids now s) now s"

definition waiting_ids :: "string \<Rightarrow> scheduler \<Rightarrow> string list" where
  "waiting_ids event s =
     map (\<lambda>j. sp_id (jb_spec j)) (filter (\<lambda>j. awaited_event j = Some event) (map snd (sc_schedule s)))"

definition fire_waiting ::
  "(nat \<Rightarrow> string) \<Rightarrow> timestamp \<Rightarrow> string \<Rightarrow> scheduler \<Rightarrow> scheduler" where
  "fire_waiting ids now i s =
     (case map_of (sc_schedule s) i of
        None \<Rightarrow> s
      | Some j \<Rightarrow>
          let fired = j\<lparr>jb_last_run := Some now\<rparr>;
              s' = s\<lparr>sc_schedule := bt_insert i fired (sc_schedule s)\<rparr>
          in if is_running i s' then publish_skipped ids now fired now AlreadyRunning s'
             else dispatch ids now fired now s')"

definition fire_for_event ::
  "(nat \<Rightarrow> string) \<Rightarrow> timestamp \<Rightarrow> string \<Rightarrow> scheduler \<Rightarrow> scheduler" where
  "fire_for_event ids now event s = fold (fire_waiting ids now) (waiting_ids event s) s"

definition horizon :: "timestamp \<Rightarrow> scheduler \<Rightarrow> duration option \<times> bool" where
  "horizon now s =
     (let jobs = map snd (sc_schedule s);
          nexts = List.map_filter jb_next_run (filter (\<lambda>j. \<not> is_event_driven j) jobs)
      in (if nexts = [] then None else Some (ts_since (fold min (tl nexts) (hd nexts)) now),
          list_ex is_event_driven jobs))"

subsection \<open>Starting\<close>

definition recover_one ::
  "'d chrono \<Rightarrow> (nat \<Rightarrow> string) \<Rightarrow> timestamp \<Rightarrow> job_state \<Rightarrow> scheduler \<Rightarrow> unit result \<times> scheduler" where
  "recover_one ch ids now j s =
     (let i = sp_id (jb_spec j) in
      if map_of (sc_schedule s) i \<noteq> None then (Inr (), s)
      else case recover ch j now (sc_window s) of
        Expired missed nxt \<Rightarrow>
          (let s1 = publish_skipped ids now j missed Missed s in
           case nxt of
             Some t \<Rightarrow>
               let j' = j\<lparr>jb_next_run := Some t\<rparr> in
               (case on_store (job_put j') s1 of
                  (Inl e, s2) \<Rightarrow> (Inl e, s2)
                | (Inr _, s2) \<Rightarrow> (Inr (), s2\<lparr>sc_schedule := bt_insert i j' (sc_schedule s2)\<rparr>))
           | None \<Rightarrow> on_store (job_remove i) s1)
      | _ \<Rightarrow> (Inr (), s\<lparr>sc_schedule := bt_insert i j (sc_schedule s)\<rparr>))"

fun recover_jobs ::
  "'d chrono \<Rightarrow> (nat \<Rightarrow> string) \<Rightarrow> timestamp \<Rightarrow> job_state list \<Rightarrow> scheduler \<Rightarrow> unit result \<times> scheduler" where
  "recover_jobs ch ids now [] s = (Inr (), s)"
| "recover_jobs ch ids now (j # js) s =
     (case recover_one ch ids now j s of
        (Inl e, s') \<Rightarrow> (Inl e, s')
      | (Inr _, s') \<Rightarrow> recover_jobs ch ids now js s')"

definition recover_persisted ::
  "'d chrono \<Rightarrow> (nat \<Rightarrow> string) \<Rightarrow> timestamp \<Rightarrow> scheduler \<Rightarrow> unit result \<times> scheduler" where
  "recover_persisted ch ids now s =
     (case sc_store s of
        None \<Rightarrow> (Inr (), s)
      | Some st \<Rightarrow>
          (case job_load st of
             (Inl e, st') \<Rightarrow> (Inl e, s\<lparr>sc_store := Some st'\<rparr>)
           | (Inr loaded, st') \<Rightarrow> recover_jobs ch ids now loaded (s\<lparr>sc_store := Some st'\<rparr>)))"

definition sched_start ::
  "'d chrono \<Rightarrow> (nat \<Rightarrow> string) \<Rightarrow> string list \<Rightarrow> timestamp \<Rightarrow> scheduler \<Rightarrow> unit result \<times> scheduler" where
  "sched_start ch ids handlers now s =
     (if sc_handlers s \<noteq> None then (Inl (Lifecycle ''the scheduler has already been started''), s)
      else recover_persisted ch ids now (s\<lparr>sc_handlers := Some handlers\<rparr>))"

section \<open>Runs of the scheduler\<close>

text \<open>What may happen to a started scheduler, in any order: calls of the service, claims by the driver
  at any reading of the clock, firings on events, ends of runs, the environment deciding how the
  next accesses to the store fare, and the process dying and starting again over the same store.
  A start that fails leaves only the store.\<close>

datatype sched_action = Rescheduled string | Claimed string timestamp | Restarted | Quiet

definition with_faults :: "error option list \<Rightarrow> scheduler \<Rightarrow> scheduler" where
  "with_faults fs s = s\<lparr>sc_store := map_option (\<lambda>st. st\<lparr>jt_faults := fs\<rparr>) (sc_store s)\<rparr>"

text \<open>Readings of the clock that leave room for a next occurrence.\<close>

definition clock_ok :: "'d chrono \<Rightarrow> timestamp \<Rightarrow> bool" where
  "clock_ok ch now \<longleftrightarrow> now \<noteq> - 1 \<and>
     (case ch_from_millis ch (int (unat now)) of None \<Rightarrow> True | Some d \<Rightarrow> ch_year ch d \<le> 261992)"

text \<open>A store as an earlier process left it: sorted by key, rows in their serialized form.\<close>

definition table_inv :: "job_store \<Rightarrow> bool" where
  "table_inv st \<longleftrightarrow> bt_inv (jt_rows st) \<and> list_all (\<lambda>(i, r). ser_job r = r) (jt_rows st)"

definition store_ok :: "job_store option \<Rightarrow> bool" where
  "store_ok st \<longleftrightarrow> (case st of None \<Rightarrow> True | Some t \<Rightarrow> table_inv t)"

inductive sched_step ::
  "'d chrono \<Rightarrow> (nat \<Rightarrow> string) \<Rightarrow> scheduler \<Rightarrow> sched_action \<Rightarrow> scheduler \<Rightarrow> bool" for ch ids where
  step_schedule:
    "sc_handlers s \<noteq> None \<Longrightarrow> schedule ch spec cx now s = (Inr u, s') \<Longrightarrow>
     sched_step ch ids s (Rescheduled (sp_id spec)) s'"
| step_refused:
    "sc_handlers s \<noteq> None \<Longrightarrow> schedule ch spec cx now s = (Inl e, s') \<Longrightarrow> sched_step ch ids s Quiet s'"
| step_cancel:
    "sc_handlers s \<noteq> None \<Longrightarrow> cancel i cx s = (r, s') \<Longrightarrow> sched_step ch ids s Quiet s'"
| step_claim:
    "sc_handlers s \<noteq> None \<Longrightarrow> map_of (sc_schedule s) i = Some j \<Longrightarrow> jb_next_run j = Some due \<Longrightarrow>
     claim ch ids i now s = (c, s') \<Longrightarrow> c \<in> {Dispatched, Skipped} \<Longrightarrow> clock_ok ch now \<Longrightarrow>
     sched_step ch ids s (Claimed i due) s'"
| step_no_claim:
    "sc_handlers s \<noteq> None \<Longrightarrow> claim ch ids i now s = (c, s') \<Longrightarrow> c \<in> {Gone, StoreFailed} \<Longrightarrow>
     sched_step ch ids s Quiet s'"
| step_event:
    "sc_handlers s \<noteq> None \<Longrightarrow> map_of (sc_schedule s) i = Some j \<Longrightarrow> is_event_driven j \<Longrightarrow>
     sched_step ch ids s Quiet (fire_waiting ids now i s)"
| step_end: "f \<in> set (sc_live s) \<Longrightarrow> sched_step ch ids s Quiet (run_ends f s)"
| step_stop: "sched_step ch ids s Quiet (sched_stop s)"
| step_faults: "sched_step ch ids s Quiet (with_faults fs s)"
| step_restart:
    "sched_start ch ids handlers now (sched_build (sc_store s) (sc_drawn s)) = (Inr (), s') \<Longrightarrow>
     clock_ok ch now \<Longrightarrow> sched_step ch ids s Restarted s'"
| step_failed_start:
    "sched_start ch ids handlers now (sched_build (sc_store s) (sc_drawn s)) = (Inl e, s') \<Longrightarrow>
     clock_ok ch now \<Longrightarrow> sched_step ch ids s Restarted (sched_build (sc_store s') (sc_drawn s'))"

inductive sched_run ::
  "'d chrono \<Rightarrow> (nat \<Rightarrow> string) \<Rightarrow> sched_action list \<Rightarrow> scheduler \<Rightarrow> bool" for ch ids where
  run_start: "store_ok st \<Longrightarrow> sched_run ch ids [] (sched_build st 0)"
| run_step: "sched_run ch ids as s \<Longrightarrow> sched_step ch ids s a s' \<Longrightarrow> sched_run ch ids (as @ [a]) s'"

section \<open>The store as a table\<close>

text \<open>What the scheduler relies on of a store: a write that succeeds replaces or removes the row of
  one job and touches no other, and a write that fails changes nothing.\<close>

locale durable_table =
  fixes rows :: "'st \<Rightarrow> 'k \<Rightarrow> 'r option"
    and put :: "'j \<Rightarrow> 'st \<Rightarrow> unit result \<times> 'st"
    and remove :: "'k \<Rightarrow> 'st \<Rightarrow> unit result \<times> 'st"
    and key :: "'j \<Rightarrow> 'k"
    and row :: "'j \<Rightarrow> 'r"
    and inv :: "'st \<Rightarrow> bool"
  assumes put_ok: "inv st \<Longrightarrow> put j st = (Inr u, st') \<Longrightarrow> rows st' = (rows st)(key j \<mapsto> row j)"
    and put_failed: "put j st = (Inl e, st') \<Longrightarrow> rows st' = rows st"
    and put_inv: "inv st \<Longrightarrow> put j st = (r, st') \<Longrightarrow> inv st'"
    and remove_ok: "inv st \<Longrightarrow> remove k st = (Inr u, st') \<Longrightarrow> rows st' = (rows st)(k := None)"
    and remove_failed: "remove k st = (Inl e, st') \<Longrightarrow> rows st' = rows st"
    and remove_inv: "inv st \<Longrightarrow> remove k st = (r, st') \<Longrightarrow> inv st'"
begin

text \<open>A relation between an index and the table, key by key, is kept by writing both sides.\<close>

lemma put_related:
  assumes "inv st" "put j st = (Inr u, st')" "\<And>i. R (m i) (rows st i)" "R (Some v) (Some (row j))"
  shows "R ((m(key j \<mapsto> v)) i) (rows st' i)"
  using put_ok [OF assms(1,2)] assms(3,4) by simp

lemma remove_related:
  assumes "inv st" "remove k st = (Inr u, st')" "\<And>i. R (m i) (rows st i)" "R v None"
  shows "R ((m(k := v)) i) (rows st' i)"
  using remove_ok [OF assms(1,2)] assms(3,4) by simp

lemma put_other: "inv st \<Longrightarrow> put j st = (r, st') \<Longrightarrow> i \<noteq> key j \<Longrightarrow> rows st' i = rows st i"
  by (cases r) (auto dest: put_ok put_failed)

lemma remove_other: "inv st \<Longrightarrow> remove k st = (r, st') \<Longrightarrow> i \<noteq> k \<Longrightarrow> rows st' i = rows st i"
  by (cases r) (auto dest: remove_ok remove_failed)

end

lemma ser_duration_idem [simp]: "ser_duration (ser_duration d) = ser_duration d"
  by (simp add: ser_duration_def)

lemma ser_trigger_idem [simp]: "ser_trigger (ser_trigger t) = ser_trigger t"
  by (cases t) auto

lemma ser_job_idem [simp]: "ser_job (ser_job r) = ser_job r"
  by (simp add: ser_job_def ser_retry_def)

lemma transact_ok:
  "transact f st = (Inr a, st') \<Longrightarrow> f (st\<lparr>jt_faults := tl (jt_faults st)\<rparr>) = (a, st')"
  by (auto simp: transact_def Let_def split: list.splits option.splits prod.splits)

lemma transact_failed:
  "transact f st = (Inl e, st') \<Longrightarrow> st' = st\<lparr>jt_faults := tl (jt_faults st)\<rparr>"
  by (auto simp: transact_def Let_def split: list.splits option.splits prod.splits)

lemma table_inv_insert: "table_inv st \<Longrightarrow> ser_job r = r \<Longrightarrow>
    table_inv (st\<lparr>jt_faults := fs, jt_rows := bt_insert i r (jt_rows st)\<rparr>)"
  using set_bt_insert [of i r "jt_rows st"]
  by (auto simp: table_inv_def bt_insert_inv list_all_iff)

lemma table_inv_remove:
  "table_inv st \<Longrightarrow> table_inv (st\<lparr>jt_faults := fs, jt_rows := bt_remove i (jt_rows st)\<rparr>)"
  using bt_remove_inv [of "jt_rows st" i] by (auto simp: table_inv_def list_all_iff bt_remove_def)

lemma table_inv_faults: "table_inv st \<Longrightarrow> table_inv (st\<lparr>jt_faults := fs\<rparr>)"
  by (simp add: table_inv_def)

interpretation redb: durable_table "\<lambda>st. map_of (jt_rows st)" job_put job_remove "\<lambda>j. sp_id (jb_spec j)"
    "\<lambda>j. ser_job (from_state j)" table_inv
proof
  fix st st' :: job_store and j r
  assume "table_inv st" "job_put j st = (r, st')"
  then show "table_inv st'"
    by (cases r)
      (auto simp: job_put_def table_inv_insert table_inv_faults dest!: transact_ok transact_failed)
next
  fix st st' :: job_store and k r
  assume "table_inv st" "job_remove k st = (r, st')"
  then show "table_inv st'"
    by (cases r)
      (auto simp: job_remove_def table_inv_remove table_inv_faults dest!: transact_ok transact_failed)
qed (auto simp: job_put_def job_remove_def table_inv_def bt_insert_get bt_remove_get
    dest!: transact_ok transact_failed)

section \<open>The view of a schedule and its mirror\<close>

definition srows :: "scheduler \<Rightarrow> string \<Rightarrow> stored_job option" where
  "srows s = (case sc_store s of None \<Rightarrow> Map.empty | Some st \<Rightarrow> map_of (jt_rows st))"

abbreviation jobs :: "scheduler \<Rightarrow> string \<Rightarrow> job_state option" where
  "jobs s \<equiv> map_of (sc_schedule s)"

text \<open>Framing: publishing, drawing, dispatching and releasing leave the schedule and its store
  alone.\<close>

named_theorems sched_frame

lemma publish_frame [sched_frame]:
  "sc_schedule (publish e s) = sc_schedule s" "sc_store (publish e s) = sc_store s"
  "sc_handlers (publish e s) = sc_handlers s" "sc_running (publish e s) = sc_running s"
  "sc_live (publish e s) = sc_live s" "sc_drawn (publish e s) = sc_drawn s"
  "sc_window (publish e s) = sc_window s"
  by (simp_all add: publish_def)

lemma draw_frame [sched_frame]:
  "sc_schedule (draw n s) = sc_schedule s" "sc_store (draw n s) = sc_store s"
  "sc_handlers (draw n s) = sc_handlers s" "sc_running (draw n s) = sc_running s"
  "sc_live (draw n s) = sc_live s" "sc_drawn (draw n s) = sc_drawn s + n"
  "sc_window (draw n s) = sc_window s"
  by (simp_all add: draw_def)

lemma skipped_frame [sched_frame]:
  "sc_schedule (publish_skipped ids now j t r s) = sc_schedule s"
  "sc_store (publish_skipped ids now j t r s) = sc_store s"
  "sc_handlers (publish_skipped ids now j t r s) = sc_handlers s"
  "sc_running (publish_skipped ids now j t r s) = sc_running s"
  "sc_live (publish_skipped ids now j t r s) = sc_live s"
  "sc_window (publish_skipped ids now j t r s) = sc_window s"
  by (simp_all add: publish_skipped_def sched_frame)

lemma dispatch_frame [sched_frame]:
  "sc_schedule (dispatch ids now j t s) = sc_schedule s"
  "sc_store (dispatch ids now j t s) = sc_store s"
  "sc_handlers (dispatch ids now j t s) = sc_handlers s"
  by (simp_all add: dispatch_def publish_missing_handler_def guard_claim_def Let_def sched_frame
      split: option.splits)

lemma run_ends_frame [sched_frame]:
  "sc_schedule (run_ends f s) = sc_schedule s" "sc_store (run_ends f s) = sc_store s"
  "sc_handlers (run_ends f s) = sc_handlers s"
  by (simp_all add: run_ends_def guard_drop_def)

text \<open>A persistent job has a row and no other job has; the row is the job as serialized, except that
  the last run of an event-driven job is kept in memory only.\<close>

definition mirror_row :: "job_state \<Rightarrow> stored_job option" where
  "mirror_row j = (if sp_persistent (jb_spec j) then Some (ser_job (from_state j)) else None)"

definition forget_last :: "stored_job \<Rightarrow> stored_job" where
  "forget_last r = (case st_trigger r of OnEvent _ \<Rightarrow> r\<lparr>st_last_run := None\<rparr> | _ \<Rightarrow> r)"

definition row_matches :: "job_state option \<Rightarrow> stored_job option \<Rightarrow> bool" where
  "row_matches j r \<longleftrightarrow> map_option forget_last r = map_option forget_last (Option.bind j mirror_row)"

definition sched_wf :: "scheduler \<Rightarrow> bool" where
  "sched_wf s \<longleftrightarrow> bt_inv (sc_schedule s) \<and> store_ok (sc_store s) \<and>
     (\<forall>i j. jobs s i = Some j \<longrightarrow> sp_id (jb_spec j) = i) \<and> (\<forall>i. row_matches (jobs s i) (srows s i))"

text \<open>The job under an identifier becomes \<open>a\<close>, in memory and on disk, and nothing else changes.\<close>

definition settles :: "string \<Rightarrow> job_state option \<Rightarrow> scheduler \<Rightarrow> scheduler \<Rightarrow> bool" where
  "settles i a s s' \<longleftrightarrow> jobs s' = (jobs s)(i := a) \<and> srows s' = (srows s)(i := Option.bind a mirror_row) \<and>
     bt_inv (sc_schedule s') \<and> store_ok (sc_store s')"

definition unchanged :: "scheduler \<Rightarrow> scheduler \<Rightarrow> bool" where
  "unchanged s s' \<longleftrightarrow> sc_schedule s' = sc_schedule s \<and> srows s' = srows s \<and> store_ok (sc_store s')"

lemma settles_wf:
  "sched_wf s \<Longrightarrow> settles i a s s' \<Longrightarrow> (\<And>j. a = Some j \<Longrightarrow> sp_id (jb_spec j) = i) \<Longrightarrow> sched_wf s'"
  by (auto simp: sched_wf_def settles_def row_matches_def split: if_splits)

lemma unchanged_wf: "sched_wf s \<Longrightarrow> unchanged s s' \<Longrightarrow> sched_wf s'"
  by (auto simp: sched_wf_def unchanged_def)

lemma no_row_iff:
  assumes "sched_wf s"
  shows "srows s i = None \<longleftrightarrow> (\<forall>j. jobs s i = Some j \<longrightarrow> \<not> sp_persistent (jb_spec j))"
proof -
  have "row_matches (jobs s i) (srows s i)" using assms by (simp add: sched_wf_def)
  then show ?thesis
    by (cases "jobs s i"; cases "srows s i") (auto simp: row_matches_def mirror_row_def split: if_splits)
qed

lemma persistent_has_store:
  "sched_wf s \<Longrightarrow> jobs s i = Some j \<Longrightarrow> sp_persistent (jb_spec j) \<Longrightarrow> sc_store s \<noteq> None"
  using no_row_iff [of s i] by (auto simp: srows_def split: option.splits)

lemma on_store_frame: "on_store f s = (r, s') \<Longrightarrow> s' = s\<lparr>sc_store := sc_store s'\<rparr>"
  by (auto simp: on_store_def split: option.splits prod.splits)

lemma on_store_put:
  assumes "on_store (job_put j) s = (r, s')" "store_ok (sc_store s)"
  shows "store_ok (sc_store s')"
    "\<And>e. r = Inl e \<Longrightarrow> srows s' = srows s"
    "\<And>u. r = Inr u \<Longrightarrow> sc_store s \<noteq> None \<Longrightarrow>
      srows s' = (srows s)(sp_id (jb_spec j) \<mapsto> ser_job (from_state j))"
  using assms
  by (auto simp: on_store_def store_ok_def srows_def split: option.splits prod.splits
      dest: redb.put_inv redb.put_failed redb.put_ok)

lemma on_store_remove:
  assumes "on_store (job_remove i) s = (r, s')" "store_ok (sc_store s)"
  shows "store_ok (sc_store s')"
    "\<And>e. r = Inl e \<Longrightarrow> srows s' = srows s"
    "\<And>u. r = Inr u \<Longrightarrow> srows s' = (srows s)(i := None)"
  using assms
  by (auto simp: on_store_def store_ok_def srows_def split: option.splits prod.splits
      dest: redb.remove_inv redb.remove_failed redb.remove_ok)

text \<open>A write that records what the job under \<open>i\<close> becomes: its new row, or its removal when it
  was or would no longer be persistent.\<close>

definition records :: "string \<Rightarrow> job_state option \<Rightarrow> scheduler \<Rightarrow> unit result \<times> scheduler \<Rightarrow> bool" where
  "records i a s w \<longleftrightarrow>
     snd w = s\<lparr>sc_store := sc_store (snd w)\<rparr> \<and> store_ok (sc_store (snd w)) \<and>
     srows (snd w) = (case fst w of Inl _ \<Rightarrow> srows s | Inr _ \<Rightarrow> (srows s)(i := Option.bind a mirror_row))"

lemma records_put:
  assumes "sched_wf s" "sc_store s \<noteq> None" "sp_id (jb_spec j) = i" "sp_persistent (jb_spec j)"
  shows "records i (Some j) s (on_store (job_put j) s)"
proof -
  obtain r s' where w: "on_store (job_put j) s = (r, s')" by (cases "on_store (job_put j) s")
  have "store_ok (sc_store s)" using assms(1) by (simp add: sched_wf_def)
  note put = on_store_put [OF w this]
  have "srows s' = (case r of Inl _ \<Rightarrow> srows s | Inr _ \<Rightarrow> (srows s)(i := mirror_row j))"
    using put(2,3) assms(2-4) by (cases r) (auto simp: mirror_row_def)
  with put(1) on_store_frame [OF w] show ?thesis by (simp add: records_def w split: sum.splits)
qed

lemma records_remove:
  assumes "sched_wf s" "Option.bind a mirror_row = None"
  shows "records i a s (on_store (job_remove i) s)"
proof -
  obtain r s' where w: "on_store (job_remove i) s = (r, s')" by (cases "on_store (job_remove i) s")
  have "store_ok (sc_store s)" using assms(1) by (simp add: sched_wf_def)
  note rem = on_store_remove [OF w this]
  have "srows s' = (case r of Inl _ \<Rightarrow> srows s | Inr _ \<Rightarrow> (srows s)(i := None))"
    using rem(2,3) by (cases r) auto
  with rem(1) on_store_frame [OF w] assms(2) show ?thesis by (simp add: records_def w split: sum.splits)
qed

lemma records_nothing:
  assumes "sched_wf s" "Option.bind a mirror_row = None"
    "\<And>j. jobs s i = Some j \<Longrightarrow> \<not> sp_persistent (jb_spec j)"
  shows "records i a s (Inr (), s)"
proof -
  have "srows s i = None" using no_row_iff [OF assms(1)] assms(3) by blast
  then show ?thesis using assms(1,2) by (auto simp: records_def sched_wf_def)
qed

lemma records_frame:
  assumes "records i a s (r, s')"
  shows "sc_schedule s' = sc_schedule s" "sc_handlers s' = sc_handlers s" "sc_running s' = sc_running s"
    "sc_live s' = sc_live s" "sc_drawn s' = sc_drawn s" "sc_window s' = sc_window s"
proof -
  from assms obtain st where "s' = s\<lparr>sc_store := st\<rparr>" by (auto simp: records_def)
  then show "sc_schedule s' = sc_schedule s" "sc_handlers s' = sc_handlers s"
    "sc_running s' = sc_running s" "sc_live s' = sc_live s" "sc_drawn s' = sc_drawn s"
    "sc_window s' = sc_window s" by simp_all
qed

lemma records_failed: "records i a s (Inl e, s') \<Longrightarrow> unchanged s s'"
  using records_frame(1) [of i a s "Inl e" s'] by (simp add: records_def unchanged_def)

lemma records_insert:
  assumes "records i (Some j) s (Inr u, s')" "sched_wf s"
  shows "settles i (Some j) s (s'\<lparr>sc_schedule := bt_insert i j (sc_schedule s')\<rparr>)"
proof -
  note records_frame(1) [OF assms(1)]
  with assms show ?thesis
    by (simp add: settles_def records_def sched_wf_def bt_insert_get bt_insert_inv srows_def)
qed

lemma records_delete:
  assumes "records i None s (Inr u, s')" "sched_wf s"
  shows "settles i None s (s'\<lparr>sc_schedule := bt_remove i (sc_schedule s')\<rparr>)"
proof -
  note records_frame(1) [OF assms(1)]
  with assms show ?thesis
    by (simp add: settles_def records_def sched_wf_def bt_remove_get bt_remove_inv srows_def)
qed

subsection \<open>What each operation does to the schedule\<close>

lemma validate_persistent:
  "job_validate spec (is_persistent s) = Inr u \<Longrightarrow> sp_persistent spec \<Longrightarrow> sc_store s \<noteq> None"
  by (auto simp: job_validate_def is_persistent_def split: if_splits)

lemma schedule_write_records:
  assumes "sched_wf s" "job_validate (jb_spec j) (is_persistent s) = Inr u" "sp_id (jb_spec j) = i"
  shows "records i (Some j) s (schedule_write j s)"
proof (cases "sp_persistent (jb_spec j)")
  case True
  with assms validate_persistent show ?thesis by (auto simp: schedule_write_def intro!: records_put)
next
  case False
  then have "Option.bind (Some j) mirror_row = None" by (simp add: mirror_row_def)
  with False assms show ?thesis
    by (auto simp: schedule_write_def was_persistent_def intro!: records_remove records_nothing
        split: option.splits)
qed

lemma schedule_effect:
  assumes "schedule ch spec cx now s = (r, s')" "sched_wf s"
  shows "case r of Inl _ \<Rightarrow> unchanged s s'
    | Inr _ \<Rightarrow> settles (sp_id spec) (Some (new_state ch spec cx now s)) s s'"
proof -
  have same: "unchanged s s" using assms(2) by (simp add: unchanged_def sched_wf_def)
  have spec: "jb_spec (new_state ch spec cx now s) = spec" by (simp add: new_state_def)
  obtain wr s1 where w: "schedule_write (new_state ch spec cx now s) s = (wr, s1)" by fastforce
  have "records (sp_id spec) (Some (new_state ch spec cx now s)) s (wr, s1)"
    if "job_validate spec (is_persistent s) = Inr u" for u
    using schedule_write_records [OF assms(2), of "new_state ch spec cx now s"] that spec w by simp
  then show ?thesis
    using assms(1) same w records_failed records_insert [OF _ assms(2)]
    by (auto simp: schedule_def Let_def split: if_splits sum.splits)
qed

lemma cancel_effect:
  assumes "cancel i cx s = (r, s')" "sched_wf s"
  shows "case r of Inl _ \<Rightarrow> unchanged s s' | Inr _ \<Rightarrow> settles i None s s'"
proof -
  have same: "unchanged s s" using assms(2) by (simp add: unchanged_def sched_wf_def)
  obtain wr s1 where w: "cancel_write i s = (wr, s1)" by fastforce
  have slot: "settles i None s (cancel_slot i s2) = settles i None s s2" for s2
    by (simp add: settles_def cancel_slot_def srows_def split: option.splits)
  have "records i None s (cancel_write i s)"
    using assms(2)
    by (auto simp: cancel_write_def was_persistent_def intro!: records_remove records_nothing
        split: option.splits)
  then show ?thesis
    using assms(1) same w records_failed records_delete [OF _ assms(2)]
    by (auto simp: cancel_def slot split: sum.splits)
qed

lemma claim_effect:
  assumes "claim ch ids i now s = (c, s')" "sched_wf s"
  shows "if c \<in> {Gone, StoreFailed} then unchanged s s'
    else \<exists>j due. jobs s i = Some j \<and> jb_next_run j = Some due \<and> due \<le> now \<and>
      settles i (if jb_next_run (advance_job ch due now j) = None then None else Some (advance_job ch due now j)) s s'"
proof (cases "\<exists>j due. jobs s i = Some j \<and> jb_next_run j = Some due \<and> due \<le> now")
  case False
  then have "s' = s" "c = Gone"
    using assms(1) by (auto simp: claim_def not_less split: option.splits if_splits)
  with assms(2) show ?thesis by (simp add: unchanged_def sched_wf_def)
next
  case True
  then obtain j due where j: "jobs s i = Some j" "jb_next_run j = Some due" "due \<le> now" by blast
  define adv where "adv = advance_job ch due now j"
  define a where "a = (if jb_next_run adv = None then None else Some adv)"
  obtain q s1 where w: "claim_write i adv s = (q, s1)" by fastforce
  have step: "case q of Inl e \<Rightarrow> c = StoreFailed \<and> s' = s1
    | Inr _ \<Rightarrow> c \<in> {Dispatched, Skipped} \<and> sc_schedule s' = sc_schedule (put_back i adv s1) \<and>
        sc_store s' = sc_store (put_back i adv s1)"
    using assms(1) j unfolding adv_def claim_def Let_def
    by (auto simp: not_less [symmetric] w [unfolded adv_def] sched_frame split: sum.splits if_splits)
  have key: "sp_id (jb_spec adv) = i" using assms(2) j by (simp add: adv_def advance_job_def sched_wf_def)
  have rec: "records i a s (q, s1)"
  proof (cases "sp_persistent (jb_spec adv)")
    case True
    then have "sc_store s \<noteq> None"
      using persistent_has_store [OF assms(2) j(1)] by (simp add: adv_def advance_job_def)
    with True key assms(2) show ?thesis unfolding w [symmetric]
      by (cases "jb_next_run adv") (auto simp: claim_write_def a_def intro!: records_put records_remove)
  next
    case False
    with j assms(2) show ?thesis unfolding w [symmetric]
      by (auto simp: claim_write_def a_def mirror_row_def adv_def advance_job_def intro!: records_nothing)
  qed
  have "settles i a s (put_back i adv s1)" if "q = Inr u" for u
    using that rec records_insert [OF _ assms(2)] records_delete [OF _ assms(2)]
    by (cases "jb_next_run adv") (auto simp: a_def put_back_def)
  then have "if c \<in> {Gone, StoreFailed} then unchanged s s' else settles i a s s'"
    using rec step by (cases q) (auto simp: settles_def srows_def dest: records_failed)
  then show ?thesis using j by (auto simp: a_def adv_def)
qed

lemma fire_waiting_effect:
  assumes "sched_wf s" "jobs s i = Some j" "is_event_driven j"
  shows "jobs (fire_waiting ids now i s) = (jobs s)(i \<mapsto> j\<lparr>jb_last_run := Some now\<rparr>)"
    "srows (fire_waiting ids now i s) = srows s" "sched_wf (fire_waiting ids now i s)"
proof -
  let ?j = "j\<lparr>jb_last_run := Some now\<rparr>"
  have sch: "sc_schedule (fire_waiting ids now i s) = bt_insert i ?j (sc_schedule s)"
    "sc_store (fire_waiting ids now i s) = sc_store s"
    using assms(2) by (simp_all add: fire_waiting_def Let_def sched_frame)
  then show jobs: "jobs (fire_waiting ids now i s) = (jobs s)(i \<mapsto> ?j)"
    and rows: "srows (fire_waiting ids now i s) = srows s"
    using assms(1) by (simp_all add: sched_wf_def bt_insert_get srows_def)
  have "row_matches (jobs s i) (srows s i)" using assms(1) by (simp add: sched_wf_def)
  then have "row_matches (Some ?j) (srows s i)"
    using assms(2,3)
    by (auto simp: row_matches_def mirror_row_def forget_last_def is_event_driven_def ser_job_def
        from_state_def split: trigger.splits)
  then show "sched_wf (fire_waiting ids now i s)"
    using assms(1,2) sch rows by (auto simp: sched_wf_def bt_insert_inv bt_insert_get)
qed

section \<open>The next occurrence lies ahead\<close>

abbreviation max_u64 :: nat where
  "max_u64 \<equiv> 2 ^ 64 - 1"

definition interval_ms :: "duration \<Rightarrow> nat" where
  "interval_ms d = max 1 (min (as_millis d) max_u64)"

lemma sat_chain: "min (a + min x M) M = min (a + x) (M :: nat)"
  by (simp add: min_def)

lemma next_occurrence_value:
  assumes "anchor \<le> now"
  shows "unat (next_occurrence anchor interval now) =
    min (unat anchor + ((unat now - unat anchor) div interval_ms interval + 1) * interval_ms interval) max_u64"
proof -
  define I where "I = max (u64_try_from (as_millis interval)) 1"
  have I: "unat I = interval_ms interval"
    by (auto simp: I_def interval_ms_def max_def unat_sat word_le_nat_alt)
  have pos: "1 \<le> interval_ms interval" by (simp add: interval_ms_def)
  define q where "q = (unat now - unat anchor) div interval_ms interval"
  have q: "unat ((now - anchor) div I) = q"
    using assms I by (simp add: q_def unat_div unat_sub)
  have "unat (sat_mul (sat_add ((now - anchor) div I) 1) I) = min ((q + 1) * interval_ms interval) max_u64"
  proof (cases "q + 1 \<le> max_u64")
    case True
    then show ?thesis using I q by (simp add: unat_sat)
  next
    case False
    have "m \<le> m * interval_ms interval" for m using mult_le_mono2 [OF pos, of m] by simp
    from this [of max_u64] this [of "q + 1"] False
    have big: "max_u64 \<le> max_u64 * interval_ms interval" "max_u64 \<le> (q + 1) * interval_ms interval"
      by linarith+
    have "min (q + 1) max_u64 = max_u64" using False by simp
    then show ?thesis using I q big by (simp add: unat_sat)
  qed
  then show ?thesis
    using assms sat_chain [of "unat anchor" "(q + 1) * interval_ms interval" max_u64]
    by (simp add: next_occurrence_def Let_def not_less [symmetric] I_def [symmetric] unat_sat q_def)
qed

lemma next_occurrence_later:
  assumes "anchor \<le> now" "now \<noteq> - 1"
  shows "now < next_occurrence anchor interval now"
proof -
  let ?I = "interval_ms interval" and ?e = "unat now - unat anchor"
  have "?e < (?e div ?I + 1) * ?I" by (simp add: interval_ms_def dividend_less_div_times)
  then have "unat now < unat anchor + (?e div ?I + 1) * ?I"
    using assms(1) by (simp add: word_le_nat_alt)
  moreover have "unat now < max_u64"
    using assms(2) unat_le_max [of now] unat_max_word [where 'a = 64]
    by (simp add: word_unat_eq_iff)
  ultimately show ?thesis by (simp add: word_less_nat_alt next_occurrence_value [OF assms(1)])
qed

lemma cron_next_later:
  assumes "chrono_laws ch" "clock_ok ch now" "cron_next ch expression now = Some t"
  shows "now < t"
proof -
  obtain sched where sched: "next_after ch sched now = Some (Some t)"
    using assms(3) by (auto simp: cron_next_def split: sum.splits option.splits)
  then obtain d where d: "unat now < 2 ^ 63" "ch_from_millis ch (int (unat now)) = Some d"
    by (auto simp: next_after_def i64_of_def split: if_splits option.splits)
  with assms(2) have "ch_year ch d \<le> 261992" by (simp add: clock_ok_def)
  from next_after_earliest [OF assms(1) d this, of sched] sched
  show ?thesis by (auto simp: first_match_def word_less_def)
qed

lemma next_run_later:
  assumes "chrono_laws ch" "clock_ok ch now" "due \<le> now" "next_run ch t due now = Some n"
  shows "now < n"
proof (cases t)
  case (Every interval)
  with assms(2-4) next_occurrence_later show ?thesis by (auto simp: next_run_def clock_ok_def)
next
  case (Cron expression)
  with assms cron_next_later show ?thesis by (auto simp: next_run_def)
qed (use assms(4) in \<open>simp_all add: next_run_def\<close>)

section \<open>Recovery\<close>

text \<open>Reading a row back gives the job it was written from, with durations in milliseconds.\<close>

lemma u64_try_from_unat [simp]: "u64_try_from (unat ms) = ms"
  using unat_less_pow [of ms] by (simp add: u64_try_from_def)

lemma from_into_state [simp]: "from_state (into_state r i) = r"
  by (cases r) (simp add: from_state_def into_state_def job_spec_new_def option.map_comp comp_def
      option.map_ident)

lemma into_state_fields [simp]:
  "sp_id (jb_spec (into_state r i)) = i" "sp_persistent (jb_spec (into_state r i))"
  "jb_next_run (into_state r i) = st_next_run r"
  by (simp_all add: into_state_def job_spec_new_def)

text \<open>The loop over the loaded jobs, with those still to come: they have their row and no entry yet.\<close>

definition recovering :: "job_state list \<Rightarrow> scheduler \<Rightarrow> bool" where
  "recovering js s \<longleftrightarrow> bt_inv (sc_schedule s) \<and> store_ok (sc_store s) \<and> sc_store s \<noteq> None \<and>
     (\<forall>i j. jobs s i = Some j \<longrightarrow> sp_id (jb_spec j) = i) \<and>
     distinct (map (\<lambda>j. sp_id (jb_spec j)) js) \<and>
     (\<forall>i. i \<notin> (\<lambda>j. sp_id (jb_spec j)) ` set js \<longrightarrow> row_matches (jobs s i) (srows s i)) \<and>
     (\<forall>j \<in> set js. sp_persistent (jb_spec j) \<and> jobs s (sp_id (jb_spec j)) = None \<and>
        srows s (sp_id (jb_spec j)) = mirror_row j)"

lemma recovering_done: "recovering [] s \<Longrightarrow> sched_wf s"
  by (simp add: recovering_def sched_wf_def)

lemma recovering_next:
  assumes "recovering (j # js) s" "i = sp_id (jb_spec j)"
    "jobs s' = (jobs s)(i := a)" "srows s' = (srows s)(i := Option.bind a mirror_row)"
    "bt_inv (sc_schedule s')" "store_ok (sc_store s')" "sc_store s' \<noteq> None"
    "\<And>k. a = Some k \<Longrightarrow> sp_id (jb_spec k) = i"
  shows "recovering js s'"
proof -
  let ?key = "\<lambda>j. sp_id (jb_spec j)"
  note old = assms(1) [unfolded recovering_def]
  have other: "?key k \<noteq> i" if "k \<in> set js" for k
  proof -
    have "distinct (map ?key (j # js))" using old by blast
    then have "?key j \<notin> ?key ` set js" by simp
    with that assms(2) show ?thesis by (metis imageI)
  qed
  have "row_matches (jobs s' k) (srows s' k)" if "k \<notin> ?key ` set js" for k
    using old that assms(2-4) by (cases "k = i") (simp_all add: row_matches_def)
  moreover have "?key k = l" if "jobs s' l = Some k" for l k
    using old that assms(3,8) by (cases "l = i") simp_all
  moreover have "sp_persistent (jb_spec k) \<and> jobs s' (?key k) = None \<and> srows s' (?key k) = mirror_row k"
    if "k \<in> set js" for k
    using old that other [OF that] assms(3,4) by simp
  ultimately show ?thesis using old assms(5-7) by (simp add: recovering_def)
qed

lemma recovering_skipped:
  "recovering js (publish_skipped ids now j t r s) = recovering js s"
  by (simp add: recovering_def sched_frame srows_def)

lemma on_store_some: "on_store f s = (r, s') \<Longrightarrow> sc_store s \<noteq> None \<Longrightarrow> sc_store s' \<noteq> None"
  by (auto simp: on_store_def split: prod.splits)

text \<open>The three ways one job goes: kept as it is, moved on past what was missed, or dropped.\<close>

lemma recover_one_cases:
  assumes "recover_one ch ids now j s = (r, s')" "jobs s (sp_id (jb_spec j)) = None"
  obtains (kept) "r = Inr ()" "s' = s\<lparr>sc_schedule := bt_insert (sp_id (jb_spec j)) j (sc_schedule s)\<rparr>"
  | (moved) missed t s1 q s2 where "jb_next_run j = Some missed" "missed \<le> now"
      "next_run ch (sp_trigger (jb_spec j)) missed now = Some t"
      "s1 = publish_skipped ids now j missed Missed s"
      "on_store (job_put (j\<lparr>jb_next_run := Some t\<rparr>)) s1 = (q, s2)" "r = q"
      "s' = (case q of Inl _ \<Rightarrow> s2 | Inr _ \<Rightarrow> s2\<lparr>sc_schedule :=
         bt_insert (sp_id (jb_spec j)) (j\<lparr>jb_next_run := Some t\<rparr>) (sc_schedule s2)\<rparr>)"
  | (dropped) missed s1 where "s1 = publish_skipped ids now j missed Missed s"
      "on_store (job_remove (sp_id (jb_spec j))) s1 = (r, s')"
proof (cases "recover ch j now (sc_window s)")
  case (Expired missed nxt)
  then have due: "jb_next_run j = Some missed" "missed \<le> now"
      "next_run ch (sp_trigger (jb_spec j)) missed now = nxt"
    by (auto simp: recover_def not_less split: option.splits if_splits)
  show thesis
  proof (cases nxt)
    case None
    with Expired assms show thesis by (intro dropped) (auto simp: recover_one_def Let_def)
  next
    case (Some t)
    obtain q s2 where w: "on_store (job_put (j\<lparr>jb_next_run := Some t\<rparr>))
        (publish_skipped ids now j missed Missed s) = (q, s2)" by fastforce
    with Some Expired assms due show thesis
      by (intro moved [OF _ _ _ _ w]) (auto simp: recover_one_def Let_def split: sum.splits)
  qed
qed (use assms in \<open>auto simp: recover_one_def Let_def intro: kept\<close>)

lemma recover_one_recovering:
  assumes "recover_one ch ids now j s = (Inr u, s')" "recovering (j # js) s"
  shows "recovering js s'"
proof -
  let ?i = "sp_id (jb_spec j)"
  have st: "store_ok (sc_store s)" "sc_store s \<noteq> None" "bt_inv (sc_schedule s)" "jobs s ?i = None"
    "srows s ?i = mirror_row j" "sp_persistent (jb_spec j)"
    using assms(2) by (simp_all add: recovering_def)
  have frame: "sc_schedule s2 = sc_schedule s1" if "on_store f s1 = (q, s2)" for f s1 q s2
    using that by (auto simp: on_store_def split: option.splits prod.splits)
  from assms(1) st(4) show ?thesis
  proof (cases rule: recover_one_cases)
    case kept
    with st show ?thesis
      by (intro recovering_next [OF assms(2) refl, of _ "Some j"])
        (auto simp: bt_insert_get bt_insert_inv srows_def)
  next
    case (moved missed t s1 q s2)
    have rec: "recovering (j # js) s1" using assms(2) moved(4) by (simp add: recovering_skipped)
    have st1: "store_ok (sc_store s1)" "sc_store s1 \<noteq> None" "sc_schedule s1 = sc_schedule s"
      using st moved(4) by (simp_all add: sched_frame)
    have "srows s2 = (srows s1)(?i \<mapsto> ser_job (from_state (j\<lparr>jb_next_run := Some t\<rparr>)))"
      using on_store_put(3) [OF moved(5) st1(1) _ st1(2)] moved(6) by simp
    then show ?thesis
      using moved(6,7) on_store_put(1) [OF moved(5) st1(1)] on_store_some [OF moved(5) st1(2)] st(3,6) st1(3)
        frame [OF moved(5)]
      by (intro recovering_next [OF rec refl, of _ "Some (j\<lparr>jb_next_run := Some t\<rparr>)"])
        (auto simp: bt_insert_get bt_insert_inv srows_def mirror_row_def)
  next
    case (dropped missed s1)
    have rec: "recovering (j # js) s1" using assms(2) dropped(1) by (simp add: recovering_skipped)
    have st1: "store_ok (sc_store s1)" "sc_store s1 \<noteq> None" "sc_schedule s1 = sc_schedule s"
      using st dropped(1) by (simp_all add: sched_frame)
    show ?thesis
      using on_store_remove [OF dropped(2) st1(1)] on_store_some [OF dropped(2) st1(2)] st(3,4) st1(3)
        frame [OF dropped(2)]
      by (intro recovering_next [OF rec refl, of _ None]) auto
  qed
qed

lemma recover_jobs_wf:
  "recover_jobs ch ids now js s = (Inr u, s') \<Longrightarrow> recovering js s \<Longrightarrow> sched_wf s'"
  by (induction js arbitrary: s)
    (auto simp: recovering_done dest: recover_one_recovering split: prod.splits sum.splits)

text \<open>What every single recovery keeps, the whole loop keeps.\<close>

lemma recover_jobs_keeps:
  assumes "recover_jobs ch ids now js s = (r, s')" "P s"
    "\<And>j s q s1. j \<in> set js \<Longrightarrow> recover_one ch ids now j s = (q, s1) \<Longrightarrow> P s \<Longrightarrow> P s1"
  shows "P s'"
  using assms
proof (induction js arbitrary: s)
  case (Cons j js)
  obtain q s1 where one: "recover_one ch ids now j s = (q, s1)" by fastforce
  have "P s1" using Cons.prems(3) [OF _ one] Cons.prems(2) by simp
  then show ?case
    using Cons.prems(1,3) one Cons.IH [of s1] by (cases q) auto
qed simp

end
