(* ===== verification/Aik_Firings.thy ===== *)
theory Aik_Firings
  imports Aik_Scheduler
begin

text \<open>
  What the runs of the scheduler guarantee (src/crates/scheduler/src): the durable mirror of the
  schedule, at most one firing per occurrence across restarts, no two firings of a job at once,
  and the run of one firing with its retries (runner.rs).
\<close>

section \<open>The mirror along a run\<close>

lemma recovering_loaded:
  assumes "table_inv st" "job_load st = (Inr loaded, st')" "sc_schedule s = []"
  shows "recovering loaded (s\<lparr>sc_store := Some st'\<rparr>)"
proof -
  have st': "st' = st\<lparr>jt_faults := tl (jt_faults st)\<rparr>" and l: "loaded = map (\<lambda>(i, r). into_state r i) (jt_rows st)"
    using assms(2) by (auto simp: job_load_def dest!: transact_ok)
  have rows: "bt_inv (jt_rows st)" "\<And>i r. (i, r) \<in> set (jt_rows st) \<Longrightarrow> ser_job r = r"
    using assms(1) by (auto simp: table_inv_def list_all_iff)
  have keys: "map (\<lambda>j. sp_id (jb_spec j)) loaded = map fst (jt_rows st)" by (simp add: l case_prod_beta)
  have "distinct (map (\<lambda>j. sp_id (jb_spec j)) loaded)"
    unfolding keys by (rule bt_inv_distinct [OF rows(1)])
  moreover have "(\<lambda>j. sp_id (jb_spec j)) ` set loaded = fst ` set (jt_rows st)"
    using keys by (metis set_map)
  moreover have "map_of (jt_rows st) i = None" if "i \<notin> fst ` set (jt_rows st)" for i
    using that by (simp add: map_of_eq_None_iff)
  moreover have "map_of (jt_rows st) i = mirror_row (into_state r i)" if "(i, r) \<in> set (jt_rows st)" for i r
    using that rows bt_inv_distinct [OF rows(1)] by (simp add: mirror_row_def)
  ultimately show ?thesis
    using assms(1,3) unfolding recovering_def st'
    by (auto simp: l row_matches_def srows_def store_ok_def table_inv_faults)
qed

text \<open>Between processes only the store is left.\<close>

definition sched_inv :: "scheduler \<Rightarrow> bool" where
  "sched_inv s \<longleftrightarrow> store_ok (sc_store s) \<and>
     (if sc_handlers s = None then sc_schedule s = [] \<and> sc_live s = [] \<and> sc_running s = []
      else sched_wf s)"

lemma sched_build_fields [simp]:
  "sc_store (sched_build st n) = st" "sc_schedule (sched_build st n) = []"
  "sc_handlers (sched_build st n) = None" "sc_live (sched_build st n) = []"
  "sc_running (sched_build st n) = []" "sc_drawn (sched_build st n) = n"
  by (simp_all add: sched_build_def)

lemma sched_inv_build: "store_ok st \<Longrightarrow> sched_inv (sched_build st n)"
  by (simp add: sched_inv_def)

lemma on_store_keeps:
  "on_store f s = (r, s') \<Longrightarrow> sc_handlers s' = sc_handlers s \<and> sc_live s' = sc_live s \<and>
     sc_running s' = sc_running s \<and> sc_drawn s' = sc_drawn s \<and> sc_schedule s' = sc_schedule s"
  by (auto simp: on_store_def split: option.splits prod.splits)

lemma skipped_drawn [simp]: "sc_drawn (publish_skipped ids now j t r s) = sc_drawn s + 2"
  by (simp add: publish_skipped_def sched_frame)

lemma recover_one_frame:
  assumes "recover_one ch ids now j s = (r, s')" "store_ok (sc_store s)"
  shows "store_ok (sc_store s') \<and> sc_handlers s' = sc_handlers s \<and> sc_live s' = sc_live s \<and>
    sc_running s' = sc_running s \<and> sc_drawn s \<le> sc_drawn s'"
proof (cases "jobs s (sp_id (jb_spec j))")
  case (Some k)
  with assms show ?thesis by (auto simp: recover_one_def)
next
  case None
  from assms(1) None show ?thesis
  proof (cases rule: recover_one_cases)
    case kept
    with assms(2) show ?thesis by simp
  next
    case (moved missed t s1 q s2)
    with assms(2) on_store_keeps [OF moved(5)] on_store_put(1) [OF moved(5)] show ?thesis
      by (cases q) (auto simp: sched_frame)
  next
    case (dropped missed s1)
    with assms(2) on_store_keeps [OF dropped(2)] on_store_remove(1) [OF dropped(2)] show ?thesis
      by (auto simp: sched_frame)
  qed
qed

lemma start_wf:
  assumes "sched_start ch ids handlers now (sched_build st n) = (r, s')" "store_ok st"
  shows "store_ok (sc_store s') \<and> (r = Inr () \<longrightarrow> sched_wf s' \<and> sc_handlers s' = Some handlers \<and>
    sc_live s' = [] \<and> sc_running s' = [] \<and> n \<le> sc_drawn s')"
proof -
  define s0 where "s0 = (sched_build st n)\<lparr>sc_handlers := Some handlers\<rparr>"
  have s0: "sc_schedule s0 = []" "sc_store s0 = st" "sc_handlers s0 = Some handlers" "sc_live s0 = []"
      "sc_running s0 = []" "sc_drawn s0 = n" "jobs s0 = Map.empty"
    by (simp_all add: s0_def)
  have rec: "recover_persisted ch ids now s0 = (r, s')"
    using assms(1) by (simp add: sched_start_def s0_def)
  show ?thesis
  proof (cases st)
    case None
    with rec s0 show ?thesis
      by (auto simp: recover_persisted_def sched_wf_def srows_def store_ok_def row_matches_def)
  next
    case (Some t)
    obtain q t' where l: "job_load t = (q, t')" by fastforce
    have t: "table_inv t" using assms(2) Some by (simp add: store_ok_def)
    have t': "store_ok (Some t')"
      using l t by (cases q) (auto simp: job_load_def store_ok_def table_inv_faults
          dest!: transact_ok transact_failed)
    show ?thesis
    proof (cases q)
      case (Inl e)
      with rec l s0 Some t' show ?thesis by (auto simp: recover_persisted_def)
    next
      case (Inr loaded)
      let ?s1 = "s0\<lparr>sc_store := Some t'\<rparr>"
      have run: "recover_jobs ch ids now loaded ?s1 = (r, s')"
        using rec l s0 Some Inr by (simp add: recover_persisted_def)
      have "store_ok (sc_store s') \<and> sc_handlers s' = Some handlers \<and> sc_live s' = [] \<and>
          sc_running s' = [] \<and> n \<le> sc_drawn s'"
        using recover_jobs_keeps [OF run, of "\<lambda>s. store_ok (sc_store s) \<and> sc_handlers s = Some handlers \<and>
            sc_live s = [] \<and> sc_running s = [] \<and> n \<le> sc_drawn s"] s0 t' recover_one_frame
        by fastforce
      moreover have "recovering loaded ?s1"
        using recovering_loaded [OF t] l Inr s0(1) by simp
      ultimately show ?thesis using recover_jobs_wf run by blast
    qed
  qed
qed

lemma wf_frame: "sched_wf s \<Longrightarrow> sc_schedule s' = sc_schedule s \<Longrightarrow> sc_store s' = sc_store s \<Longrightarrow> sched_wf s'"
  by (simp add: sched_wf_def srows_def)

lemma with_faults_wf: "sched_wf s \<Longrightarrow> sched_wf (with_faults fs s)"
  by (auto simp: sched_wf_def with_faults_def srows_def store_ok_def table_inv_faults split: option.splits)

lemma wf_store: "sched_wf s \<Longrightarrow> store_ok (sc_store s)"
  by (simp add: sched_wf_def)

text \<open>Scheduling, cancelling and every write leave the runs and their slots alone.\<close>

definition same_runs :: "scheduler \<Rightarrow> scheduler \<Rightarrow> bool" where
  "same_runs s s' \<longleftrightarrow> sc_handlers s' = sc_handlers s \<and> sc_live s' = sc_live s \<and>
     sc_running s' = sc_running s \<and> sc_drawn s' = sc_drawn s"

lemma same_runs_refl [simp]: "same_runs s s"
  by (simp add: same_runs_def)

lemma same_runs_schedule [simp]: "same_runs s (s'\<lparr>sc_schedule := m\<rparr>) = same_runs s s'"
  by (simp add: same_runs_def)

lemma on_store_runs: "on_store f s = (r, s') \<Longrightarrow> same_runs s s'"
  using on_store_keeps [of f s r s'] by (simp add: same_runs_def)

lemma schedule_runs:
  assumes "schedule ch spec cx now s = (r, s')"
  shows "same_runs s s'"
proof -
  obtain q s1 where w: "schedule_write (new_state ch spec cx now s) s = (q, s1)" by fastforce
  then have s1: "same_runs s s1" by (auto simp: schedule_write_def dest: on_store_runs split: if_splits)
  have "s' = s \<or> s' = s1 \<or> s' = s1\<lparr>sc_schedule := bt_insert (sp_id spec) (new_state ch spec cx now s) (sc_schedule s1)\<rparr>"
    using assms unfolding schedule_def Let_def w by (simp split: if_splits sum.splits prod.splits)
  with s1 show ?thesis by auto
qed

lemma cancel_runs:
  assumes "cancel i cx s = (r, s')"
  shows "same_runs s s'"
proof -
  obtain q s1 where w: "cancel_write i s = (q, s1)" by fastforce
  then have s1: "same_runs s s1" by (auto simp: cancel_write_def dest: on_store_runs split: if_splits)
  have slot: "same_runs s (cancel_slot i s2) = same_runs s s2" for s2
    by (simp add: cancel_slot_def same_runs_def split: option.splits)
  have "s' = s \<or> s' = s1 \<or> s' = cancel_slot i (s1\<lparr>sc_schedule := bt_remove i (sc_schedule s1)\<rparr>)"
    using assms unfolding cancel_def w by (simp split: sum.splits prod.splits)
  with s1 show ?thesis by (auto simp: slot)
qed

text \<open>A claim that goes through dispatches over the new schedule, or reports the firing skipped; any
  other claim leaves the runs alone.\<close>

lemma claim_runs:
  assumes "claim ch ids i now s = (c, s')"
  obtains (none) "c \<in> {Gone, StoreFailed}" "same_runs s s'"
  | (dispatched) s1 j due where "c = Dispatched" "same_runs s s1" "\<not> is_running i s1"
      "s' = dispatch ids now j due s1" "\<exists>k. jobs s i = Some k \<and> jb_spec k = jb_spec j"
  | (skipped) s1 j due where "c = Skipped" "same_runs s s1" "is_running i s1"
      "s' = publish_skipped ids now j due AlreadyRunning s1"
proof (cases "\<exists>j due. jobs s i = Some j \<and> jb_next_run j = Some due \<and> due \<le> now")
  case False
  then have "s' = s" "c = Gone"
    using assms by (auto simp: claim_def not_less split: option.splits if_splits)
  with none show thesis by simp
next
  case True
  then obtain j due where j: "jobs s i = Some j" "jb_next_run j = Some due" "\<not> now < due"
    by (auto simp: not_less)
  define adv where "adv = advance_job ch due now j"
  obtain q s1 where w: "claim_write i adv s = (q, s1)" by fastforce
  then have s1: "same_runs s s1" by (auto simp: claim_write_def dest: on_store_runs split: if_splits)
  have "jb_spec adv = jb_spec j" by (simp add: adv_def advance_job_def)
  define s2 where "s2 = put_back i adv s1"
  have s2: "same_runs s s2" using s1 by (simp add: s2_def put_back_def)
  have "claim ch ids i now s = (case q of Inl _ \<Rightarrow> (StoreFailed, s1)
    | Inr _ \<Rightarrow> if is_running i s2 then (Skipped, publish_skipped ids now adv due AlreadyRunning s2)
        else (Dispatched, dispatch ids now adv due s2))"
    using j unfolding claim_def Let_def s2_def adv_def
    by (simp add: w [unfolded adv_def] split: sum.splits)
  with assms consider "c = StoreFailed" "s' = s1"
    | "is_running i s2" "c = Skipped" "s' = publish_skipped ids now adv due AlreadyRunning s2"
    | "\<not> is_running i s2" "c = Dispatched" "s' = dispatch ids now adv due s2"
    by (auto split: sum.splits if_splits)
  then show thesis
  proof cases
    case 1
    with s1 show thesis by (intro none) simp_all
  next
    case 2
    with s2 show thesis by (intro skipped)
  next
    case 3
    with s2 j \<open>jb_spec adv = jb_spec j\<close> show thesis by (intro dispatched [of s2 adv due]) simp_all
  qed
qed

lemma claim_handlers: "claim ch ids i now s = (c, s') \<Longrightarrow> sc_handlers s' = sc_handlers s"
  by (erule claim_runs) (simp_all add: same_runs_def sched_frame)

lemma fire_waiting_handlers: "sc_handlers (fire_waiting ids now i s) = sc_handlers s"
  by (simp add: fire_waiting_def Let_def sched_frame split: option.splits)

lemma same_runs_handlers: "same_runs s s' \<Longrightarrow> sc_handlers s' = sc_handlers s"
  by (simp add: same_runs_def)

lemmas operation_handlers = schedule_runs [THEN same_runs_handlers] cancel_runs [THEN same_runs_handlers]
  claim_handlers fire_waiting_handlers

lemma sched_inv_step:
  assumes "sched_step ch ids s a s'" "sched_inv s"
  shows "sched_inv s'"
  using assms(1)
proof (cases rule: sched_step.cases)
  case (step_schedule spec cx now u)
  with assms(2) have wf: "sched_wf s" by (simp add: sched_inv_def)
  have "settles (sp_id spec) (Some (new_state ch spec cx now s)) s s'"
    using schedule_effect [OF step_schedule(3) wf] by simp
  then have "sched_wf s'" by (rule settles_wf [OF wf]) (simp add: new_state_def)
  with step_schedule show ?thesis by (auto simp: sched_inv_def operation_handlers wf_store)
next
  case (step_refused spec cx now e)
  with assms(2) have wf: "sched_wf s" by (simp add: sched_inv_def)
  have "unchanged s s'" using schedule_effect [OF step_refused(3) wf] by simp
  with wf have "sched_wf s'" by (rule unchanged_wf)
  with step_refused show ?thesis by (auto simp: sched_inv_def operation_handlers wf_store)
next
  case (step_cancel i cx r)
  with assms(2) have wf: "sched_wf s" by (simp add: sched_inv_def)
  have "unchanged s s' \<or> settles i None s s'"
    using cancel_effect [OF step_cancel(3) wf] by (simp split: sum.splits)
  then have "sched_wf s'" using unchanged_wf [OF wf] settles_wf [OF wf, of i None] by blast
  with step_cancel show ?thesis by (auto simp: sched_inv_def operation_handlers wf_store)
next
  case (step_claim i j due now c)
  with assms(2) have wf: "sched_wf s" by (simp add: sched_inv_def)
  from claim_effect [OF step_claim(5) wf] step_claim obtain k d where
      k: "jobs s i = Some k" "settles i (if jb_next_run (advance_job ch d now k) = None then None
        else Some (advance_job ch d now k)) s s'"
    by auto
  have "sp_id (jb_spec (advance_job ch d now k)) = i"
    using wf k(1) by (simp add: sched_wf_def advance_job_def)
  then have "sched_wf s'" by (intro settles_wf [OF wf k(2)]) (simp split: if_splits)
  with step_claim show ?thesis by (auto simp: sched_inv_def operation_handlers wf_store)
next
  case (step_no_claim i now c)
  with assms(2) have wf: "sched_wf s" by (simp add: sched_inv_def)
  have "unchanged s s'" using claim_effect [OF step_no_claim(3) wf] step_no_claim(4) by simp
  with wf have "sched_wf s'" by (rule unchanged_wf)
  with step_no_claim show ?thesis by (auto simp: sched_inv_def operation_handlers wf_store)
next
  case (step_event i j now)
  with assms(2) have "sched_wf s'"
    using fire_waiting_effect(3) [of s i j ids now] by (simp add: sched_inv_def)
  with step_event show ?thesis by (auto simp: sched_inv_def operation_handlers wf_store)
next
  case (step_end f)
  with assms(2) show ?thesis
    by (auto simp: sched_inv_def sched_frame intro: wf_frame split: if_splits)
next
  case step_stop
  with assms(2) show ?thesis
    by (auto simp: sched_inv_def sched_stop_def intro: wf_frame split: if_splits)
next
  case (step_faults fs)
  have "store_ok (sc_store (with_faults fs s))"
    using assms(2) by (auto simp: sched_inv_def store_ok_def with_faults_def table_inv_faults split: option.splits)
  moreover have "sc_handlers (with_faults fs s) = sc_handlers s" "sc_schedule (with_faults fs s) = sc_schedule s"
    "sc_live (with_faults fs s) = sc_live s" "sc_running (with_faults fs s) = sc_running s"
    by (simp_all add: with_faults_def)
  ultimately show ?thesis using step_faults assms(2) by (auto simp: sched_inv_def with_faults_wf split: if_splits)
next
  case (step_restart handlers now)
  have "store_ok (sc_store s)" using assms(2) by (simp add: sched_inv_def)
  from start_wf [OF step_restart(2) this] show ?thesis by (auto simp: sched_inv_def)
next
  case (step_failed_start handlers now e s1)
  have "store_ok (sc_store s)" using assms(2) by (simp add: sched_inv_def)
  from start_wf [OF step_failed_start(3) this] step_failed_start show ?thesis
    by (simp add: sched_inv_build)
qed

lemma sched_run_inv: "sched_run ch ids as s \<Longrightarrow> sched_inv s"
  by (induction rule: sched_run.induct) (auto intro: sched_inv_build sched_inv_step)

section \<open>Each occurrence is claimed at most once\<close>

text \<open>In memory and on disk, the job under an identifier runs next only after an instant.\<close>

definition beyond :: "string \<Rightarrow> timestamp \<Rightarrow> scheduler \<Rightarrow> bool" where
  "beyond i t s \<longleftrightarrow> (\<forall>j n. jobs s i = Some j \<longrightarrow> jb_next_run j = Some n \<longrightarrow> t < n) \<and>
     (\<forall>r n. srows s i = Some r \<longrightarrow> st_next_run r = Some n \<longrightarrow> t < n)"

lemma mirror_row_next: "mirror_row j = Some r \<Longrightarrow> st_next_run r = jb_next_run j"
  by (auto simp: mirror_row_def ser_job_def from_state_def split: if_splits)

lemma settles_beyond:
  assumes "settles k a s s'" "k = i \<Longrightarrow> (\<And>j n. a = Some j \<Longrightarrow> jb_next_run j = Some n \<Longrightarrow> t < n)"
    "k \<noteq> i \<Longrightarrow> beyond i t s"
  shows "beyond i t s'"
  using assms mirror_row_next
  by (cases "k = i") (auto simp: settles_def beyond_def bind_eq_Some_conv)

lemma unchanged_beyond: "unchanged s s' \<Longrightarrow> beyond i t s \<Longrightarrow> beyond i t s'"
  by (simp add: unchanged_def beyond_def)

lemma frame_beyond:
  "sc_schedule s' = sc_schedule s \<Longrightarrow> sc_store s' = sc_store s \<Longrightarrow> beyond i t s' = beyond i t s"
  by (simp add: beyond_def srows_def)

lemma srows_put:
  "on_store (job_put j) s = (q, s') \<Longrightarrow> store_ok (sc_store s) \<Longrightarrow>
     srows s' = srows s \<or> srows s' = (srows s)(sp_id (jb_spec j) \<mapsto> ser_job (from_state j))"
  using on_store_put [of j s q s'] on_store_frame [of "job_put j" s q s']
  by (cases q; cases "sc_store s") (auto simp: on_store_def srows_def)

lemma srows_remove:
  "on_store (job_remove k) s = (q, s') \<Longrightarrow> store_ok (sc_store s) \<Longrightarrow>
     srows s' = srows s \<or> srows s' = (srows s)(k := None)"
  using on_store_remove [of k s q s'] by (cases q) auto

lemma recover_one_beyond:
  assumes laws: "chrono_laws ch" and clock: "clock_ok ch now"
    and one: "recover_one ch ids now j s = (r, s')" and st: "store_ok (sc_store s)"
    and j: "sp_id (jb_spec j) = i \<Longrightarrow> (\<And>n. jb_next_run j = Some n \<Longrightarrow> t < n)" and s: "beyond i t s"
    and bt: "bt_inv (sc_schedule s)"
  shows "beyond i t s' \<and> store_ok (sc_store s') \<and> bt_inv (sc_schedule s')"
proof (cases "jobs s (sp_id (jb_spec j))")
  case (Some k)
  with one s st bt show ?thesis by (auto simp: recover_one_def)
next
  case None
  from one None show ?thesis
  proof (cases rule: recover_one_cases)
    case kept
    with s j st bt show ?thesis by (auto simp: beyond_def srows_def bt_insert_get bt_insert_inv)
  next
    case (moved missed n s1 q s2)
    have later: "now < n" by (rule next_run_later [OF laws clock moved(2,3)])
    have n: "t < n" if "sp_id (jb_spec j) = i"
      using j [OF that moved(1)] moved(2) later by (meson order_less_le_trans order_less_trans)
    have s1: "sc_schedule s1 = sc_schedule s" "sc_store s1 = sc_store s"
      using moved(4) by (simp_all add: sched_frame)
    have s2: "sc_schedule s2 = sc_schedule s" using on_store_keeps [OF moved(5)] s1 by simp
    have rows: "srows s2 = srows s \<or> srows s2 = (srows s)(sp_id (jb_spec j) \<mapsto>
        ser_job (from_state (j\<lparr>jb_next_run := Some n\<rparr>)))"
      using srows_put [OF moved(5)] s1 st by (simp add: srows_def)
    have fields: "sc_schedule s' = (case q of Inl _ \<Rightarrow> sc_schedule s
        | Inr _ \<Rightarrow> bt_insert (sp_id (jb_spec j)) (j\<lparr>jb_next_run := Some n\<rparr>) (sc_schedule s))"
      "srows s' = srows s2" "sc_store s' = sc_store s2"
      using moved(7) s2 by (cases q; simp add: srows_def)+
    have "beyond i t s'"
      using s n rows unfolding beyond_def fields
      by (cases q) (auto simp: bt_insert_get [OF bt] ser_job_def from_state_def split: if_splits)
    moreover have "store_ok (sc_store s')"
      using on_store_put(1) [OF moved(5)] s1 st fields(3) by simp
    moreover have "bt_inv (sc_schedule s')" using bt fields(1) by (cases q) (simp_all add: bt_insert_inv)
    ultimately show ?thesis by simp
  next
    case (dropped missed s1)
    have s1: "sc_schedule s1 = sc_schedule s" "sc_store s1 = sc_store s"
      using dropped(1) by (simp_all add: sched_frame)
    have "sc_schedule s' = sc_schedule s" using on_store_keeps [OF dropped(2)] s1 by simp
    with srows_remove [OF dropped(2)] on_store_remove(1) [OF dropped(2)] s1 st s bt show ?thesis
      by (auto simp: beyond_def srows_def split: if_splits)
  qed
qed

lemma start_beyond:
  assumes "chrono_laws ch" "clock_ok ch now" "store_ok st"
    and run: "sched_start ch ids handlers now (sched_build st m) = (r, s')"
    and rows: "\<And>row n. srows (sched_build st m) i = Some row \<Longrightarrow> st_next_run row = Some n \<Longrightarrow> t < n"
  shows "beyond i t s'"
proof -
  define s0 where "s0 = (sched_build st m)\<lparr>sc_handlers := Some handlers\<rparr>"
  have s0: "sc_schedule s0 = []" "sc_store s0 = st" "srows s0 = srows (sched_build st m)"
    by (simp_all add: s0_def srows_def)
  have b0: "beyond i t s0" using s0 rows by (simp add: beyond_def)
  have rec: "recover_persisted ch ids now s0 = (r, s')" using run by (simp add: sched_start_def s0_def)
  show ?thesis
  proof (cases st)
    case None
    with rec s0 b0 show ?thesis by (auto simp: recover_persisted_def)
  next
    case (Some tb)
    obtain q tb' where l: "job_load tb = (q, tb')" by fastforce
    have tb': "jt_rows tb' = jt_rows tb"
      using l by (cases q) (auto simp: job_load_def dest!: transact_ok transact_failed)
    have tbi: "table_inv tb" using assms(3) Some by (simp add: store_ok_def)
    with tb' have ok': "store_ok (Some tb')" by (simp add: store_ok_def table_inv_def)
    define s1 where "s1 = s0\<lparr>sc_store := Some tb'\<rparr>"
    have b1: "beyond i t s1"
      using b0 s0 Some tb' by (simp add: beyond_def s1_def srows_def)
    show ?thesis
    proof (cases q)
      case (Inl e)
      with rec l s0 Some b1 show ?thesis by (auto simp: recover_persisted_def s1_def)
    next
      case (Inr loaded)
      have js: "loaded = map (\<lambda>(i, r). into_state r i) (jt_rows tb)"
        using l Inr by (auto simp: job_load_def dest!: transact_ok)
      have loaded: "t < n" if "j \<in> set loaded" "sp_id (jb_spec j) = i" "jb_next_run j = Some n" for j n
      proof -
        note job = that
        obtain row where row: "(i, row) \<in> set (jt_rows tb)" "j = into_state row i"
          using job(1,2) by (auto simp: js)
        then have "srows (sched_build st m) i = Some row"
          using tbi Some by (simp add: srows_def table_inv_def bt_inv_distinct)
        with rows row(2) job(3) show ?thesis by simp
      qed
      have run': "recover_jobs ch ids now loaded s1 = (r, s')"
        using rec l s0 Some Inr by (simp add: recover_persisted_def s1_def)
      have "beyond i t s' \<and> store_ok (sc_store s') \<and> bt_inv (sc_schedule s')"
      proof (rule recover_jobs_keeps [OF run'])
        show "beyond i t s1 \<and> store_ok (sc_store s1) \<and> bt_inv (sc_schedule s1)"
          using b1 ok' s0 by (simp add: s1_def)
        fix j s q s2
        assume "j \<in> set loaded" "recover_one ch ids now j s = (q, s2)"
          "beyond i t s \<and> store_ok (sc_store s) \<and> bt_inv (sc_schedule s)"
        then show "beyond i t s2 \<and> store_ok (sc_store s2) \<and> bt_inv (sc_schedule s2)"
          using recover_one_beyond [OF assms(1,2)] loaded by blast
      qed
      then show ?thesis by simp
    qed
  qed
qed

text \<open>The occurrences of a job claimed since it was last scheduled.\<close>

fun claims_from :: "string \<Rightarrow> sched_action list \<Rightarrow> timestamp list \<Rightarrow> timestamp list" where
  "claims_from i [] acc = acc"
| "claims_from i (Rescheduled k # as) acc = claims_from i as (if k = i then [] else acc)"
| "claims_from i (Claimed k due # as) acc = claims_from i as (if k = i then acc @ [due] else acc)"
| "claims_from i (a # as) acc = claims_from i as acc"

definition claims_since :: "string \<Rightarrow> sched_action list \<Rightarrow> timestamp list" where
  "claims_since i as = claims_from i as []"

lemma claims_from_append: "claims_from i (as @ bs) acc = claims_from i bs (claims_from i as acc)"
  by (induction i as acc rule: claims_from.induct) auto

lemma beyond_step:
  assumes step: "sched_step ch ids s a s'" and inv: "sched_inv s" and laws: "chrono_laws ch"
    and b: "beyond i t s" and a: "a \<noteq> Rescheduled i"
  shows "beyond i t s'"
proof -
  have st: "store_ok (sc_store s)" using inv by (simp add: sched_inv_def)
  have rows: "t < n" if "srows (sched_build (sc_store s) m) i = Some row" "st_next_run row = Some n" for m row n
    using b that by (simp add: beyond_def srows_def)
  from step show ?thesis
  proof (cases rule: sched_step.cases)
    case (step_schedule spec cx now u)
    with inv have wf: "sched_wf s" by (simp add: sched_inv_def)
    have "settles (sp_id spec) (Some (new_state ch spec cx now s)) s s'"
      using schedule_effect [OF step_schedule(3) wf] by simp
    then show ?thesis using b a step_schedule(1) by (rule_tac settles_beyond) auto
  next
    case (step_refused spec cx now e)
    with inv have wf: "sched_wf s" by (simp add: sched_inv_def)
    have "unchanged s s'" using schedule_effect [OF step_refused(3) wf] by simp
    then show ?thesis using b by (rule unchanged_beyond)
  next
    case (step_cancel k cx r)
    with inv have wf: "sched_wf s" by (simp add: sched_inv_def)
    have "unchanged s s' \<or> settles k None s s'"
      using cancel_effect [OF step_cancel(3) wf] by (simp split: sum.splits)
    then show ?thesis using b unchanged_beyond settles_beyond [of k None s s' i t] by auto
  next
    case (step_claim k j due now c)
    with inv have wf: "sched_wf s" by (simp add: sched_inv_def)
    from claim_effect [OF step_claim(5) wf] step_claim(6) obtain x d where
        x: "jobs s k = Some x" "jb_next_run x = Some d" "d \<le> now"
          "settles k (if jb_next_run (advance_job ch d now x) = None then None
            else Some (advance_job ch d now x)) s s'"
      by auto
    have "t < n" if "k = i" "jb_next_run (advance_job ch d now x) = Some n" for n
    proof -
      have "now < n" using next_run_later [OF laws step_claim(7) x(3)] that(2) by (simp add: advance_job_def)
      moreover have "t < d" using b x(1,2) that(1) by (auto simp: beyond_def)
      ultimately show ?thesis using x(3) by (meson order_less_le_trans order_less_trans)
    qed
    with b show ?thesis by (intro settles_beyond [OF x(4)]) (auto split: if_splits)
  next
    case (step_no_claim k now c)
    with inv have wf: "sched_wf s" by (simp add: sched_inv_def)
    have "unchanged s s'" using claim_effect [OF step_no_claim(3) wf] step_no_claim(4) by simp
    then show ?thesis using b by (rule unchanged_beyond)
  next
    case (step_event k j now)
    with inv have "sched_wf s" by (simp add: sched_inv_def)
    note eff = fire_waiting_effect(1,2) [OF this step_event(4,5), of ids now]
    have "t < n" if "k = i" "jb_next_run j = Some n" for n
      using b step_event(4) that by (auto simp: beyond_def)
    with b show ?thesis unfolding step_event(2) beyond_def eff by simp
  next
    case (step_end f)
    with b show ?thesis using frame_beyond [of "run_ends f s" s i t] by (simp add: sched_frame)
  next
    case step_stop
    with b show ?thesis using frame_beyond [of "sched_stop s" s i t] by (simp add: sched_stop_def)
  next
    case (step_faults fs)
    have "srows (with_faults fs s) = srows s" "sc_schedule (with_faults fs s) = sc_schedule s"
      by (simp_all add: srows_def with_faults_def split: option.splits)
    with b step_faults show ?thesis by (simp add: beyond_def)
  next
    case (step_restart handlers now)
    show ?thesis by (rule start_beyond [OF laws step_restart(3) st step_restart(2) rows])
  next
    case (step_failed_start handlers now e s1)
    have "beyond i t s1" by (rule start_beyond [OF laws step_failed_start(4) st step_failed_start(3) rows])
    then show ?thesis unfolding step_failed_start(2) by (simp add: beyond_def srows_def)
  qed
qed

lemma claim_beyond:
  assumes "sched_step ch ids s (Claimed i due) s'" "sched_inv s" "chrono_laws ch"
  shows "beyond i due s'" "\<And>t. beyond i t s \<Longrightarrow> t < due"
proof -
  from assms(1) show "beyond i due s'"
  proof (cases rule: sched_step.cases)
    case (step_claim j now c)
    with assms(2) have wf: "sched_wf s" by (simp add: sched_inv_def)
    from claim_effect [OF step_claim(4) wf] step_claim(2,3,5)
    have eff: "due \<le> now" "settles i (if jb_next_run (advance_job ch due now j) = None then None
          else Some (advance_job ch due now j)) s s'"
      by auto
    have "due < n" if "jb_next_run (advance_job ch due now j) = Some n" for n
      using next_run_later [OF assms(3) step_claim(6) eff(1), of _ n] that eff(1)
      by (simp add: advance_job_def) (meson order_le_less_trans)
    then show ?thesis by (intro settles_beyond [OF eff(2)]) (auto split: if_splits)
  qed
  show "t < due" if "beyond i t s" for t
    using assms(1) that by (cases rule: sched_step.cases) (auto simp: beyond_def)
qed



section \<open>No two firings of a job at once\<close>

definition runs_of :: "scheduler \<Rightarrow> (string \<times> string) list" where
  "runs_of s = map (\<lambda>f. (sp_id (fi_spec f), fi_run f)) (sc_live s)"

lemma map_of_find:
  "map_of (map (\<lambda>x. (k x, v x)) xs) i = map_option v (find (\<lambda>x. k x = i) xs)"
  by (induction xs) auto

definition slots_inv :: "(nat \<Rightarrow> string) \<Rightarrow> scheduler \<Rightarrow> bool" where
  "slots_inv ids s \<longleftrightarrow> hm_inv (sc_running s) \<and> distinct (map fst (runs_of s)) \<and>
     distinct (map snd (runs_of s)) \<and> snd ` set (runs_of s) \<subseteq> ids ` {..<sc_drawn s} \<and>
     (\<forall>i. map_option sl_run (map_of (sc_running s) i) = map_of (runs_of s) i)"

lemma slots_inv_idle: "sc_live s = [] \<Longrightarrow> sc_running s = [] \<Longrightarrow> slots_inv ids s"
  by (simp add: slots_inv_def runs_of_def)

lemma slots_inv_frame:
  "slots_inv ids s \<Longrightarrow> sc_live s' = sc_live s \<Longrightarrow> sc_running s' = sc_running s \<Longrightarrow> sc_drawn s \<le> sc_drawn s' \<Longrightarrow>
     slots_inv ids s'"
  using image_mono [of "{..<sc_drawn s}" "{..<sc_drawn s'}" ids]
  unfolding slots_inv_def runs_of_def by (metis lessThan_subset_iff subset_trans)

lemma slots_inv_runs: "slots_inv ids s \<Longrightarrow> same_runs s s' \<Longrightarrow> slots_inv ids s'"
  by (erule slots_inv_frame) (simp_all add: same_runs_def)

lemma slots_inv_skipped: "slots_inv ids s \<Longrightarrow> slots_inv ids (publish_skipped ids now j t r s)"
  by (erule slots_inv_frame) (simp_all add: sched_frame)

lemma slots_inv_dispatch:
  assumes "inj ids" "slots_inv ids s" "\<not> is_running (sp_id (jb_spec j)) s"
  shows "slots_inv ids (dispatch ids now j t s)"
proof (cases "\<exists>h. sc_handlers s = Some h \<and> sp_handler (jb_spec j) \<in> set h")
  case False
  then show ?thesis using assms(2)
    by (intro slots_inv_frame [OF assms(2)])
      (auto simp: dispatch_def publish_missing_handler_def Let_def sched_frame split: option.splits)
next
  case True
  let ?i = "sp_id (jb_spec j)" and ?s = "dispatch ids now j t s" and ?run = "ids (sc_drawn s)"
  have d: "runs_of ?s = runs_of s @ [(?i, ?run)]" "sc_drawn ?s = sc_drawn s + 1"
    "sc_running ?s = AList.update ?i \<lparr>sl_run = ?run, sl_owner = p_id (jb_owner j)\<rparr> (sc_running s)"
    using True by (auto simp: dispatch_def guard_claim_def Let_def sched_frame runs_of_def)
  have free: "map_of (runs_of s) ?i = None"
    using assms(2,3) unfolding slots_inv_def is_running_def slot_of_def by (metis option.map(1))
  then have new: "?i \<notin> fst ` set (runs_of s)" by (simp add: map_of_eq_None_iff)
  have fresh: "?run \<notin> snd ` set (runs_of s)"
    using assms(1,2) by (auto simp: slots_inv_def inj_def dest!: subsetD)
  have "map_of (runs_of s @ [(?i, ?run)]) = (map_of (runs_of s))(?i \<mapsto> ?run)"
    using free by (auto simp: fun_eq_iff map_add_def split: option.splits)
  with d new fresh assms(2) show ?thesis
    by (auto simp: slots_inv_def distinct_update update_conv' lessThan_Suc)
qed

lemma slots_inv_ends:
  assumes "slots_inv ids s" "f \<in> set (sc_live s)"
  shows "slots_inv ids (run_ends f s)"
proof -
  let ?i = "sp_id (fi_spec f)"
  have mem: "(?i, fi_run f) \<in> set (runs_of s)" using assms(2) by (auto simp: runs_of_def)
  then have "map_of (runs_of s) ?i = Some (fi_run f)"
    using assms(1) by (simp add: slots_inv_def)
  then have slot: "map_option sl_run (map_of (sc_running s) ?i) = Some (fi_run f)"
    using assms(1) by (simp add: slots_inv_def)
  have live: "runs_of (run_ends f s) = filter (\<lambda>e. snd e \<noteq> fi_run f) (runs_of s)"
    by (simp add: run_ends_def guard_drop_def runs_of_def filter_map comp_def)
  have run: "sc_running (run_ends f s) = AList.delete ?i (sc_running s)"
    "sc_drawn (run_ends f s) = sc_drawn s"
    using slot by (simp_all add: run_ends_def guard_drop_def)
  have only: "snd e = fi_run f \<longleftrightarrow> fst e = ?i" if "e \<in> set (runs_of s)" for e
    using that mem assms(1) unfolding slots_inv_def
    by (metis (no_types, lifting) eq_key_imp_eq_value distinct_map inj_onD prod.collapse fst_conv snd_conv)
  then have "runs_of (run_ends f s) = bt_remove ?i (runs_of s)"
    unfolding live bt_remove_def by (auto intro: filter_cong)
  then have "map_of (runs_of (run_ends f s)) = (map_of (runs_of s))(?i := None)"
    by (simp add: bt_remove_get)
  then have "map_option sl_run (map_of (sc_running (run_ends f s)) k) = map_of (runs_of (run_ends f s)) k" for k
    using assms(1) run(1) unfolding slots_inv_def by (simp add: delete_conv')
  moreover have "snd ` set (runs_of (run_ends f s)) \<subseteq> ids ` {..<sc_drawn (run_ends f s)}"
    using assms(1) run(2) live unfolding slots_inv_def by auto
  moreover have "distinct (map fst (runs_of (run_ends f s)))" "distinct (map snd (runs_of (run_ends f s)))"
    "hm_inv (sc_running (run_ends f s))"
    using assms(1) unfolding slots_inv_def live run by (simp_all add: distinct_map_filter distinct_delete)
  ultimately show ?thesis unfolding slots_inv_def by blast
qed

lemma slots_inv_step:
  assumes "inj ids" "sched_step ch ids s a s'" "sched_inv s" "slots_inv ids s"
  shows "slots_inv ids s'"
  using assms(2)
proof (cases rule: sched_step.cases)
  case (step_claim i j due now c)
  with assms(3) have wf: "sched_wf s" by (simp add: sched_inv_def)
  from step_claim(5) show ?thesis
  proof (cases rule: claim_runs)
    case none
    show ?thesis by (rule slots_inv_runs [OF assms(4) none(2)])
  next
    case (dispatched s1 k d)
    from wf dispatched(5) have "sp_id (jb_spec k) = i" unfolding sched_wf_def by metis
    with dispatched(3) show ?thesis unfolding dispatched(4)
      by (intro slots_inv_dispatch [OF assms(1) slots_inv_runs [OF assms(4) dispatched(2)]]) simp
  next
    case (skipped s1 k d)
    show ?thesis unfolding skipped(4)
      by (rule slots_inv_skipped [OF slots_inv_runs [OF assms(4) skipped(2)]])
  qed
next
  case (step_no_claim i now c)
  from step_no_claim(3) show ?thesis
    using step_no_claim(4) by (cases rule: claim_runs) (auto intro: slots_inv_runs [OF assms(4)])
next
  case (step_event i j now)
  have "sp_id (jb_spec j) = i" using assms(3) step_event by (auto simp: sched_inv_def sched_wf_def)
  moreover have "slots_inv ids (s\<lparr>sc_schedule := m\<rparr>)" for m
    by (rule slots_inv_frame [OF assms(4)]) simp_all
  ultimately show ?thesis unfolding step_event(2)
    using step_event(4) by (simp add: fire_waiting_def Let_def slots_inv_skipped slots_inv_dispatch [OF assms(1)])
next
  case (step_end f)
  with assms(4) show ?thesis by (simp add: slots_inv_ends)
next
  case step_stop
  then show ?thesis by (auto intro: slots_inv_frame [OF assms(4)] simp: sched_stop_def)
next
  case (step_faults fs)
  then show ?thesis by (auto intro: slots_inv_frame [OF assms(4)] simp: with_faults_def)
next
  case (step_restart handlers now)
  have "store_ok (sc_store s)" using assms(3) by (simp add: sched_inv_def)
  from start_wf [OF step_restart(2) this] show ?thesis by (simp add: slots_inv_idle)
next
  case (step_failed_start handlers now e s1)
  then show ?thesis by (simp add: slots_inv_idle)
qed (auto intro: slots_inv_runs [OF assms(4)] schedule_runs cancel_runs)

text \<open>C18. In every reachable state, over all interleavings of claims, events, cancellations,
  replacements, ends of runs and restarts, no two firings of the same job are live, and a job's
  exclusion slot is taken exactly while one of its firings is, by that firing. Run identifiers are
  drawn without repetition.\<close>

theorem firings_exclusive:
  assumes "inj ids" "sched_run ch ids as s"
  shows "distinct (map (\<lambda>f. sp_id (fi_spec f)) (sc_live s)) \<and>
    (\<forall>i. map_option sl_run (slot_of i s) =
      map_option fi_run (find (\<lambda>f. sp_id (fi_spec f) = i) (sc_live s)))"
proof -
  have inv: "slots_inv ids s"
    using assms(2)
  proof (induction rule: sched_run.induct)
    case (run_start st)
    then show ?case by (simp add: slots_inv_idle)
  next
    case (run_step as s a s')
    then show ?case by (blast intro: slots_inv_step [OF assms(1)] sched_run_inv)
  qed
  have "map_of (runs_of s) i = map_option fi_run (find (\<lambda>f. sp_id (fi_spec f) = i) (sc_live s))" for i
    unfolding runs_of_def by (rule map_of_find)
  moreover have "map fst (runs_of s) = map (\<lambda>f. sp_id (fi_spec f)) (sc_live s)" by (simp add: runs_of_def)
  ultimately show ?thesis using inv unfolding slots_inv_def slot_of_def by metis
qed

section \<open>Owners\<close>


section \<open>Every due job is taken\<close>

definition is_due :: "timestamp \<Rightarrow> string \<Rightarrow> scheduler \<Rightarrow> bool" where
  "is_due now i s \<longleftrightarrow> (\<exists>j t. map_of (sc_schedule s) i = Some j \<and> jb_next_run j = Some t \<and> t \<le> now \<and>
     \<not> is_event_driven j)"

lemma claim_not_due:
  assumes "chrono_laws ch" "clock_ok ch now" "sched_wf s" "claim ch ids i now s = (c, s')" "c \<noteq> StoreFailed"
  shows "sched_wf s'" "\<And>k. is_due now k s' \<Longrightarrow> is_due now k s \<and> k \<noteq> i"
proof -
  have "sched_wf s' \<and> (\<forall>k. is_due now k s' \<longrightarrow> is_due now k s \<and> k \<noteq> i)"
  proof (cases "c = Gone")
    case True
    then have "unchanged s s'" using claim_effect [OF assms(4,3)] by simp
    moreover have "\<not> is_due now i s"
      using assms(4) True unfolding claim_def is_due_def
      by (auto simp: Let_def split: option.splits if_splits prod.splits sum.splits)
    ultimately show ?thesis using unchanged_wf [OF assms(3)] by (auto simp: is_due_def unchanged_def)
  next
    case False
    with claim_effect [OF assms(4,3)] assms(5) obtain j due where
        j: "jobs s i = Some j" "due \<le> now"
          "settles i (if jb_next_run (advance_job ch due now j) = None then None
             else Some (advance_job ch due now j)) s s'"
      by auto
    have "now < t" if "jb_next_run (advance_job ch due now j) = Some t" for t
      using next_run_later [OF assms(1,2) j(2)] that by (simp add: advance_job_def)
    moreover have "sp_id (jb_spec (advance_job ch due now j)) = i"
      using assms(3) j(1) by (simp add: sched_wf_def advance_job_def)
    then have "sched_wf s'" by (intro settles_wf [OF assms(3) j(3)]) (simp split: if_splits)
    ultimately show ?thesis using j(3) by (fastforce simp: is_due_def settles_def split: if_splits)
  qed
  then show "sched_wf s'" "\<And>k. is_due now k s' \<Longrightarrow> is_due now k s \<and> k \<noteq> i" by blast+
qed

lemma claim_all_not_due:
  assumes "chrono_laws ch" "clock_ok ch now"
  shows "sched_wf s \<Longrightarrow> claim_all ch ids is now s = (False, s') \<Longrightarrow>
    sched_wf s' \<and> (\<forall>k. is_due now k s' \<longrightarrow> is_due now k s \<and> k \<notin> set is)"
proof (induction "is" arbitrary: s)
  case (Cons i "is")
  obtain c s1 where c: "claim ch ids i now s = (c, s1)" by fastforce
  obtain f s2 where f: "claim_all ch ids is now s1 = (f, s2)" by fastforce
  from Cons.prems(2) c f have r: "c \<noteq> StoreFailed" "\<not> f" "s2 = s'" by auto
  note one = claim_not_due [OF assms Cons.prems(1) c r(1)]
  from Cons.IH [OF one(1)] f r have "sched_wf s' \<and> (\<forall>k. is_due now k s' \<longrightarrow> is_due now k s1 \<and> k \<notin> set is)"
    by simp
  with one(2) show ?case by auto
qed simp

text \<open>C38. When the driver fires what is due and no write to the store fails, every timed job that was
  due has been taken: none is due any longer, and all next runs lie after the reading of the
  clock.\<close>

theorem fire_due_complete:
  assumes "chrono_laws ch" "clock_ok ch now" "sched_wf s" "fire_due ch ids now s = (False, s')"
  shows "sched_wf s' \<and> (\<forall>i. \<not> is_due now i s')"
proof -
  have "i \<in> set (due_ids now s)" if "is_due now i s" for i
  proof -
    note due = that
    obtain j t where j: "jobs s i = Some j" "jb_next_run j = Some t" "t \<le> now" "\<not> is_event_driven j"
      using due by (auto simp: is_due_def)
    have "j \<in> snd ` set (sc_schedule s)" using j(1) by (auto dest!: map_of_SomeD intro: image_eqI [rotated])
    moreover have "sp_id (jb_spec j) = i" using assms(3) j(1) by (simp add: sched_wf_def)
    ultimately show ?thesis using j(2-4) by (auto simp: due_ids_def image_iff)
  qed
  then show ?thesis
    using claim_all_not_due [OF assms(1-3) assms(4) [unfolded fire_due_def]] by blast
qed

section \<open>Repeating jobs keep their phase\<close>

text \<open>After a firing, a repeating job runs next at the earliest instant after the reading of the
  clock that is a whole number of its intervals from the occurrence it was fired for, however many
  occurrences were missed, as long as that instant fits in 64 bits.\<close>

theorem next_occurrence_phase:
  assumes "anchor \<le> now"
    "unat anchor + ((unat now - unat anchor) div interval_ms interval + 1) * interval_ms interval < 2 ^ 64"
  shows "now < next_occurrence anchor interval now \<and>
    interval_ms interval dvd unat (next_occurrence anchor interval now) - unat anchor \<and>
    (\<forall>m. unat now < m \<longrightarrow> interval_ms interval dvd m - unat anchor \<longrightarrow>
      unat (next_occurrence anchor interval now) \<le> m)"
proof -
  let ?I = "interval_ms interval" and ?e = "unat now - unat anchor"
  have a: "unat anchor \<le> unat now" using assms(1) by (simp add: word_le_nat_alt)
  have v: "unat (next_occurrence anchor interval now) = unat anchor + (?e div ?I + 1) * ?I"
    using next_occurrence_value [OF assms(1), of interval] assms(2) by simp
  have e: "?e < (?e div ?I + 1) * ?I" by (simp add: interval_ms_def dividend_less_div_times)
  have "unat (next_occurrence anchor interval now) \<le> m"
    if m: "unat now < m" and d: "?I dvd m - unat anchor" for m
  proof -
    obtain q where q: "m - unat anchor = ?I * q" using d by (auto elim: dvdE)
    have "?e < ?I * q" using m a q by linarith
    then have "?e div ?I < q" by (simp add: interval_ms_def less_mult_imp_div_less mult.commute)
    then have "(?e div ?I + 1) * ?I \<le> q * ?I" by (intro mult_le_mono1) simp
    then show ?thesis using v q m a by (simp add: mult.commute)
  qed
  moreover have "now < next_occurrence anchor interval now"
    using e a by (simp add: word_less_nat_alt v)
  ultimately show ?thesis by (simp add: v)
qed

lemma next_occurrence_phase_witness: "next_occurrence 1000 2500000 1009 = 1010"
  using next_occurrence_phase [of 1000 1009 2500000]
  by (simp add: next_occurrence_def u64_try_from_def as_millis_def interval_ms_def sat_add_def sat_mul_def Let_def)

section \<open>A run\<close>

text \<open>A scheduler over an empty store is started, told to repeat a persistent job every second, fires
  it once and dies; the next process starts over the same store.\<close>

definition tick_ids :: "nat \<Rightarrow> string" where
  "tick_ids n = replicate n (CHR ''r'')"

definition tick_spec :: job_spec where
  "tick_spec = (job_spec_new ''tick'' (Every 1000000000) ''clock'')\<lparr>sp_persistent := True\<rparr>"

definition tick_cx :: execution_context where
  "tick_cx = \<lparr>cx_correlation = [], cx_principal = Some (principal_new ''ada'' User), cx_deadline = None,
     cx_cancelled = False, cx_attributes = []\<rparr>"

definition tick_started :: scheduler where
  "tick_started = (sched_build (Some \<lparr>jt_rows = [], jt_faults = []\<rparr>) 0)\<lparr>sc_handlers := Some [''clock'']\<rparr>"

definition tick_job :: job_state where
  "tick_job = \<lparr>jb_spec = tick_spec, jb_owner = principal_new ''ada'' User, jb_next_run = Some 1005,
     jb_last_run = None\<rparr>"

definition tick_scheduled :: scheduler where
  "tick_scheduled = tick_started\<lparr>sc_store := Some \<lparr>jt_rows = [(''tick'', ser_job (from_state tick_job))], jt_faults = []\<rparr>,
     sc_schedule := [(''tick'', tick_job)]\<rparr>"

lemma tick_inj: "inj tick_ids"
  unfolding tick_ids_def by (rule injI) (metis length_replicate)

lemma tick_clock: "n < 2 ^ 40 \<Longrightarrow> clock_ok flat_calendar (word_of_nat n)"
proof -
  assume n: "n < 2 ^ 40"
  then have u: "unat (word_of_nat n :: u64) = n" by (simp add: unat_of_nat)
  then have "(word_of_nat n :: u64) \<noteq> - 1" using n unat_max_word [where 'a = 64] by auto
  moreover have "int n div 2592000000 div 12 \<le> 2 ^ 40 div 2592000000 div 12"
    using n by (intro zdiv_mono1) auto
  ultimately show ?thesis by (simp add: clock_ok_def u)
qed

lemma tick_start:
  "sched_start flat_calendar tick_ids [''clock''] 5 (sched_build (Some \<lparr>jt_rows = [], jt_faults = []\<rparr>) 0) =
     (Inr (), tick_started)"
  by (simp add: sched_start_def recover_persisted_def job_load_def transact_def tick_started_def sched_build_def)

lemma tick_schedule: "schedule flat_calendar tick_spec tick_cx 5 tick_started = (Inr (), tick_scheduled)"
  by (simp add: schedule_def tick_started_def tick_scheduled_def tick_job_def tick_spec_def tick_cx_def
      sched_build_def job_validate_def is_persistent_def job_spec_new_def entry_authorized_def new_state_def
      principal_or_system_def first_run_def schedule_write_def on_store_def job_put_def transact_def Let_def
      ts_add_def as_millis_def sat_add_def)

lemma tick_claim: "\<exists>s. claim flat_calendar tick_ids ''tick'' 1005 tick_scheduled = (Dispatched, s) \<and>
    sc_live s \<noteq> [] \<and> sc_handlers s \<noteq> None"
  by (simp add: claim_def tick_scheduled_def tick_started_def tick_job_def tick_spec_def sched_build_def
      job_spec_new_def advance_job_def next_run_def claim_write_def on_store_def job_put_def transact_def
      put_back_def is_running_def slot_of_def dispatch_def draw_def guard_claim_def Let_def)

lemma tick_run:
  obtains s where "sched_run flat_calendar tick_ids [Restarted, Rescheduled ''tick'', Claimed ''tick'' 1005] s"
    "sc_live s \<noteq> []" "sc_handlers s \<noteq> None"
proof -
  obtain s where s: "claim flat_calendar tick_ids ''tick'' 1005 tick_scheduled = (Dispatched, s)" "sc_live s \<noteq> []"
      "sc_handlers s \<noteq> None" using tick_claim by blast
  let ?st = "Some \<lparr>jt_rows = [], jt_faults = []\<rparr>"
  have "store_ok ?st" by (simp add: store_ok_def table_inv_def)
  then have "sched_run flat_calendar tick_ids [] (sched_build ?st 0)" by (rule run_start)
  moreover have "sched_step flat_calendar tick_ids (sched_build ?st 0) Restarted tick_started"
    using tick_start tick_clock [of 5] by (intro step_restart [of _ _ _ 5]) (simp_all add: sched_build_fields)
  ultimately have "sched_run flat_calendar tick_ids ([] @ [Restarted]) tick_started" by (rule run_step)
  moreover have "sched_step flat_calendar tick_ids tick_started (Rescheduled (sp_id tick_spec)) tick_scheduled"
    by (rule step_schedule [OF _ tick_schedule]) (simp add: tick_started_def)
  ultimately have "sched_run flat_calendar tick_ids (([] @ [Restarted]) @ [Rescheduled (sp_id tick_spec)]) tick_scheduled"
    by (rule run_step)
  moreover have "sched_step flat_calendar tick_ids tick_scheduled (Claimed ''tick'' 1005) s"
    using tick_clock [of 1005]
    by (intro step_claim [OF _ _ _ s(1), of tick_job])
      (simp_all add: tick_scheduled_def tick_started_def tick_job_def)
  ultimately have "sched_run flat_calendar tick_ids
      ((([] @ [Restarted]) @ [Rescheduled (sp_id tick_spec)]) @ [Claimed ''tick'' 1005]) s"
    by (rule run_step)
  with s that show ?thesis by (simp add: tick_spec_def job_spec_new_def)
qed



lemma firings_exclusive_witness:
  "\<exists>as s. sched_run flat_calendar tick_ids as s \<and> sc_live s \<noteq> [] \<and>
     distinct (map (\<lambda>f. sp_id (fi_spec f)) (sc_live s))"
proof -
  obtain s where s: "sched_run flat_calendar tick_ids [Restarted, Rescheduled ''tick'', Claimed ''tick'' 1005] s"
    "sc_live s \<noteq> []" "sc_handlers s \<noteq> None" using tick_run .
  show ?thesis using firings_exclusive [OF tick_inj s(1)] s(1,2) by blast
qed

lemma tick_wf: "sched_wf tick_scheduled"
  by (auto simp: sched_wf_def tick_scheduled_def store_ok_def table_inv_def tick_job_def tick_spec_def
      job_spec_new_def row_matches_def srows_def mirror_row_def)


lemma fire_due_complete_witness:
  "\<exists>s. fire_due flat_calendar tick_ids 1005 tick_scheduled = (False, s) \<and> \<not> is_due 1005 ''tick'' s"
proof -
  have "due_ids 1005 tick_scheduled = [''tick'']"
    by (simp add: due_ids_def tick_scheduled_def tick_job_def tick_spec_def is_event_driven_def job_spec_new_def)
  then obtain s where s: "fire_due flat_calendar tick_ids 1005 tick_scheduled = (False, s)"
    using tick_claim by (auto simp: fire_due_def)
  have "clock_ok flat_calendar 1005" using tick_clock [of 1005] by simp
  from fire_due_complete [OF flat_laws this tick_wf s] s show ?thesis by blast
qed

end
