(* ===== verification/Aik_Runner.thy ===== *)
theory Aik_Runner
  imports Aik_Scheduler
begin

text \<open>
  One firing from dispatch to its end (src/crates/scheduler/src/runner.rs) and the delays between
  its attempts (\<open>RetryPolicy\<close> of src/crates/api/src/scheduler.rs).
\<close>

section \<open>The loop over attempts\<close>

text \<open>What the run meets, by attempt: whether its token is cancelled when an attempt is about to
  begin, what the handler does with its context (\<open>None\<close>: it has not returned when its time is
  over, or never does), whether the token is cancelled when a failure is looked at and whether it
  is before the wait is over, and what the clocks read.\<close>

record run_env =
  re_cancelled_before :: "u32 \<Rightarrow> bool"
  re_handler :: "u32 \<Rightarrow> job_spec \<Rightarrow> execution_context \<Rightarrow> unit result option"
  re_cancelled_after :: "u32 \<Rightarrow> bool"
  re_cancelled_waiting :: "u32 \<Rightarrow> bool"
  re_now :: "u32 \<Rightarrow> timestamp"
  re_elapsed_ms :: "u32 \<Rightarrow> u64"

definition firing_context :: "firing \<Rightarrow> string \<Rightarrow> timestamp \<Rightarrow> execution_context" where
  "firing_context f correlation now =
     \<lparr>cx_correlation = correlation,
      cx_principal = Some (run_principal (p_id (fi_owner f))),
      cx_deadline = map_option (ts_add now) (sp_timeout (fi_spec f)),
      cx_cancelled = False,
      cx_attributes = bt_insert ''run'' (JString (fi_run f))
        (bt_insert ''job'' (JString (sp_id (fi_spec f))) [])\<rparr>"

text \<open>\<open>None\<close>: the attempt never ends.\<close>

definition attempt_once :: "run_env \<Rightarrow> u32 \<Rightarrow> job_spec \<Rightarrow> execution_context \<Rightarrow> unit result option" where
  "attempt_once env attempt spec cx =
     (case (re_handler env attempt spec cx, sp_timeout spec) of
        (Some r, _) \<Rightarrow> Some r
      | (None, Some timeout) \<Rightarrow> Some (Inl (Timeout timeout))
      | (None, None) \<Rightarrow> None)"

lemma delay_before_next:
  "delay_before p (attempt + 1) = Some d \<Longrightarrow>
     unat (attempt + 1) = Suc (unat attempt) \<and> Suc (unat attempt) \<le> unat (rp_attempts p)"
proof -
  assume "delay_before p (attempt + 1) = Some d"
  then have "attempt + 1 \<noteq> 0" "attempt + 1 \<le> rp_attempts p"
    by (auto simp: delay_before_def not_less split: if_splits)
  moreover from this(1) have "unat (attempt + 1) = Suc (unat attempt)"
    by (metis add.commute unatSuc)
  ultimately show ?thesis by (simp add: word_le_nat_alt)
qed

text \<open>The loop from one attempt on: what it publishes, and whether it ends.\<close>

function execute_from ::
  "run_env \<Rightarrow> firing \<Rightarrow> string \<Rightarrow> u32 \<Rightarrow> sched_event list \<times> bool" where
  "execute_from env f correlation attempt =
     (let je = make_job_event (sp_id (fi_spec f)) (sp_handler (fi_spec f)) (fi_owner f) (fi_run f)
                 correlation (re_now env attempt);
          duration_ms = re_elapsed_ms env attempt in
      if re_cancelled_before env attempt then ([JobCancelled je attempt], True)
      else
        let started = JobStarted je attempt (fi_scheduled_for f) in
        case attempt_once env attempt (fi_spec f) (firing_context f correlation (re_now env attempt)) of
          None \<Rightarrow> ([started], False)
        | Some (Inr _) \<Rightarrow> ([started, JobCompleted je attempt duration_ms], True)
        | Some (Inl e) \<Rightarrow>
            if re_cancelled_after env attempt then ([started, JobCancelled je attempt], True)
            else (case delay_before (sp_retry (fi_spec f)) (attempt + 1) of
                    None \<Rightarrow> ([started, JobFailed je attempt duration_ms e False], True)
                  | Some delay \<Rightarrow>
                      let failed = JobFailed je attempt duration_ms e True in
                      if re_cancelled_waiting env attempt
                      then ([started, failed, JobCancelled je attempt], True)
                      else (case execute_from env f correlation (attempt + 1) of
                              (evs, ended) \<Rightarrow> (started # failed # evs, ended))))"
  by pat_completeness auto
termination
  by (relation "measure (\<lambda>(env, f, correlation, attempt). unat (rp_attempts (sp_retry (fi_spec f))) - unat attempt)")
    (auto dest!: delay_before_next)

declare execute_from.simps [simp del]

definition execute :: "run_env \<Rightarrow> firing \<Rightarrow> string \<Rightarrow> sched_event list \<times> bool" where
  "execute env f correlation = execute_from env f correlation 0"

section \<open>Delays\<close>

lemma unat_two_power: "n < 32 \<Longrightarrow> unat (2 ^ n :: u32) = 2 ^ n"
  using unat_of_nat [of "2 ^ n", where 'a = 32] power_strict_increasing [of n 32 "2 :: nat"] by simp

definition retry_factor :: "nat \<Rightarrow> nat" where
  "retry_factor k = min (2 ^ (k - 1)) (2 ^ 32 - 1)"

text \<open>The delay before attempt number \<open>k\<close> is the configured backoff doubled \<open>k - 1\<close> times (the
  factor staying at its 32-bit maximum from the 33rd on) and capped at the configured maximum,
  without overflow, and there is one exactly for the attempts the policy allows; the delays never
  decrease.\<close>

theorem delay_before_spec:
  assumes "rp_backoff p < duration_limit" "rp_max_backoff p < duration_limit"
  shows "delay_before p k =
      (if 0 < unat k \<and> unat k \<le> unat (rp_attempts p)
       then Some (min (rp_backoff p * retry_factor (unat k)) (rp_max_backoff p)) else None) \<and>
    (\<forall>m. 0 < m \<longrightarrow> min (rp_backoff p * retry_factor m) (rp_max_backoff p) \<le>
      min (rp_backoff p * retry_factor (m + 1)) (rp_max_backoff p))"
proof
  let ?f = "case checked_shl 1 (k - 1) of Some f \<Rightarrow> f | None \<Rightarrow> (- 1 :: u32)"
  show "delay_before p k = (if 0 < unat k \<and> unat k \<le> unat (rp_attempts p)
       then Some (min (rp_backoff p * retry_factor (unat k)) (rp_max_backoff p)) else None)"
  proof (cases "k = 0 \<or> rp_attempts p < k")
    case True
    then show ?thesis by (auto simp: delay_before_def word_less_nat_alt)
  next
    case False
    then have k: "0 < unat k" "unat k \<le> unat (rp_attempts p)" "unat (k - 1) = unat k - 1"
      by (auto simp: word_le_nat_alt not_less unat_gt_0 unat_minus_one)
    have "unat ?f = retry_factor (unat k)"
    proof (cases "unat k - 1 < 32")
      case True
      then have "(2::nat) ^ (unat k - 1) \<le> 2 ^ 31" by (intro power_increasing) auto
      with True k(3) show ?thesis
        by (simp add: checked_shl_def retry_factor_def push_bit_eq_mult unat_two_power min_absorb1)
    next
      case False
      then have "(2::nat) ^ 32 \<le> 2 ^ (unat k - 1)" by (intro power_increasing) auto
      with False k(3) show ?thesis
        by (simp add: checked_shl_def retry_factor_def unat_max_word min_absorb2)
    qed
    then have "min (case duration_mul (rp_backoff p) ?f of Some d \<Rightarrow> d | None \<Rightarrow> rp_max_backoff p) (rp_max_backoff p)
        = min (rp_backoff p * retry_factor (unat k)) (rp_max_backoff p)"
      using assms(2) by (auto simp: duration_mul_def Let_def)
    with False k show ?thesis by (simp add: delay_before_def Let_def)
  qed
  have "retry_factor m \<le> retry_factor (m + 1)" for m
    by (auto simp: retry_factor_def min_le_iff_disj intro: power_increasing)
  then have "min (rp_backoff p * retry_factor m) (rp_max_backoff p) \<le>
      min (rp_backoff p * retry_factor (m + 1)) (rp_max_backoff p)" for m
    by (rule min.mono [OF mult_le_mono2 order_refl])
  then show "\<forall>m. 0 < m \<longrightarrow> min (rp_backoff p * retry_factor m) (rp_max_backoff p) \<le>
      min (rp_backoff p * retry_factor (m + 1)) (rp_max_backoff p)"
    by blast
qed

lemma delay_before_spec_witness:
  "delay_before \<lparr>rp_attempts = 3, rp_backoff = 1000, rp_max_backoff = 3000\<rparr> 2 = Some 2000 \<and>
   delay_before \<lparr>rp_attempts = 3, rp_backoff = 1000, rp_max_backoff = 3000\<rparr> 4 = None"
  using delay_before_spec [of "\<lparr>rp_attempts = 3, rp_backoff = 1000, rp_max_backoff = 3000\<rparr>" 2]
    delay_before_spec [of "\<lparr>rp_attempts = 3, rp_backoff = 1000, rp_max_backoff = 3000\<rparr>" 4]
  by (simp add: duration_limit_def retry_factor_def)

section \<open>The log of a run\<close>

text \<open>What a run may publish from attempt \<open>k\<close> on when \<open>n\<close> retries are allowed: a cancellation
  before the attempt; or its start, followed by its completion, a cancellation or a last failure;
  or its start and a failure to be retried, followed by a cancellation or, while retries are
  left, the next attempt.\<close>

inductive run_log :: "nat \<Rightarrow> u32 \<Rightarrow> sched_event list \<Rightarrow> bool" for n where
  log_cancelled: "run_log n k [JobCancelled je k]"
| log_completed: "run_log n k [JobStarted je k t, JobCompleted je k d]"
| log_stopped: "run_log n k [JobStarted je k t, JobCancelled je k]"
| log_failed: "run_log n k [JobStarted je k t, JobFailed je k d e False]"
| log_abandoned: "unat k < n \<Longrightarrow> run_log n k [JobStarted je k t, JobFailed je k d e True, JobCancelled je k]"
| log_retried: "unat k < n \<Longrightarrow> unat (k + 1) = unat k + 1 \<Longrightarrow> run_log n (k + 1) evs \<Longrightarrow>
    run_log n k (JobStarted je k t # JobFailed je k d e True # evs)"

fun event_of :: "sched_event \<Rightarrow> job_event" where
  "event_of (JobStarted je _ _) = je"
| "event_of (JobCompleted je _ _) = je"
| "event_of (JobFailed je _ _ _ _) = je"
| "event_of (JobCancelled je _) = je"
| "event_of (JobSkipped je _ _) = je"

definition is_started :: "sched_event \<Rightarrow> bool" where
  "is_started e \<longleftrightarrow> (case e of JobStarted _ _ _ \<Rightarrow> True | _ \<Rightarrow> False)"

lemma run_log_starts: "run_log n k evs \<Longrightarrow> unat k \<le> n \<Longrightarrow> length (filter is_started evs) \<le> n + 1 - unat k"
  by (induction rule: run_log.induct) (auto simp: is_started_def)

lemma run_log_last:
  "run_log n k evs \<Longrightarrow> evs \<noteq> [] \<and> \<not> is_started (last evs) \<and>
     (case last evs of JobFailed _ _ _ _ again \<Rightarrow> \<not> again | _ \<Rightarrow> True)"
  by (induction rule: run_log.induct) (auto simp: is_started_def)

lemma execute_from_log:
  assumes "\<And>k cx. attempt_once env k (fi_spec f) cx \<noteq> None"
  shows "snd (execute_from env f correlation k) \<and>
    run_log (unat (rp_attempts (sp_retry (fi_spec f)))) k (fst (execute_from env f correlation k)) \<and>
    (\<forall>e \<in> set (fst (execute_from env f correlation k)). je_job (event_of e) = sp_id (fi_spec f) \<and>
      je_run (event_of e) = fi_run f \<and> je_owner (event_of e) = p_id (fi_owner f) \<and>
      je_correlation (event_of e) = correlation)"
  using assms
proof (induction env f correlation k rule: execute_from.induct)
  case (1 env f correlation k)
  let ?je = "make_job_event (sp_id (fi_spec f)) (sp_handler (fi_spec f)) (fi_owner f) (fi_run f)
      correlation (re_now env k)"
  have je: "je_job ?je = sp_id (fi_spec f)" "je_run ?je = fi_run f" "je_owner ?je = p_id (fi_owner f)"
    "je_correlation ?je = correlation" by (simp_all add: make_job_event_def)
  show ?case
  proof (cases "re_cancelled_before env k")
    case True
    then show ?thesis using je by (subst (1 2 3) execute_from.simps) (simp add: log_cancelled Let_def)
  next
    case before: False
    obtain r where r: "attempt_once env k (fi_spec f) (firing_context f correlation (re_now env k)) = Some r"
      using "1.prems" by blast
    show ?thesis
    proof (cases r)
      case (Inr u)
      then show ?thesis using je before r
        by (subst (1 2 3) execute_from.simps) (simp add: log_completed Let_def)
    next
      case (Inl e)
      show ?thesis
      proof (cases "re_cancelled_after env k")
        case True
        then show ?thesis using je before r Inl
          by (subst (1 2 3) execute_from.simps) (simp add: log_stopped Let_def)
      next
        case after: False
        show ?thesis
        proof (cases "delay_before (sp_retry (fi_spec f)) (k + 1)")
          case None
          then show ?thesis using je before r Inl after
            by (subst (1 2 3) execute_from.simps) (simp add: log_failed Let_def)
        next
          case (Some d)
          note room = delay_before_next [OF Some]
          show ?thesis
          proof (cases "re_cancelled_waiting env k")
            case True
            then show ?thesis using je before r Inl after Some room
              by (subst (1 2 3) execute_from.simps) (simp add: log_abandoned Let_def)
          next
            case False
            have IH: "snd (execute_from env f correlation (k + 1)) \<and>
                run_log (unat (rp_attempts (sp_retry (fi_spec f)))) (k + 1)
                  (fst (execute_from env f correlation (k + 1))) \<and>
                (\<forall>e \<in> set (fst (execute_from env f correlation (k + 1))).
                  je_job (event_of e) = sp_id (fi_spec f) \<and> je_run (event_of e) = fi_run f \<and>
                  je_owner (event_of e) = p_id (fi_owner f) \<and> je_correlation (event_of e) = correlation)"
              by (rule "1.IH" [OF refl refl before refl r Inl after Some refl False "1.prems"])
            obtain evs ended where next_run: "execute_from env f correlation (k + 1) = (evs, ended)" by fastforce
            have "execute_from env f correlation k = (JobStarted ?je k (fi_scheduled_for f)
                # JobFailed ?je k (re_elapsed_ms env k) e True # evs, ended)"
              using before r Inl after Some False next_run
              by (subst execute_from.simps) (simp add: Let_def)
            then show ?thesis using IH next_run je room by (auto intro!: log_retried)
          qed
        qed
      qed
    qed
  qed
qed


definition flaky_env :: run_env where
  "flaky_env =
     \<lparr>re_cancelled_before = (\<lambda>k. False),
      re_handler = (\<lambda>k spec cx. Some (if k = 0 then Inl Cancelled else Inr ())),
      re_cancelled_after = (\<lambda>k. False), re_cancelled_waiting = (\<lambda>k. False),
      re_now = (\<lambda>k. 1000), re_elapsed_ms = (\<lambda>k. 7)\<rparr>"

definition flaky_firing :: firing where
  "flaky_firing =
     \<lparr>fi_spec = (job_spec_new ''tick'' (Every 1000000000) ''clock'')
        \<lparr>sp_retry := \<lparr>rp_attempts = 2, rp_backoff = 1000, rp_max_backoff = 3000\<rparr>\<rparr>,
      fi_owner = principal_new ''ada'' User, fi_run = ''r1'', fi_scheduled_for = 1000\<rparr>"


end
