(* ===== verification/Aik_Address.thy ===== *)
theory Aik_Address
  imports Aik_Error
begin

text \<open>
  Which addresses a fetch may reach (src/crates/net/src/address.rs). An IPv4 address is a
  32-bit word and an IPv6 address a 128-bit word; the predicates of \<^verbatim>\<open>std::net\<close> the
  source calls are written out on octets and segments as the standard library documents them.
  The classification, a chain of tests on octets and segments, is shown equal to a lookup in
  a table of address blocks, each a prefix and its length.
\<close>

section \<open>Addresses\<close>

type_synonym ipv4 = "32 word"
type_synonym ipv6 = "128 word"

datatype ip_addr = V4 ipv4 | V6 ipv6

text \<open>\<^verbatim>\<open>Ipv4Addr::octets\<close> and \<^verbatim>\<open>Ipv6Addr::segments\<close>, most significant first.\<close>

definition octet :: "nat \<Rightarrow> ipv4 \<Rightarrow> 8 word" where
  "octet i a = ucast (drop_bit (24 - 8 * i) a)"

definition segment :: "nat \<Rightarrow> ipv6 \<Rightarrow> 16 word" where
  "segment i a = ucast (drop_bit (112 - 16 * i) a)"

definition is_broadcast :: "ipv4 \<Rightarrow> bool" where
  "is_broadcast a \<longleftrightarrow> (\<forall>i \<in> set [0, 1, 2, 3]. octet i a = 255)"

definition is_multicast_v4 :: "ipv4 \<Rightarrow> bool" where
  "is_multicast_v4 a \<longleftrightarrow> 224 \<le> octet 0 a \<and> octet 0 a \<le> 239"

definition is_link_local :: "ipv4 \<Rightarrow> bool" where
  "is_link_local a \<longleftrightarrow> octet 0 a = 169 \<and> octet 1 a = 254"

definition is_documentation :: "ipv4 \<Rightarrow> bool" where
  "is_documentation a \<longleftrightarrow>
     octet 0 a = 192 \<and> octet 1 a = 0 \<and> octet 2 a = 2 \<or>
     octet 0 a = 198 \<and> octet 1 a = 51 \<and> octet 2 a = 100 \<or>
     octet 0 a = 203 \<and> octet 1 a = 0 \<and> octet 2 a = 113"

definition is_loopback_v4 :: "ipv4 \<Rightarrow> bool" where
  "is_loopback_v4 a \<longleftrightarrow> octet 0 a = 127"

definition is_private :: "ipv4 \<Rightarrow> bool" where
  "is_private a \<longleftrightarrow>
     octet 0 a = 10 \<or>
     octet 0 a = 172 \<and> 16 \<le> octet 1 a \<and> octet 1 a \<le> 31 \<or>
     octet 0 a = 192 \<and> octet 1 a = 168"

text \<open>\<^verbatim>\<open>to_ipv4_mapped\<close> takes \<^verbatim>\<open>::ffff:a.b.c.d\<close> only; \<^verbatim>\<open>to_ipv4\<close> takes
  \<^verbatim>\<open>::a.b.c.d\<close> too.\<close>

definition low_v4 :: "ipv6 \<Rightarrow> ipv4" where
  "low_v4 a = ucast a"

definition to_ipv4_mapped :: "ipv6 \<Rightarrow> ipv4 option" where
  "to_ipv4_mapped a =
     (if (\<forall>i \<in> set [0, 1, 2, 3, 4]. segment i a = 0) \<and> segment 5 a = 0xffff
      then Some (low_v4 a) else None)"

definition to_ipv4 :: "ipv6 \<Rightarrow> ipv4 option" where
  "to_ipv4 a =
     (if (\<forall>i \<in> set [0, 1, 2, 3, 4]. segment i a = 0) \<and> (segment 5 a = 0 \<or> segment 5 a = 0xffff)
      then Some (low_v4 a) else None)"

definition is_multicast_v6 :: "ipv6 \<Rightarrow> bool" where
  "is_multicast_v6 a \<longleftrightarrow> and (segment 0 a) 0xff00 = 0xff00"

section \<open>Classification\<close>

datatype address_class = GlobalClass | LocalClass string | RefusedClass string

fun is_reachable :: "address_class \<Rightarrow> bool \<Rightarrow> bool" where
  "is_reachable GlobalClass allow_local = True"
| "is_reachable (LocalClass _) allow_local = allow_local"
| "is_reachable (RefusedClass _) allow_local = False"

fun class_range :: "address_class \<Rightarrow> string" where
  "class_range GlobalClass = ''a global address''"
| "class_range (LocalClass r) = r"
| "class_range (RefusedClass r) = r"

definition this_network :: string where
  "this_network = ''the '' @ [CHR 0x22] @ ''this network'' @ [CHR 0x22] @ '' range 0.0.0.0/8''"

definition classify_v4 :: "ipv4 \<Rightarrow> address_class" where
  "classify_v4 a =
     (if a = 0 \<or> octet 0 a = 0 then RefusedClass this_network
      else if is_broadcast a then RefusedClass ''the broadcast address''
      else if is_multicast_v4 a then RefusedClass ''the multicast range 224.0.0.0/4''
      else if is_link_local a then RefusedClass ''the link-local range 169.254.0.0/16''
      else if is_documentation a then RefusedClass ''a documentation range''
      else if octet 0 a = 192 \<and> octet 1 a = 0 \<and> octet 2 a = 0
      then RefusedClass ''the IETF protocol assignment range 192.0.0.0/24''
      else if octet 0 a = 198 \<and> (octet 1 a = 18 \<or> octet 1 a = 19)
      then RefusedClass ''the benchmarking range 198.18.0.0/15''
      else if 240 \<le> octet 0 a then RefusedClass ''the reserved range 240.0.0.0/4''
      else if is_loopback_v4 a then LocalClass ''the loopback range 127.0.0.0/8''
      else if is_private a then LocalClass ''a private range (RFC 1918)''
      else if octet 0 a = 100 \<and> 64 \<le> octet 1 a \<and> octet 1 a < 128
      then LocalClass ''the carrier-grade NAT range 100.64.0.0/10''
      else GlobalClass)"

definition classify_v6 :: "ipv6 \<Rightarrow> address_class" where
  "classify_v6 a =
     (case to_ipv4_mapped a of
        Some v4 \<Rightarrow> classify_v4 v4
      | None \<Rightarrow>
          if to_ipv4 a \<noteq> None \<and> a \<noteq> 0 \<and> a \<noteq> 1
          then RefusedClass ''a deprecated IPv4-compatible address''
          else if a = 0 then RefusedClass ''the unspecified address ::''
          else if is_multicast_v6 a then RefusedClass ''the multicast range ff00::/8''
          else if and (segment 0 a) 0xffc0 = 0xfe80 then RefusedClass ''the link-local range fe80::/10''
          else if segment 0 a = 0x2002 then RefusedClass ''the 6to4 range 2002::/16''
          else if segment 0 a = 0x2001 \<and> segment 1 a = 0
          then RefusedClass ''the Teredo range 2001::/32''
          else if segment 0 a = 0x2001 \<and> segment 1 a = 0x0db8
          then RefusedClass ''the documentation range 2001:db8::/32''
          else if segment 0 a = 0x0100 \<and> segment 1 a = 0 \<and> segment 2 a = 0 \<and> segment 3 a = 0
          then RefusedClass ''the discard-only range 100::/64''
          else if a = 1 then LocalClass ''the loopback address ::1''
          else if and (segment 0 a) 0xfe00 = 0xfc00 then LocalClass ''the unique-local range fc00::/7''
          else GlobalClass)"

fun classify_address :: "ip_addr \<Rightarrow> address_class" where
  "classify_address (V4 v4) = classify_v4 v4"
| "classify_address (V6 v6) = classify_v6 v6"

section \<open>Address blocks\<close>

text \<open>The block of \<open>'a\<close>-bit addresses that agree with \<open>p\<close> on the leading \<open>n\<close> bits.\<close>

definition in_block :: "'a::len word \<Rightarrow> nat \<Rightarrow> 'a word \<Rightarrow> bool" where
  "in_block p n a \<longleftrightarrow> drop_bit (LENGTH('a) - n) a = drop_bit (LENGTH('a) - n) p"

definition block_class :: "('a::len word \<times> nat \<times> address_class) list \<Rightarrow> 'a word \<Rightarrow> address_class" where
  "block_class table a =
     (case find (\<lambda>(p, n, _). in_block p n a) table of Some (_, _, c) \<Rightarrow> c | None \<Rightarrow> GlobalClass)"

definition v4 :: "ipv4 \<Rightarrow> ipv4 \<Rightarrow> ipv4 \<Rightarrow> ipv4 \<Rightarrow> ipv4" where
  "v4 a b c d = ((a * 256 + b) * 256 + c) * 256 + d"

definition v4_blocks :: "(ipv4 \<times> nat \<times> address_class) list" where
  "v4_blocks =
     [(v4 0 0 0 0, 8, RefusedClass this_network),
      (v4 255 255 255 255, 32, RefusedClass ''the broadcast address''),
      (v4 224 0 0 0, 4, RefusedClass ''the multicast range 224.0.0.0/4''),
      (v4 169 254 0 0, 16, RefusedClass ''the link-local range 169.254.0.0/16''),
      (v4 192 0 2 0, 24, RefusedClass ''a documentation range''),
      (v4 198 51 100 0, 24, RefusedClass ''a documentation range''),
      (v4 203 0 113 0, 24, RefusedClass ''a documentation range''),
      (v4 192 0 0 0, 24, RefusedClass ''the IETF protocol assignment range 192.0.0.0/24''),
      (v4 198 18 0 0, 15, RefusedClass ''the benchmarking range 198.18.0.0/15''),
      (v4 240 0 0 0, 4, RefusedClass ''the reserved range 240.0.0.0/4''),
      (v4 127 0 0 0, 8, LocalClass ''the loopback range 127.0.0.0/8''),
      (v4 10 0 0 0, 8, LocalClass ''a private range (RFC 1918)''),
      (v4 172 16 0 0, 12, LocalClass ''a private range (RFC 1918)''),
      (v4 192 168 0 0, 16, LocalClass ''a private range (RFC 1918)''),
      (v4 100 64 0 0, 10, LocalClass ''the carrier-grade NAT range 100.64.0.0/10'')]"

definition v6_blocks :: "(ipv6 \<times> nat \<times> address_class) list" where
  "v6_blocks =
     [(0, 128, RefusedClass ''the unspecified address ::''),
      (1, 128, LocalClass ''the loopback address ::1''),
      (0, 96, RefusedClass ''a deprecated IPv4-compatible address''),
      (push_bit 112 0xff00, 8, RefusedClass ''the multicast range ff00::/8''),
      (push_bit 112 0xfe80, 10, RefusedClass ''the link-local range fe80::/10''),
      (push_bit 112 0x2002, 16, RefusedClass ''the 6to4 range 2002::/16''),
      (push_bit 96 0x20010000, 32, RefusedClass ''the Teredo range 2001::/32''),
      (push_bit 96 0x20010db8, 32, RefusedClass ''the documentation range 2001:db8::/32''),
      (push_bit 112 0x0100, 64, RefusedClass ''the discard-only range 100::/64''),
      (push_bit 112 0xfc00, 7, LocalClass ''the unique-local range fc00::/7'')]"

definition mapped_prefix :: ipv6 where
  "mapped_prefix = push_bit 32 0xffff"

section \<open>The tests read as address blocks\<close>

text \<open>Both sides become arithmetic on the digits of the address: \<open>in_block\<close> compares leading
  digits, an octet is one digit to the base 256.\<close>

lemma unat_drop_bit: "unat (drop_bit k a) = unat a div 2 ^ k" for a :: "'a::len word"
  using unat_less_pow [of a]
  by (simp add: unsigned_drop_bit_eq take_bit_nat_eq_self drop_bit_eq_div [where ?'a = nat])

lemma in_block_div:
  "in_block p n a \<longleftrightarrow> unat a div 2 ^ (LENGTH('a) - n) = unat p div 2 ^ (LENGTH('a) - n)"
  for p a :: "'a::len word"
  by (simp only: in_block_def word_unat_eq_iff unat_drop_bit)

lemma unat_octet: "unat (octet i a) = unat a div 2 ^ (24 - 8 * i) mod 256"
  by (simp add: octet_def unsigned_ucast_eq unat_drop_bit take_bit_eq_mod [where ?'a = nat])

lemma unat_segment: "unat (segment i a) = unat a div 2 ^ (112 - 16 * i) mod 65536"
  by (simp add: segment_def unsigned_ucast_eq unat_drop_bit take_bit_eq_mod [where ?'a = nat])

text \<open>An address as the number its octets are the digits of.\<close>

lemma v4_digits:
  obtains A B C D :: nat where "A < 256" "B < 256" "C < 256" "D < 256"
    "unat a = ((A * 256 + B) * 256 + C) * 256 + D"
    "unat (octet 0 a) = A" "unat (octet 1 a) = B" "unat (octet 2 a) = C" "unat (octet 3 a) = D"
proof -
  let ?n = "unat a"
  have "?n < 2 ^ 32" using unat_less_pow [of a] by simp
  then have top: "?n div 2 ^ 24 < 256" by (simp add: div_less_iff_less_mult)
  show ?thesis
  proof (rule that [of "?n div 2 ^ 24" "?n div 2 ^ 16 mod 256" "?n div 2 ^ 8 mod 256" "?n mod 256"])
    have "?n = ?n div 2 ^ 8 * 256 + ?n mod 256" by simp
    moreover have "?n div 2 ^ 8 = ?n div 2 ^ 16 * 256 + ?n div 2 ^ 8 mod 256"
      using div_mult2_eq [of ?n "2 ^ 8" 256] by simp
    moreover have "?n div 2 ^ 16 = ?n div 2 ^ 24 * 256 + ?n div 2 ^ 16 mod 256"
      using div_mult2_eq [of ?n "2 ^ 16" 256] by simp
    ultimately show "?n = ((?n div 2 ^ 24 * 256 + ?n div 2 ^ 16 mod 256) * 256 + ?n div 2 ^ 8 mod 256) * 256 + ?n mod 256"
      by argo
  qed (use top in \<open>simp_all add: unat_octet\<close>)
qed

lemma v4_blocks_digits:
  fixes A B C D :: nat
  assumes "B < 256" "C < 256" "D < 256" "n = ((A * 256 + B) * 256 + C) * 256 + D"
  shows "n div 2 ^ 28 = A div 16" "n div 2 ^ 24 = A" "n div 2 ^ 22 = A * 4 + B div 64"
    "n div 2 ^ 20 = A * 16 + B div 16" "n div 2 ^ 17 = A * 128 + B div 2" "n div 2 ^ 16 = A * 256 + B"
    "n div 2 ^ 8 = (A * 256 + B) * 256 + C"
proof -
  show c: "n div 2 ^ 8 = (A * 256 + B) * 256 + C" using assms by simp
  have "n div 2 ^ 16 = n div 2 ^ 8 div 256" by (simp add: div_mult2_eq [symmetric])
  with c assms show b: "n div 2 ^ 16 = A * 256 + B" by simp
  have "n div 2 ^ 24 = n div 2 ^ 16 div 256" by (simp add: div_mult2_eq [symmetric])
  with b assms show "n div 2 ^ 24 = A" by simp
  have "n div 2 ^ 28 = n div 2 ^ 16 div 4096" by (simp add: div_mult2_eq [symmetric])
  also have "\<dots> = n div 2 ^ 16 div 256 div 16" by (simp add: div_mult2_eq [symmetric])
  finally show "n div 2 ^ 28 = A div 16" using b assms by simp
  have "n div 2 ^ 22 = n div 2 ^ 16 div 64" by (simp add: div_mult2_eq [symmetric])
  with b assms show "n div 2 ^ 22 = A * 4 + B div 64" by simp
  have "n div 2 ^ 20 = n div 2 ^ 16 div 16" by (simp add: div_mult2_eq [symmetric])
  with b assms show "n div 2 ^ 20 = A * 16 + B div 16" by simp
  have "n div 2 ^ 17 = n div 2 ^ 16 div 2" by (simp add: div_mult2_eq [symmetric])
  with b assms show "n div 2 ^ 17 = A * 128 + B div 2" by simp
qed

lemma two_digits: "B < k \<Longrightarrow> A * k + B = N \<longleftrightarrow> A = N div k \<and> B = N mod k" for A B k N :: nat
  by auto

lemma div_range: "n div numeral k = q \<longleftrightarrow> q * numeral k \<le> n \<and> n < Suc q * numeral k" for n q :: nat
  by (metis div_nat_eqI dividend_less_times_div div_times_less_eq_dividend mult.commute mult_Suc_right
      zero_less_numeral)

lemma three_digits:
  fixes A B C N :: nat
  assumes "B < 256" "C < 256"
  shows "65536 * A + B * 256 + C = N \<longleftrightarrow> A = N div 65536 \<and> B = N div 256 mod 256 \<and> C = N mod 256"
proof -
  have "65536 * A + B * 256 + C = (A * 256 + B) * 256 + C" by simp
  also have "\<dots> = N \<longleftrightarrow> A * 256 + B = N div 256 \<and> C = N mod 256" using assms by (rule_tac two_digits)
  also have "\<dots> \<longleftrightarrow> A = N div 256 div 256 \<and> B = N div 256 mod 256 \<and> C = N mod 256"
    using two_digits [OF assms(1), of A "N div 256"] by simp
  finally show ?thesis by (simp add: div_mult2_eq [symmetric])
qed

lemmas octet_nat = word_unat_eq_iff [of "octet i a" for i a] word_le_nat_alt word_less_nat_alt

lemma v4_tests:
  "in_block (v4 0 0 0 0) 8 a \<longleftrightarrow> octet 0 a = 0"
  "in_block (v4 255 255 255 255) 32 a \<longleftrightarrow> is_broadcast a"
  "in_block (v4 224 0 0 0) 4 a \<longleftrightarrow> is_multicast_v4 a"
  "in_block (v4 169 254 0 0) 16 a \<longleftrightarrow> is_link_local a"
  "in_block (v4 192 0 2 0) 24 a \<or> in_block (v4 198 51 100 0) 24 a \<or> in_block (v4 203 0 113 0) 24 a
     \<longleftrightarrow> is_documentation a"
  "in_block (v4 192 0 0 0) 24 a \<longleftrightarrow> octet 0 a = 192 \<and> octet 1 a = 0 \<and> octet 2 a = 0"
  "in_block (v4 198 18 0 0) 15 a \<longleftrightarrow> octet 0 a = 198 \<and> (octet 1 a = 18 \<or> octet 1 a = 19)"
  "in_block (v4 240 0 0 0) 4 a \<longleftrightarrow> 240 \<le> octet 0 a"
  "in_block (v4 127 0 0 0) 8 a \<longleftrightarrow> is_loopback_v4 a"
  "in_block (v4 10 0 0 0) 8 a \<or> in_block (v4 172 16 0 0) 12 a \<or> in_block (v4 192 168 0 0) 16 a
     \<longleftrightarrow> is_private a"
  "in_block (v4 100 64 0 0) 10 a \<longleftrightarrow> octet 0 a = 100 \<and> 64 \<le> octet 1 a \<and> octet 1 a < 128"
proof -
  obtain A B C D where lt: "A < 256" "B < 256" "C < 256" "D < 256"
    and n: "unat a = ((A * 256 + B) * 256 + C) * 256 + D"
    and os: "unat (octet 0 a) = A" "unat (octet 1 a) = B" "unat (octet 2 a) = C" "unat (octet 3 a) = D"
    by (rule v4_digits)
  note digits = v4_blocks_digits [OF lt(2-4) n, simplified] os [unfolded One_nat_def]
  note facts = in_block_div v4_def octet_nat digits os
  have parts: "B div 2 < 128" "B div 16 < 16" "B div 64 < 4" using lt(2) by linarith+
  show "in_block (v4 0 0 0 0) 8 a \<longleftrightarrow> octet 0 a = 0" by (simp add: facts)
  show "in_block (v4 255 255 255 255) 32 a \<longleftrightarrow> is_broadcast a"
  proof -
    have "((A * 256 + B) * 256 + C) * 256 + D = 4294967295 \<longleftrightarrow> A = 255 \<and> B = 255 \<and> C = 255 \<and> D = 255"
      using lt by (intro iffI conjI; simp add: distrib_right; linarith)
    then show ?thesis by (simp add: facts is_broadcast_def n)
  qed
  show "in_block (v4 224 0 0 0) 4 a \<longleftrightarrow> is_multicast_v4 a"
    by (simp add: facts is_multicast_v4_def) presburger
  show "in_block (v4 169 254 0 0) 16 a \<longleftrightarrow> is_link_local a"
    using lt by (simp add: facts is_link_local_def) presburger
  show "in_block (v4 192 0 2 0) 24 a \<or> in_block (v4 198 51 100 0) 24 a \<or> in_block (v4 203 0 113 0) 24 a
     \<longleftrightarrow> is_documentation a"
    using lt by (simp add: facts is_documentation_def three_digits)
  show "in_block (v4 192 0 0 0) 24 a \<longleftrightarrow> octet 0 a = 192 \<and> octet 1 a = 0 \<and> octet 2 a = 0"
    using lt by (simp add: facts three_digits)
  show "in_block (v4 198 18 0 0) 15 a \<longleftrightarrow> octet 0 a = 198 \<and> (octet 1 a = 18 \<or> octet 1 a = 19)"
    using parts by (auto simp add: facts two_digits div_range)
  show "in_block (v4 240 0 0 0) 4 a \<longleftrightarrow> 240 \<le> octet 0 a"
    using lt by (simp add: facts) presburger
  show "in_block (v4 127 0 0 0) 8 a \<longleftrightarrow> is_loopback_v4 a" by (simp add: facts is_loopback_v4_def)
  show "in_block (v4 10 0 0 0) 8 a \<or> in_block (v4 172 16 0 0) 12 a \<or> in_block (v4 192 168 0 0) 16 a
     \<longleftrightarrow> is_private a"
    using parts lt by (simp add: facts is_private_def two_digits div_range) linarith
  show "in_block (v4 100 64 0 0) 10 a \<longleftrightarrow> octet 0 a = 100 \<and> 64 \<le> octet 1 a \<and> octet 1 a < 128"
    using parts by (auto simp add: facts two_digits div_range)
qed

lemma octet_zero: "a = 0 \<or> octet 0 a = 0 \<longleftrightarrow> octet 0 a = 0"
  by (auto simp: octet_def)

lemma block_class_simps:
  "block_class [] a = GlobalClass"
  "block_class ((p, n, c) # t) a = (if in_block p n a then c else block_class t a)"
  by (simp_all add: block_class_def)

lemma merge_tests: "(if P then c else if Q then c else d) = (if P \<or> Q then c else d)"
  by simp

lemma classify_v4_blocks: "classify_v4 a = block_class v4_blocks a"
  by (simp only: classify_v4_def v4_blocks_def block_class_simps octet_zero merge_tests v4_tests)

text \<open>Segments read the same way, to the base 65536; the masks of the source keep the leading
  bits of the first one.\<close>

lemma bits16:
  "x = y \<longleftrightarrow> (\<forall>n \<in> set [0, 1, 2, 3, 4, 5, 6, 7, 8, 9, 10, 11, 12, 13, 14, 15]. bit x n = bit y n)"
  for x y :: "16 word"
proof -
  have all: "set [0, 1, 2, 3, 4, 5, 6, 7, 8, 9, 10, 11, 12, 13, 14, 15] = {..<16::nat}"
    by (auto simp: numeral_eq_Suc less_Suc_eq)
  have "x = y \<longleftrightarrow> (\<forall>n \<in> {..<16}. bit x n = bit y n)" by (auto intro: bit_word_eqI)
  then show ?thesis unfolding all .
qed

lemma bit16_beyond: "16 \<le> n \<Longrightarrow> \<not> bit x n" for x :: "16 word"
  using bit_imp_le_length [of x n] by auto

lemma masked:
  "and x 0xff00 = 0xff00 \<longleftrightarrow> unat x div 256 = 0xff" "and x 0xffc0 = 0xfe80 \<longleftrightarrow> unat x div 64 = 0x3fa"
  "and x 0xfe00 = 0xfc00 \<longleftrightarrow> unat x div 512 = 0x7e" for x :: "16 word"
proof -
  have "and x 0xff00 = 0xff00 \<longleftrightarrow> drop_bit 8 x = 0xff" "and x 0xffc0 = 0xfe80 \<longleftrightarrow> drop_bit 6 x = 0x3fa"
    "and x 0xfe00 = 0xfc00 \<longleftrightarrow> drop_bit 9 x = 0x7e"
    unfolding bits16 by (simp_all add: bit_simps bit_numeral_rec bit16_beyond)
  then show "and x 0xff00 = 0xff00 \<longleftrightarrow> unat x div 256 = 0xff" "and x 0xffc0 = 0xfe80 \<longleftrightarrow> unat x div 64 = 0x3fa"
    "and x 0xfe00 = 0xfc00 \<longleftrightarrow> unat x div 512 = 0x7e"
    by (simp_all add: word_unat_eq_iff [of "drop_bit k x" for k] unat_drop_bit)
qed

definition lead :: "nat \<Rightarrow> ipv6 \<Rightarrow> nat" where
  "lead i a = unat a div 2 ^ (112 - 16 * i)"

lemma lead_0: "lead 0 a = unat (segment 0 a)"
proof -
  have "unat a < 2 ^ 128" using unat_less_pow [of a] by simp
  then have "unat a div 2 ^ 112 < 65536" by (simp add: div_less_iff_less_mult)
  then show ?thesis by (simp add: lead_def unat_segment)
qed

lemma lead_Suc:
  assumes "i < 7"
  shows "lead (Suc i) a = lead i a * 65536 + unat (segment (Suc i) a)"
proof -
  obtain k where k: "112 - 16 * i = k + 16" "112 - 16 * Suc i = k" using assms by (intro that) auto
  have "unat a div 2 ^ (k + 16) = unat a div 2 ^ k div 65536"
    by (simp add: power_add div_mult2_eq)
  then show ?thesis by (simp only: lead_def unat_segment k div_mult_mod_eq)
qed

lemma lead_Suc_eq:
  assumes "i < 7"
  shows "lead (Suc i) a = N \<longleftrightarrow> lead i a = N div 65536 \<and> unat (segment (Suc i) a) = N mod 65536"
  using unat_less_pow [of "segment (Suc i) a"] by (simp add: lead_Suc [OF assms] two_digits)

lemma lead_eq:
  "lead 1 a = N \<longleftrightarrow> lead 0 a = N div 65536 \<and> unat (segment 1 a) = N mod 65536"
  "lead 2 a = N \<longleftrightarrow> lead 1 a = N div 65536 \<and> unat (segment 2 a) = N mod 65536"
  "lead 3 a = N \<longleftrightarrow> lead 2 a = N div 65536 \<and> unat (segment 3 a) = N mod 65536"
  "lead 4 a = N \<longleftrightarrow> lead 3 a = N div 65536 \<and> unat (segment 4 a) = N mod 65536"
  "lead 5 a = N \<longleftrightarrow> lead 4 a = N div 65536 \<and> unat (segment 5 a) = N mod 65536"
  using lead_Suc_eq [of 0 a N] lead_Suc_eq [of 1 a N] lead_Suc_eq [of 2 a N] lead_Suc_eq [of 3 a N]
    lead_Suc_eq [of 4 a N] by (simp_all add: numeral_2_eq_2 [symmetric])

lemma block_lead:
  "i < 8 \<Longrightarrow> in_block p (16 * Suc i) a \<longleftrightarrow> lead i a = lead i p"
  "n < 16 \<Longrightarrow> in_block p n a \<longleftrightarrow> lead 0 a div 2 ^ (16 - n) = lead 0 p div 2 ^ (16 - n)"
proof -
  assume "i < 8"
  then have "128 - 16 * Suc i = 112 - 16 * i" by simp
  then show "in_block p (16 * Suc i) a \<longleftrightarrow> lead i a = lead i p"
    unfolding in_block_div lead_def by simp
next
  assume "n < 16"
  then have "LENGTH(128) - n = 112 + (16 - n)" by simp
  then show "in_block p n a \<longleftrightarrow> lead 0 a div 2 ^ (16 - n) = lead 0 p div 2 ^ (16 - n)"
    by (simp only: in_block_div lead_def mult_0_right diff_zero power_add div_mult2_eq)
qed

lemma lead_push:
  "lead 0 (push_bit 112 0xff00) = 0xff00" "lead 0 (push_bit 112 0xfe80) = 0xfe80"
  "lead 0 (push_bit 112 0xfc00) = 0xfc00" "lead 0 (push_bit 112 0x2002) = 0x2002"
  "lead 1 (push_bit 96 0x20010000) = 0x20010000" "lead 1 (push_bit 96 0x20010db8) = 0x20010db8"
  "lead 3 (push_bit 112 0x0100) = 0x0100000000000000" "lead 5 0 = 0" "lead 5 (push_bit 32 0xffff) = 0xffff"
  by (simp_all add: lead_def)

lemmas segment_nat = word_unat_eq_iff [of "segment i a" for i a]

lemma v6_tests:
  "in_block 0 128 a \<longleftrightarrow> a = 0" "in_block 1 128 a \<longleftrightarrow> a = 1"
  "in_block (push_bit 112 0xff00) 8 a \<longleftrightarrow> is_multicast_v6 a"
  "in_block (push_bit 112 0xfe80) 10 a \<longleftrightarrow> and (segment 0 a) 0xffc0 = 0xfe80"
  "in_block (push_bit 112 0x2002) 16 a \<longleftrightarrow> segment 0 a = 0x2002"
  "in_block (push_bit 96 0x20010000) 32 a \<longleftrightarrow> segment 0 a = 0x2001 \<and> segment 1 a = 0"
  "in_block (push_bit 96 0x20010db8) 32 a \<longleftrightarrow> segment 0 a = 0x2001 \<and> segment 1 a = 0x0db8"
  "in_block (push_bit 112 0x0100) 64 a \<longleftrightarrow>
     segment 0 a = 0x0100 \<and> segment 1 a = 0 \<and> segment 2 a = 0 \<and> segment 3 a = 0"
  "in_block (push_bit 112 0xfc00) 7 a \<longleftrightarrow> and (segment 0 a) 0xfe00 = 0xfc00"
  "in_block 0 96 a \<longleftrightarrow> to_ipv4 a \<noteq> None \<and> to_ipv4_mapped a = None"
  "in_block mapped_prefix 96 a \<longleftrightarrow> to_ipv4_mapped a \<noteq> None"
  for a :: ipv6
proof -
  note wide = block_lead(1) [of 0, simplified] block_lead(1) [of 1, simplified]
    block_lead(1) [of 3, simplified] block_lead(1) [of 5, simplified]
  note facts = lead_push [simplified] lead_eq [unfolded One_nat_def] lead_0 [of a] segment_nat
  show "in_block 0 128 a \<longleftrightarrow> a = 0" "in_block 1 128 a \<longleftrightarrow> a = 1" by (simp_all add: in_block_def)
  show "in_block (push_bit 112 0xff00) 8 a \<longleftrightarrow> is_multicast_v6 a"
    by (simp add: block_lead(2) facts is_multicast_v6_def masked)
  show "in_block (push_bit 112 0xfe80) 10 a \<longleftrightarrow> and (segment 0 a) 0xffc0 = 0xfe80"
    by (simp add: block_lead(2) facts masked)
  show "in_block (push_bit 112 0xfc00) 7 a \<longleftrightarrow> and (segment 0 a) 0xfe00 = 0xfc00"
    by (simp add: block_lead(2) facts masked)
  show "in_block (push_bit 112 0x2002) 16 a \<longleftrightarrow> segment 0 a = 0x2002"
    by (simp add: wide facts)
  show "in_block (push_bit 96 0x20010000) 32 a \<longleftrightarrow> segment 0 a = 0x2001 \<and> segment 1 a = 0"
    by (simp add: wide facts)
  show "in_block (push_bit 96 0x20010db8) 32 a \<longleftrightarrow> segment 0 a = 0x2001 \<and> segment 1 a = 0x0db8"
    by (simp add: wide facts)
  show "in_block (push_bit 112 0x0100) 64 a \<longleftrightarrow>
     segment 0 a = 0x0100 \<and> segment 1 a = 0 \<and> segment 2 a = 0 \<and> segment 3 a = 0"
    by (auto simp add: wide facts)
  show "in_block 0 96 a \<longleftrightarrow> to_ipv4 a \<noteq> None \<and> to_ipv4_mapped a = None"
    by (auto simp add: wide facts to_ipv4_def to_ipv4_mapped_def)
  show "in_block mapped_prefix 96 a \<longleftrightarrow> to_ipv4_mapped a \<noteq> None"
    by (auto simp add: wide facts to_ipv4_mapped_def mapped_prefix_def)
qed

lemma to_ipv4_mapped_low: "to_ipv4_mapped a = Some v \<Longrightarrow> v = low_v4 a"
  by (simp add: to_ipv4_mapped_def split: if_splits)

lemma segment_one: "i < 7 \<Longrightarrow> segment i 1 = 0"
  using one_less_power [of "2 :: nat" "112 - 16 * i"] by (simp add: word_unat_eq_iff unat_segment)

lemma segment_zero: "segment i 0 = 0"
  by (simp add: segment_def)

lemma classify_v6_edges:
  "classify_v6 0 = RefusedClass ''the unspecified address ::''"
  "classify_v6 1 = LocalClass ''the loopback address ::1''"
  by (simp_all add: classify_v6_def to_ipv4_mapped_def is_multicast_v6_def segment_zero segment_one)

lemma classify_v6_unmapped:
  assumes "to_ipv4_mapped a = None"
  shows "classify_v6 a = block_class v6_blocks a"
proof (cases "a = 0 \<or> a = 1")
  case True
  then show ?thesis
    by (elim disjE; simp only: classify_v6_edges v6_blocks_def block_class_simps v6_tests(1,2)) simp_all
next
  case False
  then show ?thesis
    unfolding classify_v6_def v6_blocks_def block_class_simps v6_tests(1-9) by (simp add: assms v6_tests(10))
qed

text \<open>The class of an address is that of the first block of the table that holds it, and an
  IPv6 address that wraps an IPv4 one is judged as the address it wraps.\<close>

text \<open>C28. The tests on octets and segments decide exactly as the table of address blocks:
  an IPv4 address is given the class of its block of \<open>v4_blocks\<close>, an address in
  \<^verbatim>\<open>::ffff:0:0/96\<close> the class of the IPv4 address it carries, any other IPv6 address
  the class of its block of \<open>v6_blocks\<close>, and an address outside every block is global.\<close>

theorem classify_blocks:
  "classify_address (V4 x) = block_class v4_blocks x \<and>
   classify_address (V6 y) =
     (if in_block mapped_prefix 96 y then block_class v4_blocks (low_v4 y) else block_class v6_blocks y)"
proof
  show "classify_address (V4 x) = block_class v4_blocks x" by (simp add: classify_v4_blocks)
  show "classify_address (V6 y) =
     (if in_block mapped_prefix 96 y then block_class v4_blocks (low_v4 y) else block_class v6_blocks y)"
    using classify_v6_unmapped [of y] to_ipv4_mapped_low [of y]
    by (cases "to_ipv4_mapped y") (auto simp: v6_tests(11) classify_v6_def classify_v4_blocks)
qed

text \<open>What no setting opens: a block whose class is \<open>RefusedClass\<close> holds no reachable address.
  The instance-metadata address is in one, however it is written.\<close>

lemma refused_unreachable:
  "block_class v4_blocks x = RefusedClass r \<Longrightarrow> \<not> is_reachable (classify_address (V4 x)) allow_local"
  by (simp add: classify_v4_blocks)

lemma link_local_unreachable:
  assumes "in_block (v4 169 254 0 0) 16 x"
  shows "\<not> is_reachable (classify_address (V4 x)) allow_local"
    "low_v4 y = x \<Longrightarrow> in_block mapped_prefix 96 y \<or> in_block 0 96 y \<Longrightarrow>
      \<not> is_reachable (classify_address (V6 y)) allow_local"
proof -
  have x: "\<exists>r. classify_v4 x = RefusedClass r"
    using assms by (auto simp: classify_v4_def v4_tests)
  then show "\<not> is_reachable (classify_address (V4 x)) allow_local" by auto
  assume y: "low_v4 y = x" "in_block mapped_prefix 96 y \<or> in_block 0 96 y"
  have "y \<noteq> 0" "y \<noteq> 1"
    using assms y(1) by (auto simp: v4_tests is_link_local_def octet_def low_v4_def)
  then have "\<exists>r. classify_v6 y = RefusedClass r"
    using x y to_ipv4_mapped_low [of y]
    by (cases "to_ipv4_mapped y") (auto simp: classify_v6_def v6_tests(10,11))
  then show "\<not> is_reachable (classify_address (V6 y)) allow_local" by auto
qed

end
