(* ===== verification/Aik_Extract.thy ===== *)
theory Aik_Extract
  imports Aik_Prelude
begin

text \<open>
  Reading the text out of a fetched document (src/crates/net/src/extract.rs): tags are dropped,
  the contents of a few elements with them, character references are replaced and white space
  is collapsed, into a sink that stops at a limit. A \<^verbatim>\<open>str\<close> is here the list of its
  Unicode scalar values, since the source walks characters; lengths and limits count the bytes
  of their UTF-8 form.
\<close>

section \<open>Text as scalar values\<close>

type_synonym scalars = "int list"

definition len_utf8 :: "int \<Rightarrow> nat" where
  "len_utf8 c = (if c < 0x80 then 1 else if c < 0x800 then 2 else if c < 0x10000 then 3 else 4)"

definition byte_len :: "scalars \<Rightarrow> nat" where
  "byte_len s = sum_list (map len_utf8 s)"

text \<open>The UTF-8 form, and an ASCII literal of the source as scalar values.\<close>

definition encode_utf8 :: "int \<Rightarrow> int list" where
  "encode_utf8 c =
     (if c < 0x80 then [c]
      else if c < 0x800 then [0xC0 + c div 64, 0x80 + c mod 64]
      else if c < 0x10000 then [0xE0 + c div 4096, 0x80 + c div 64 mod 64, 0x80 + c mod 64]
      else [0xF0 + c div 262144, 0x80 + c div 4096 mod 64, 0x80 + c div 64 mod 64, 0x80 + c mod 64])"

definition utf8 :: "scalars \<Rightarrow> string" where
  "utf8 s = map char_of (concat (map encode_utf8 s))"

definition lit :: "string \<Rightarrow> scalars" where
  "lit s = map of_char s"

definition is_whitespace :: "int \<Rightarrow> bool" where
  "is_whitespace c \<longleftrightarrow>
     9 \<le> c \<and> c \<le> 13 \<or> c = 32 \<or> c = 0x85 \<or> c = 0xA0 \<or> c = 0x1680 \<or> 0x2000 \<le> c \<and> c \<le> 0x200A \<or>
     c = 0x2028 \<or> c = 0x2029 \<or> c = 0x202F \<or> c = 0x205F \<or> c = 0x3000"

definition trim_scalars :: "scalars \<Rightarrow> scalars" where
  "trim_scalars s = rev (dropWhile is_whitespace (rev (dropWhile is_whitespace s)))"

definition is_ascii_alphanumeric :: "int \<Rightarrow> bool" where
  "is_ascii_alphanumeric c \<longleftrightarrow> 48 \<le> c \<and> c \<le> 57 \<or> 65 \<le> c \<and> c \<le> 90 \<or> 97 \<le> c \<and> c \<le> 122"

definition lower_scalar :: "int \<Rightarrow> int" where
  "lower_scalar c = (if 65 \<le> c \<and> c \<le> 90 then c + 32 else c)"

definition has_prefix :: "scalars \<Rightarrow> scalars \<Rightarrow> bool" where
  "has_prefix p s \<longleftrightarrow> take (length p) s = p"

text \<open>\<^verbatim>\<open>str::find(&str)\<close>, giving what follows the match.\<close>

fun after_first :: "scalars \<Rightarrow> scalars \<Rightarrow> nat option" where
  "after_first p [] = (if p = [] then Some 0 else None)"
| "after_first p (c # cs) =
     (if has_prefix p (c # cs) then Some 0 else map_option Suc (after_first p cs))"

section \<open>Character references\<close>

definition named_reference :: "scalars \<Rightarrow> scalars option" where
  "named_reference body =
     map_of
       [(lit ''amp'', lit ''&''), (lit ''lt'', lit ''<''), (lit ''gt'', lit ''>''),
        (lit ''quot'', [34]), (lit ''apos'', [39]), (lit ''#39'', [39]), (lit ''nbsp'', [32]),
        (lit ''hellip'', lit ''...''), (lit ''mdash'', lit ''-''), (lit ''ndash'', lit ''-''),
        (lit ''rsquo'', [39]), (lit ''lsquo'', [39]), (lit ''rdquo'', [34]), (lit ''ldquo'', [34])]
       body"

definition hex_digit :: "int \<Rightarrow> int option" where
  "hex_digit c =
     (if 48 \<le> c \<and> c \<le> 57 then Some (c - 48)
      else if 65 \<le> c \<and> c \<le> 70 then Some (c - 55)
      else if 97 \<le> c \<and> c \<le> 102 then Some (c - 87) else None)"

fun radix_value :: "int \<Rightarrow> scalars \<Rightarrow> int \<Rightarrow> int option" where
  "radix_value radix [] acc = Some acc"
| "radix_value radix (c # cs) acc =
     (case hex_digit c of
        Some d \<Rightarrow> if d < radix then radix_value radix cs (acc * radix + d) else None
      | None \<Rightarrow> None)"

text \<open>\<^verbatim>\<open>u32::from_str_radix\<close>, which takes a leading plus sign, and \<^verbatim>\<open>char::from_u32\<close>,
  which refuses surrogates.\<close>

definition from_str_radix :: "int \<Rightarrow> scalars \<Rightarrow> int option" where
  "from_str_radix radix s =
     (let body = (case s of c # cs \<Rightarrow> if c = 43 then cs else s | [] \<Rightarrow> s)
      in if body = [] then None
         else case radix_value radix body 0 of
             Some n \<Rightarrow> if n < 2 ^ 32 then Some n else None
           | None \<Rightarrow> None)"

definition char_from_u32 :: "int \<Rightarrow> int option" where
  "char_from_u32 n = (if n < 0xD800 \<or> 0xE000 \<le> n \<and> n < 0x110000 then Some n else None)"

definition numeric_reference :: "scalars \<Rightarrow> int option" where
  "numeric_reference body =
     (case body of
        [] \<Rightarrow> None
      | h # digits \<Rightarrow>
          if h \<noteq> 35 then None
          else Option.bind
            (case digits of
               x # hex \<Rightarrow>
                 if x = 120 \<or> x = 88 then from_str_radix 16 hex else from_str_radix 10 digits
             | [] \<Rightarrow> from_str_radix 10 digits)
            char_from_u32)"

definition reference :: "scalars \<Rightarrow> scalars" where
  "reference body =
     (case named_reference body of
        Some replacement \<Rightarrow> replacement
      | None \<Rightarrow>
          (case numeric_reference body of
             Some c \<Rightarrow> [c]
           | None \<Rightarrow> [38] @ body @ [59]))"

lemma dropWhile_shorter: "dropWhile P s = c # r \<Longrightarrow> length r < length s"
  using length_dropWhile_le [of P s] by simp

text \<open>The bound \<open>10\<close> is on a byte index.\<close>

function decode :: "scalars \<Rightarrow> scalars" where
  "decode s =
     (case dropWhile (\<lambda>c. c \<noteq> 38) s of
        [] \<Rightarrow> s
      | _ # after \<Rightarrow>
          takeWhile (\<lambda>c. c \<noteq> 38) s @
          (let body = takeWhile (\<lambda>c. c \<noteq> 59) after in
           case dropWhile (\<lambda>c. c \<noteq> 59) after of
             _ # more \<Rightarrow>
               if byte_len body \<le> 10 then reference body @ decode more else 38 # decode after
           | [] \<Rightarrow> 38 # decode after))"
  by pat_completeness auto

termination
  by (relation "measure length") (auto dest!: dropWhile_shorter)

declare decode.simps [simp del]

section \<open>The sink\<close>

record sink =
  sk_out :: scalars
  sk_limit :: nat
  sk_truncated :: bool

definition sink_new :: "nat \<Rightarrow> sink" where
  "sink_new limit = \<lparr>sk_out = [], sk_limit = limit, sk_truncated = False\<rparr>"

definition sink_full :: "sink \<Rightarrow> bool" where
  "sink_full k \<longleftrightarrow> sk_limit k \<le> byte_len (sk_out k)"

definition push_newline :: "sink \<Rightarrow> sink" where
  "push_newline k =
     (if sk_out k = [] \<or> sink_full k then k
      else
        let out = rev (dropWhile (\<lambda>c. c = 32) (rev (sk_out k)))
        in k\<lparr>sk_out := if take 2 (rev out) = [10, 10] then out else out @ [10]\<rparr>)"

definition push_char :: "int \<Rightarrow> sink \<Rightarrow> sink" where
  "push_char c k =
     (if is_whitespace c
      then if sk_out k \<noteq> [] \<and> \<not> is_whitespace (last (sk_out k))
           then k\<lparr>sk_out := sk_out k @ [32]\<rparr> else k
      else k\<lparr>sk_out := sk_out k @ [c]\<rparr>)"

fun push_chars :: "scalars \<Rightarrow> sink \<Rightarrow> sink" where
  "push_chars [] k = k"
| "push_chars (c # cs) k =
     (if sink_full k then k\<lparr>sk_truncated := True\<rparr> else push_chars cs (push_char c k))"

definition push_text :: "scalars \<Rightarrow> sink \<Rightarrow> sink" where
  "push_text raw k = push_chars (decode raw) k"

record extracted =
  ex_text :: scalars
  ex_truncated :: bool

definition finish :: "sink \<Rightarrow> extracted" where
  "finish k =
     \<lparr>ex_text = trim_scalars (sk_out k),
      ex_truncated = (sk_truncated k \<or> sk_limit k \<le> byte_len (sk_out k))\<rparr>"

section \<open>The document\<close>

definition opaque_elements :: "scalars list" where
  "opaque_elements = map lit [''script'', ''style'', ''template'', ''noscript'', ''svg'']"

definition block_elements :: "scalars list" where
  "block_elements =
     map lit [''p'', ''div'', ''br'', ''hr'', ''li'', ''ul'', ''ol'', ''tr'', ''table'', ''section'',
       ''article'', ''header'', ''footer'', ''nav'', ''aside'', ''blockquote'', ''pre'', ''h1'', ''h2'',
       ''h3'', ''h4'', ''h5'']"

definition skip_to :: "scalars \<Rightarrow> scalars \<Rightarrow> scalars" where
  "skip_to input marker =
     (case after_first marker input of
        Some at \<Rightarrow> drop (at + length marker) input
      | None \<Rightarrow> [])"

fun skip_tag :: "int option \<Rightarrow> scalars \<Rightarrow> scalars" where
  "skip_tag quote [] = []"
| "skip_tag quote (c # cs) =
     (case quote of
        Some open_quote \<Rightarrow> if c = open_quote then skip_tag None cs else skip_tag quote cs
      | None \<Rightarrow>
          if c = 34 \<or> c = 39 then skip_tag (Some c) cs
          else if c = 62 then cs
          else skip_tag None cs)"

definition skip_past_tag :: "scalars \<Rightarrow> scalars" where
  "skip_past_tag input = skip_tag None input"

definition skip_element :: "scalars \<Rightarrow> scalars \<Rightarrow> scalars" where
  "skip_element input name =
     (let needle = lit ''</'' @ name in
      case after_first needle (map lower_scalar input) of
        Some at \<Rightarrow> skip_past_tag (drop (at + length needle) input)
      | None \<Rightarrow> [])"

definition tag_name :: "scalars \<Rightarrow> scalars" where
  "tag_name input = map lower_scalar (takeWhile is_ascii_alphanumeric input)"

text \<open>One turn of the loop at a \<^verbatim>\<open><\<close>: what is left to read, and the sink.\<close>

definition at_bracket :: "scalars \<Rightarrow> sink \<Rightarrow> scalars \<times> sink" where
  "at_bracket rest k =
     (if has_prefix (lit ''<!--'') rest then (skip_to (drop 4 rest) (lit ''-->''), k)
      else if has_prefix (lit ''<!'') rest \<or> has_prefix (lit ''<?'') rest
      then (skip_past_tag (drop 1 rest), k)
      else
        let after_bracket = drop 1 rest;
            closing = has_prefix (lit ''/'') after_bracket;
            name_start = (if closing then 1 else 0);
            name = tag_name (drop name_start after_bracket)
        in if name = [] then (after_bracket, push_text (lit ''<'') k)
           else
             let after_tag = skip_past_tag (drop (name_start + length name) after_bracket)
             in if \<not> closing \<and> name \<in> set opaque_elements then (skip_element after_tag name, k)
                else if name \<in> set block_elements \<or> name = lit ''h6'' then (after_tag, push_newline k)
                else (after_tag, k))"

lemma skip_to_length: "length (skip_to s m) \<le> length s"
  by (auto simp: skip_to_def split: option.splits)

lemma skip_tag_length: "length (skip_tag q s) \<le> length s"
  by (induction q s rule: skip_tag.induct) (auto split: option.splits simp: le_SucI)

lemma skip_past_tag_length: "length (skip_past_tag s) \<le> length s"
  by (simp add: skip_past_tag_def skip_tag_length)

lemma skip_element_length: "length (skip_element s n) \<le> length s"
proof -
  have "length (skip_past_tag (drop k s)) \<le> length s" for k
    using skip_past_tag_length [of "drop k s"] by simp
  then show ?thesis by (simp add: skip_element_def Let_def split: option.splits)
qed

lemma at_bracket_shorter:
  assumes "rest \<noteq> []"
  shows "length (fst (at_bracket rest k)) < length rest"
proof -
  have drop1: "length (drop 1 rest) < length rest" using assms by simp
  have tag: "length (skip_past_tag (drop n (drop 1 rest))) < length rest" for n
    using skip_past_tag_length [of "drop n (drop 1 rest)"] drop1 by (simp del: drop_drop)
  have element: "length (skip_element (skip_past_tag (drop n (drop 1 rest))) m) < length rest" for n m
    using skip_element_length tag [of n] by (rule order.strict_trans1)
  have comment: "length (skip_to (drop 4 rest) m) < length rest" for m
    using skip_to_length [of "drop 4 rest" m] assms by (cases rest) auto
  show ?thesis
    using drop1 tag [of 0] tag element comment unfolding at_bracket_def Let_def
    by (auto simp del: drop_drop simp: skip_past_tag_length)
qed

lemma loop_shorter:
  assumes "dropWhile P rest = c # cs"
  shows "length (fst (at_bracket (c # cs) k)) < length rest"
proof -
  have "length (fst (at_bracket (c # cs) k)) < length (c # cs)" by (rule at_bracket_shorter) simp
  also have "\<dots> \<le> length rest" using length_dropWhile_le [of P rest] assms by simp
  finally show ?thesis .
qed

function html_loop :: "scalars \<Rightarrow> sink \<Rightarrow> sink" where
  "html_loop rest k =
     (if rest = [] \<or> sink_full k then k
      else
        case dropWhile (\<lambda>c. c \<noteq> 60) rest of
          [] \<Rightarrow> push_text rest k
        | c # cs \<Rightarrow>
            (case at_bracket (c # cs) (push_text (takeWhile (\<lambda>c. c \<noteq> 60) rest) k) of
               (rest', k') \<Rightarrow> html_loop rest' k'))"
  by pat_completeness auto

termination
  by (relation "measure (\<lambda>(rest, k). length rest)") (auto simp: case_prod_beta intro: loop_shorter)

declare html_loop.simps [simp del]

definition html_to_text :: "scalars \<Rightarrow> nat \<Rightarrow> extracted" where
  "html_to_text input limit = finish (html_loop input (sink_new limit))"

lemma html_example:
  "ex_text (html_to_text (lit ''<p>a &lt; b<script>x</script>  c&#33;</p>'') 64) = lit ''a < b c!''"
  by code_simp

section \<open>The limit\<close>

named_theorems sink_rules \<open>what the operations keep of a sink\<close>

lemma byte_len_simps [simp]:
  "byte_len [] = 0" "byte_len (c # s) = len_utf8 c + byte_len s" "byte_len (s @ t) = byte_len s + byte_len t"
  "byte_len (rev s) = byte_len s"
  by (simp_all add: byte_len_def rev_map [symmetric])

lemma len_utf8_le: "len_utf8 c \<le> 4" "1 \<le> len_utf8 c"
  by (simp_all add: len_utf8_def)

lemma byte_len_dropWhile: "byte_len (dropWhile P s) \<le> byte_len s"
  by (induction s) auto

text \<open>A sink is within its limit by at most the three bytes by which the last character may
  reach over it; and a closed one, that is full or has dropped something, stays closed.\<close>

definition sink_within :: "sink \<Rightarrow> bool" where
  "sink_within k \<longleftrightarrow> byte_len (sk_out k) \<le> sk_limit k + 3"

definition closed :: "sink \<Rightarrow> bool" where
  "closed k \<longleftrightarrow> sk_truncated k \<or> sink_full k"

lemma push_newline_keeps [sink_rules]:
  "sk_limit (push_newline k) = sk_limit k"
  "sink_within k \<Longrightarrow> sink_within (push_newline k)"
  "closed k \<Longrightarrow> closed (push_newline k)"
  "\<not> closed (push_newline k) \<Longrightarrow> sk_limit k \<le> l \<Longrightarrow>
     push_newline (k\<lparr>sk_limit := l\<rparr>) = (push_newline k)\<lparr>sk_limit := l\<rparr>"
proof -
  show "sk_limit (push_newline k) = sk_limit k" by (simp add: push_newline_def Let_def)
  have "byte_len (rev (dropWhile (\<lambda>c. c = 32) (rev (sk_out k)))) \<le> byte_len (sk_out k)"
    using byte_len_dropWhile [of _ "rev (sk_out k)"] by simp
  then show "sink_within k \<Longrightarrow> sink_within (push_newline k)"
    by (auto simp: push_newline_def Let_def sink_within_def sink_full_def len_utf8_def)
  show "closed k \<Longrightarrow> closed (push_newline k)"
    by (auto simp: push_newline_def Let_def closed_def sink_full_def)
  show "\<not> closed (push_newline k) \<Longrightarrow> sk_limit k \<le> l \<Longrightarrow>
     push_newline (k\<lparr>sk_limit := l\<rparr>) = (push_newline k)\<lparr>sk_limit := l\<rparr>"
    by (auto simp: push_newline_def Let_def closed_def sink_full_def split: if_splits)
qed

lemma push_char_step:
  "sk_limit (push_char c k) = sk_limit k" "sk_truncated (push_char c k) = sk_truncated k"
  "\<not> sink_full k \<Longrightarrow> sink_within (push_char c k)"
  "push_char c (k\<lparr>sk_limit := l\<rparr>) = (push_char c k)\<lparr>sk_limit := l\<rparr>"
  using len_utf8_le(1) [of c]
  by (simp_all add: push_char_def sink_within_def sink_full_def len_utf8_def [of 32])

lemma push_chars_limit: "sk_limit (push_chars cs k) = sk_limit k"
  by (induction cs k rule: push_chars.induct) (simp_all add: push_char_step)

lemma push_chars_within: "sink_within k \<Longrightarrow> sink_within (push_chars cs k)"
proof (induction cs k rule: push_chars.induct)
  case (2 c cs k)
  then show ?case by (cases "sink_full k") (simp_all add: push_char_step sink_within_def [of "k\<lparr>sk_truncated := True\<rparr>"]
    sink_within_def [of k])
qed simp

lemma push_chars_truncated: "sk_truncated k \<Longrightarrow> sk_truncated (push_chars cs k)"
  by (induction cs k rule: push_chars.induct) (simp_all add: push_char_step)

lemma push_chars_closed: "closed k \<Longrightarrow> closed (push_chars cs k)"
  using push_chars_truncated [of k cs] by (cases cs) (auto simp: closed_def)

lemma push_chars_wider:
  "\<not> closed (push_chars cs k) \<Longrightarrow> sk_limit k \<le> l \<Longrightarrow>
     push_chars cs (k\<lparr>sk_limit := l\<rparr>) = (push_chars cs k)\<lparr>sk_limit := l\<rparr>"
proof (induction cs k rule: push_chars.induct)
  case (2 c cs k)
  then have "\<not> sink_full k" by (auto simp: closed_def split: if_splits)
  with 2 show ?case by (simp add: push_char_step sink_full_def)
qed simp

lemmas push_chars_keeps [sink_rules] =
  push_chars_limit push_chars_within push_chars_closed push_chars_wider

lemma push_text_keeps [sink_rules]:
  "sk_limit (push_text raw k) = sk_limit k"
  "sink_within k \<Longrightarrow> sink_within (push_text raw k)"
  "closed k \<Longrightarrow> closed (push_text raw k)"
  "\<not> closed (push_text raw k) \<Longrightarrow> sk_limit k \<le> l \<Longrightarrow>
     push_text raw (k\<lparr>sk_limit := l\<rparr>) = (push_text raw k)\<lparr>sk_limit := l\<rparr>"
  by (simp_all add: push_text_def push_chars_keeps)

text \<open>A turn of the loop leaves the sink, ends a line in it, or pushes a bare bracket.\<close>

definition bracket_step :: "(sink \<Rightarrow> scalars \<times> sink) \<Rightarrow> bool" where
  "bracket_step f \<longleftrightarrow> (\<exists>r g. f = (\<lambda>k. (r, g k)) \<and> (g = id \<or> g = push_newline \<or> g = push_text (lit ''<'')))"

lemma bracket_step_intros:
  "bracket_step (\<lambda>k. (r, k))" "bracket_step (\<lambda>k. (r, push_newline k))"
  "bracket_step (\<lambda>k. (r, push_text (lit ''<'') k))"
  by (force simp: bracket_step_def)+

lemma bracket_step_if:
  "(b \<Longrightarrow> bracket_step f) \<Longrightarrow> (\<not> b \<Longrightarrow> bracket_step g) \<Longrightarrow> bracket_step (\<lambda>k. if b then f k else g k)"
  by (cases b) simp_all

lemma at_bracket_step: "bracket_step (at_bracket rest)"
proof -
  have "bracket_step (\<lambda>k. at_bracket rest k)"
    unfolding at_bracket_def Let_def by (intro bracket_step_intros bracket_step_if)
  then show ?thesis .
qed

lemma bracket_step_keeps:
  assumes "bracket_step f"
  shows "sk_limit (snd (f k)) = sk_limit k"
    "sink_within k \<Longrightarrow> sink_within (snd (f k))" "closed k \<Longrightarrow> closed (snd (f k))"
    "\<not> closed (snd (f k)) \<Longrightarrow> sk_limit k \<le> l \<Longrightarrow>
       f (k\<lparr>sk_limit := l\<rparr>) = (fst (f k), (snd (f k))\<lparr>sk_limit := l\<rparr>)"
  using assms by (auto simp: bracket_step_def sink_rules)

lemmas at_bracket_keeps [sink_rules] = bracket_step_keeps [OF at_bracket_step]

lemma html_loop_limit: "sk_limit (html_loop rest k) = sk_limit k"
  by (induction rest k rule: html_loop.induct)
    (subst html_loop.simps, simp add: sink_rules case_prod_beta split: list.splits)

lemma html_loop_within: "sink_within k \<Longrightarrow> sink_within (html_loop rest k)"
  by (induction rest k rule: html_loop.induct)
    (subst html_loop.simps, simp add: sink_rules case_prod_beta split: list.splits)

lemma html_loop_closed: "closed k \<Longrightarrow> closed (html_loop rest k)"
  by (induction rest k rule: html_loop.induct)
    (subst html_loop.simps, simp add: sink_rules case_prod_beta split: list.splits)

lemma html_loop_wider:
  "\<not> closed (html_loop rest k) \<Longrightarrow> sk_limit k \<le> l \<Longrightarrow>
     html_loop rest (k\<lparr>sk_limit := l\<rparr>) = (html_loop rest k)\<lparr>sk_limit := l\<rparr>"
proof (induction rest k rule: html_loop.induct)
  case (1 rest k)
  show ?case
  proof (cases "rest = []")
    case True
    then show ?thesis by (simp add: html_loop.simps)
  next
    case False
    from 1(2) have k: "\<not> closed k" using html_loop_closed by blast
    then have open': "\<not> sink_full k" "\<not> sink_full (k\<lparr>sk_limit := l\<rparr>)"
      using 1(3) by (simp_all add: closed_def sink_full_def)
    show ?thesis
    proof (cases "dropWhile (\<lambda>c. c \<noteq> 60) rest")
      case Nil
      then have "html_loop rest m = push_text rest m" if "\<not> sink_full m" for m
        using False that by (simp add: html_loop.simps [of rest m] del: dropWhile_eq_Nil_conv)
      then show ?thesis using 1(2,3) open' by (simp add: push_text_keeps)
    next
      case (Cons c cs)
      let ?k = "push_text (takeWhile (\<lambda>c. c \<noteq> 60) rest) k"
      have step: "html_loop rest k = html_loop (fst (at_bracket (c # cs) ?k)) (snd (at_bracket (c # cs) ?k))"
        using Cons False open'(1) by (simp add: html_loop.simps [of rest] case_prod_beta)
      then have a: "\<not> closed (snd (at_bracket (c # cs) ?k))" using 1(2) html_loop_closed by metis
      then have p: "\<not> closed ?k" using at_bracket_keeps(3) by blast
      have "html_loop rest (k\<lparr>sk_limit := l\<rparr>) =
        html_loop (fst (at_bracket (c # cs) ?k)) ((snd (at_bracket (c # cs) ?k))\<lparr>sk_limit := l\<rparr>)"
        using Cons False open'(2) 1(3) a p by (simp add: html_loop.simps [of rest] sink_rules)
      also have "\<dots> = (html_loop rest k)\<lparr>sk_limit := l\<rparr>"
        using 1(1) [OF _ Cons prod.collapse] 1(2,3) False open'(1) step by (simp add: sink_rules)
      finally show ?thesis .
    qed
  qed
qed

lemma byte_len_trim: "byte_len (trim_scalars s) \<le> byte_len s"
  using byte_len_dropWhile [of is_whitespace "rev (dropWhile is_whitespace s)"]
    byte_len_dropWhile [of is_whitespace s] by (simp add: trim_scalars_def)

text \<open>What is read out of a document is at most three bytes longer than the limit, the
  part of its last character that reaches over it; and an extraction that does not report itself
  truncated is complete: with any larger limit the result is the same.\<close>

theorem extraction_limit:
  "byte_len (ex_text (html_to_text input limit)) \<le> limit + 3 \<and>
   (\<not> ex_truncated (html_to_text input limit) \<longrightarrow>
     (\<forall>limit' \<ge> limit. html_to_text input limit' = html_to_text input limit))"
proof (intro conjI impI allI)
  let ?k = "html_loop input (sink_new limit)"
  have "sink_within ?k" by (rule html_loop_within) (simp add: sink_within_def sink_new_def)
  moreover have lim: "sk_limit ?k = limit" by (simp add: html_loop_limit sink_new_def)
  ultimately show "byte_len (ex_text (html_to_text input limit)) \<le> limit + 3"
    using byte_len_trim [of "sk_out ?k"] by (simp add: html_to_text_def finish_def sink_within_def)
  fix limit'
  assume a: "\<not> ex_truncated (html_to_text input limit)" "limit \<le> limit'"
  then have "\<not> closed ?k" by (simp add: html_to_text_def finish_def closed_def sink_full_def)
  from html_loop_wider [OF this, of limit'] a(2)
  have "html_loop input (sink_new limit') = ?k\<lparr>sk_limit := limit'\<rparr>" by (simp add: sink_new_def)
  then show "html_to_text input limit' = html_to_text input limit"
    using a lim by (simp add: html_to_text_def finish_def)
qed

lemma extraction_limit_witness:
  "\<not> ex_truncated (html_to_text (lit ''a<br>b'') 8) \<and>
   html_to_text (lit ''a<br>b'') 100 = html_to_text (lit ''a<br>b'') 8"
proof -
  have "\<not> ex_truncated (html_to_text (lit ''a<br>b'') 8)" by code_simp
  moreover have "(8 :: nat) \<le> 100" by simp
  ultimately show ?thesis using extraction_limit [of "lit ''a<br>b''" 8] by blast
qed

text \<open>The limit is reached over when the last character needs more bytes than are left.\<close>

lemma extraction_over_limit:
  "byte_len (ex_text (html_to_text [0x20AC] 1)) = 3"
  by code_simp

end
