(* ===== verification/Aik_Fetch.thy ===== *)
theory Aik_Fetch
  imports Aik_Tools Aik_Address Aik_Extract
begin

text \<open>
  The web fetch tool (src/crates/net/src: settings.rs, target.rs, resolver.rs, tool.rs). A run of
  the tool is a tree of the questions it puts to its surroundings, a name lookup, a request,
  an authorization, each with the continuation for every answer, so that nothing is assumed of
  the answers; \<open>fetches\<close> relates a run to what it did and what it returned. The URL parser and
  the HTTP client are libraries: a parsed URL is the record of what its accessors return, and
  parsing, joining and the display forms that only occur in messages are parameters.
\<close>

section \<open>Settings\<close>

record net_settings =
  ns_allow_local_addresses :: bool
  ns_allow_http :: bool
  ns_allow_hosts :: "string list"
  ns_deny_hosts :: "string list"
  ns_max_bytes :: "u64 option"
  ns_timeout_ms :: "u64 option"
  ns_max_redirects :: "nat option"
  ns_user_agent :: "string option"

definition default_max_bytes :: u64 where
  "default_max_bytes = 512 * 1024"

definition default_fetch_timeout :: duration where
  "default_fetch_timeout = 20 * 1000000000"

definition default_max_redirects :: nat where
  "default_max_redirects = 3"

definition max_url_bytes :: nat where
  "max_url_bytes = 2048"

definition max_bytes :: "net_settings \<Rightarrow> u64" where
  "max_bytes cfg = (case ns_max_bytes cfg of Some n \<Rightarrow> n | None \<Rightarrow> default_max_bytes)"

definition fetch_timeout :: "net_settings \<Rightarrow> duration" where
  "fetch_timeout cfg = (case ns_timeout_ms cfg of Some ms \<Rightarrow> from_millis ms | None \<Rightarrow> default_fetch_timeout)"

definition max_redirects :: "net_settings \<Rightarrow> nat" where
  "max_redirects cfg = (case ns_max_redirects cfg of Some n \<Rightarrow> n | None \<Rightarrow> default_max_redirects)"

section \<open>Targets\<close>

datatype url_host = HostDomain string | HostV4 ipv4 | HostV6 ipv6

text \<open>\<open>ur_text\<close> is \<^verbatim>\<open>to_string\<close>, \<open>ur_trimmed\<close> that of the URL with its query and
  fragment removed.\<close>

record url =
  ur_scheme :: string
  ur_username :: string
  ur_password :: "string option"
  ur_host :: "url_host option"
  ur_port :: "nat option"
  ur_text :: string
  ur_trimmed :: string

record target =
  tg_url :: url
  tg_host :: string

record net_lib =
  nl_parse :: "string \<Rightarrow> string + url"
  nl_join :: "url \<Rightarrow> string \<Rightarrow> url option"
  nl_show_error :: "error \<Rightarrow> string"
  nl_show_status :: "nat \<Rightarrow> string"
  nl_bad_arguments :: "json \<Rightarrow> string"

text \<open>The \<^verbatim>\<open>Display\<close> of an address: dotted octets; segments in hexadecimal with the first
  longest run of two or more zeros left out, and an IPv4-mapped address in dotted form.\<close>

definition show_v4 :: "ipv4 \<Rightarrow> string" where
  "show_v4 a = join_with ''.'' (map (\<lambda>i. dec (unat (octet i a))) [0, 1, 2, 3])"

definition hex_char :: "nat \<Rightarrow> char" where
  "hex_char n = (if n < 10 then char_of (48 + n) else char_of (87 + n))"

fun hex :: "nat \<Rightarrow> string" where
  "hex n = (if n < 16 then [hex_char n] else hex (n div 16) @ [hex_char (n mod 16)])"

declare hex.simps [simp del]

fun longest_zeros :: "nat \<Rightarrow> nat list \<Rightarrow> nat \<times> nat \<Rightarrow> nat \<times> nat \<Rightarrow> nat \<times> nat" where
  "longest_zeros i [] current longest = longest"
| "longest_zeros i (s # ss) current longest =
     (if s = 0
      then let current' = (if snd current = 0 then (i, 1) else (fst current, snd current + 1))
           in longest_zeros (Suc i) ss current'
                (if snd current' > snd longest then current' else longest)
      else longest_zeros (Suc i) ss (0, 0) longest)"

definition show_v6 :: "ipv6 \<Rightarrow> string" where
  "show_v6 a =
     (case to_ipv4_mapped a of
        Some v \<Rightarrow> ''::ffff:'' @ show_v4 v
      | None \<Rightarrow>
          let segments = map (\<lambda>i. unat (segment i a)) [0, 1, 2, 3, 4, 5, 6, 7];
              (start, len) = longest_zeros 0 segments (0, 0) (0, 0);
              part = (\<lambda>ss. join_with '':'' (map hex ss))
          in if len > 1 then part (take start segments) @ ''::'' @ part (drop (start + len) segments)
             else part segments)"

fun show_ip :: "ip_addr \<Rightarrow> string" where
  "show_ip (V4 a) = show_v4 a"
| "show_ip (V6 a) = show_v6 a"

definition host_matches :: "string list \<Rightarrow> string \<Rightarrow> bool" where
  "host_matches entries host \<longleftrightarrow>
     list_ex (\<lambda>raw.
       let entry = to_ascii_lowercase (trim raw) in
       case strip_prefix ''.'' entry of
         Some domain \<Rightarrow> host = domain \<or> ends_with host (''.'' @ domain)
       | None \<Rightarrow> host = entry) entries"

definition host_text :: "url_host \<Rightarrow> string" where
  "host_text h =
     (case h of
        HostDomain d \<Rightarrow> to_ascii_lowercase d
      | HostV4 a \<Rightarrow> show_v4 a
      | HostV6 a \<Rightarrow> show_v6 a)"

definition validate_url :: "net_settings \<Rightarrow> url \<Rightarrow> target result" where
  "validate_url cfg u =
     (if ur_scheme u \<noteq> ''https'' \<and> \<not> (ur_scheme u = ''http'' \<and> ns_allow_http cfg)
      then
        if ur_scheme u = ''http''
        then Inl (Confinement (''`http` URLs are refused unless the deployment sets `allow_http`; ''
               @ ''the request would leave this machine unencrypted''))
        else Inl (Confinement (''scheme `'' @ ur_scheme u @ ''` is not fetchable; only http and https are''))
      else if ur_username u \<noteq> [] \<or> ur_password u \<noteq> None
      then Inl (Confinement ''a URL carrying a username or password is refused'')
      else case ur_host u of
        None \<Rightarrow> Inl (InvalidArgument ''the URL names no host'')
      | Some h \<Rightarrow>
          let host = host_text h in
          if host = [] then Inl (InvalidArgument ''the URL names no host'')
          else if (case ur_port u of Some port \<Rightarrow> port < 1024 \<and> port \<noteq> 80 \<and> port \<noteq> 443 | None \<Rightarrow> False)
          then Inl (Confinement (''port '' @ dec (the (ur_port u))
                 @ '' is refused; a privileged port other than 80 or 443 is not a fetch target''))
          else if host_matches (ns_deny_hosts cfg) host
          then Inl (Confinement (''`'' @ host @ ''` is in this deployment'' @ [CHR 0x27] @ ''s denied hosts''))
          else if ns_allow_hosts cfg \<noteq> [] \<and> \<not> host_matches (ns_allow_hosts cfg) host
          then Inl (Confinement (''`'' @ host @ ''` is not in this deployment'' @ [CHR 0x27] @ ''s allowed hosts''))
          else Inr \<lparr>tg_url = u, tg_host = host\<rparr>)"

definition validate :: "net_lib \<Rightarrow> net_settings \<Rightarrow> string \<Rightarrow> target result" where
  "validate lib cfg raw =
     (if length raw > max_url_bytes
      then Inl (InvalidArgument (''url is '' @ dec (length raw) @ '' bytes, over the ''
             @ dec max_url_bytes @ ''-byte limit''))
      else case nl_parse lib raw of
        Inl message \<Rightarrow> Inl (InvalidArgument (''`'' @ raw @ ''` is not a valid URL: '' @ message))
      | Inr u \<Rightarrow> validate_url cfg u)"

definition target_resource :: "target \<Rightarrow> string" where
  "target_resource t = ur_trimmed (tg_url t)"

section \<open>Resolution\<close>

text \<open>What \<^verbatim>\<open>tokio::net::lookup_host\<close> answers: an I/O error, of which the source
  distinguishes one kind, or addresses.\<close>

datatype io_failure = IoNotFound | IoOther string

type_synonym lookup_answer = "io_failure + ip_addr list"

definition resolve_host :: "string \<Rightarrow> lookup_answer \<Rightarrow> ip_addr list result" where
  "resolve_host host answer =
     (case answer of
        Inl IoNotFound \<Rightarrow> Inl (NotFound ''host'' host)
      | Inl (IoOther message) \<Rightarrow> Inl (wrap (''resolving `'' @ host @ ''`'') (BoxForeign message None))
      | Inr addresses \<Rightarrow> if addresses = [] then Inl (NotFound ''host'' host) else Inr addresses)"

fun partition_addresses ::
  "bool \<Rightarrow> ip_addr list \<Rightarrow> ip_addr list \<times> (ip_addr \<times> address_class) list" where
  "partition_addresses allow_local [] = ([], [])"
| "partition_addresses allow_local (a # as) =
     (case partition_addresses allow_local as of (allowed, refused) \<Rightarrow>
        let class = classify_address a in
        if is_reachable class allow_local then (a # allowed, refused)
        else (allowed, (a, class) # refused))"

definition refusal_detail :: "(ip_addr \<times> address_class) list \<Rightarrow> string" where
  "refusal_detail refused =
     (case refused of
        [] \<Rightarrow> ''no addresses''
      | (a, class) # _ \<Rightarrow> show_ip a @ '' is in '' @ class_range class)"

definition allowed_addresses :: "string \<Rightarrow> bool \<Rightarrow> lookup_answer \<Rightarrow> ip_addr list result" where
  "allowed_addresses host allow_local answer =
     (case resolve_host host answer of
        Inl e \<Rightarrow> Inl e
      | Inr resolved \<Rightarrow>
          (case partition_addresses allow_local resolved of (allowed, refused) \<Rightarrow>
             if allowed = []
             then Inl (Confinement (''`'' @ host
                    @ ''` resolves only to addresses this deployment may not reach (''
                    @ refusal_detail refused @ '')''))
             else Inr allowed))"

text \<open>\<^verbatim>\<open>GuardedResolver::resolve\<close>, which the HTTP client calls when it connects.\<close>

definition guarded_resolve ::
  "(error \<Rightarrow> string) \<Rightarrow> bool \<Rightarrow> string \<Rightarrow> lookup_answer \<Rightarrow> string + ip_addr list" where
  "guarded_resolve show_error allow_local host answer =
     (case resolve_host host answer of
        Inl e \<Rightarrow> Inl (show_error e)
      | Inr addresses \<Rightarrow>
          (case partition_addresses allow_local addresses of (allowed, refused) \<Rightarrow>
             if allowed = [] then Inl (''refusing to connect to `'' @ host @ ''`: '' @ refusal_detail refused)
             else Inr allowed))"

section \<open>Reading a response\<close>

text \<open>\<open>rp_chunks\<close> is what successive calls of \<^verbatim>\<open>chunk\<close> return, an error or bytes, until
  the body ends.\<close>

type_synonym bytes = "8 word list"

record response =
  rp_status :: nat
  rp_location :: "string option"
  rp_content_type :: "string option"
  rp_content_length :: "u64 option"
  rp_chunks :: "(string + bytes) list"

definition split_once :: "char \<Rightarrow> string \<Rightarrow> (string \<times> string) option" where
  "split_once d s =
     (case dropWhile (\<lambda>c. c \<noteq> d) s of [] \<Rightarrow> None | _ # after \<Rightarrow> Some (takeWhile (\<lambda>c. c \<noteq> d) s, after))"

definition trim_matches :: "char \<Rightarrow> string \<Rightarrow> string" where
  "trim_matches d s = rev (dropWhile (\<lambda>c. c = d) (rev (dropWhile (\<lambda>c. c = d) s)))"

definition eq_ignore_ascii_case :: "string \<Rightarrow> string \<Rightarrow> bool" where
  "eq_ignore_ascii_case a b \<longleftrightarrow> to_ascii_lowercase a = to_ascii_lowercase b"

definition mime_of :: "string \<Rightarrow> string" where
  "mime_of content_type = trim (hd (split_on (CHR '';'') content_type))"

definition charset_of :: "string \<Rightarrow> string option" where
  "charset_of content_type =
     (case List.map_filter
        (\<lambda>parameter. Option.bind (split_once (CHR ''='') parameter) (\<lambda>(name, v).
           if eq_ignore_ascii_case (trim name) ''charset''
           then Some (to_ascii_lowercase (trim_matches (CHR 0x22) (trim v))) else None))
        (tl (split_on (CHR '';'') content_type)) of
        [] \<Rightarrow> None
      | c # _ \<Rightarrow> Some c)"

definition is_textual :: "string \<Rightarrow> bool" where
  "is_textual mime \<longleftrightarrow>
     mime = [] \<or> starts_with mime ''text/'' \<or> mime = ''application/json'' \<or> mime = ''application/xml'' \<or>
     mime = ''application/xhtml+xml'' \<or> ends_with mime ''+json'' \<or> ends_with mime ''+xml''"

definition readable :: "string \<Rightarrow> string + unit" where
  "readable content_type =
     (let mime = to_ascii_lowercase (mime_of content_type) in
      if \<not> is_textual mime
      then Inl (''`'' @ mime @ ''` is not a text format; this tool retrieves documents, not binaries'')
      else case charset_of content_type of
        None \<Rightarrow> Inr ()
      | Some c \<Rightarrow>
          if c \<in> set [''utf-8'', ''utf8'', ''us-ascii'', ''ascii''] then Inr ()
          else Inl (''the response is encoded as `'' @ c @ ''`; only UTF-8 is decoded''))"

definition is_html :: "string \<Rightarrow> bool" where
  "is_html content_type \<longleftrightarrow>
     eq_ignore_ascii_case (mime_of content_type) ''text/html'' \<or>
     eq_ignore_ascii_case (mime_of content_type) ''application/xhtml+xml''"

text \<open>The loop over the chunks, at 64 bits: \<open>remaining\<close> is \<^verbatim>\<open>limit as usize - body.len()\<close>.
  The result is the body and whether it was cut.\<close>

fun read_body :: "nat \<Rightarrow> (string + bytes) list \<Rightarrow> bytes \<Rightarrow> string + bytes \<times> bool" where
  "read_body limit [] body = Inr (body, False)"
| "read_body limit (Inl message # chunks) body = Inl message"
| "read_body limit (Inr chunk # chunks) body =
     (let remaining = limit - length body in
      if length chunk > remaining then Inr (body @ take remaining chunk, True)
      else read_body limit chunks (body @ chunk))"

text \<open>\<^verbatim>\<open>String::from_utf8_lossy\<close>: each maximal part of a sequence that is not UTF-8 becomes
  one replacement character. \<open>lead_bounds\<close> are the number of continuation bytes a first byte
  asks for and the range of the first of them.\<close>

definition lead_bounds :: "int \<Rightarrow> (nat \<times> int \<times> int) option" where
  "lead_bounds b =
     (if b < 0x80 then Some (0, 0, 0)
      else if 0xC2 \<le> b \<and> b \<le> 0xDF then Some (1, 0x80, 0xBF)
      else if b = 0xE0 then Some (2, 0xA0, 0xBF)
      else if b = 0xED then Some (2, 0x80, 0x9F)
      else if 0xE1 \<le> b \<and> b \<le> 0xEF then Some (2, 0x80, 0xBF)
      else if b = 0xF0 then Some (3, 0x90, 0xBF)
      else if 0xF1 \<le> b \<and> b \<le> 0xF3 then Some (3, 0x80, 0xBF)
      else if b = 0xF4 then Some (3, 0x80, 0x8F)
      else None)"

fun continuation :: "nat \<Rightarrow> int \<Rightarrow> int \<Rightarrow> int list \<Rightarrow> int \<Rightarrow> int option \<times> int list" where
  "continuation 0 lo hi bs acc = (Some acc, bs)"
| "continuation (Suc n) lo hi [] acc = (None, [])"
| "continuation (Suc n) lo hi (b # bs) acc =
     (if lo \<le> b \<and> b \<le> hi then continuation n 0x80 0xBF bs (acc * 64 + (b - 0x80))
      else (None, b # bs))"

lemma continuation_length: "length (snd (continuation n lo hi bs acc)) \<le> length bs"
  by (induction n lo hi bs acc rule: continuation.induct) auto

definition first_bits :: "nat \<Rightarrow> int \<Rightarrow> int" where
  "first_bits n b = (if n = 0 then b else if n = 1 then b - 0xC0 else if n = 2 then b - 0xE0 else b - 0xF0)"

function from_utf8_lossy :: "int list \<Rightarrow> scalars" where
  "from_utf8_lossy [] = []"
| "from_utf8_lossy (b # bs) =
     (case lead_bounds b of
        None \<Rightarrow> 0xFFFD # from_utf8_lossy bs
      | Some (n, lo, hi) \<Rightarrow>
          (case continuation n lo hi bs (first_bits n b) of
             (Some c, rest) \<Rightarrow> c # from_utf8_lossy rest
           | (None, rest) \<Rightarrow> 0xFFFD # from_utf8_lossy rest))"
  by pat_completeness auto

termination
  by (relation "measure length")
    (auto simp: less_Suc_eq_le, (metis continuation_length snd_conv)+)

record read_content =
  rd_content :: scalars
  rd_truncated :: bool

definition body_text :: "nat \<Rightarrow> string \<Rightarrow> bytes \<Rightarrow> bool \<Rightarrow> read_content" where
  "body_text limit content_type body truncated =
     (let content = from_utf8_lossy (map uint body) in
      if is_html content_type
      then let extracted = html_to_text content limit
           in \<lparr>rd_content = ex_text extracted, rd_truncated = (truncated \<or> ex_truncated extracted)\<rparr>
      else \<lparr>rd_content = content, rd_truncated = truncated\<rparr>)"

definition ok_outcome :: "json \<Rightarrow> tool_outcome" where
  "ok_outcome v = \<lparr>to_output = v, to_is_error = False, to_trust = Trusted\<rparr>"

definition failed_outcome :: "json \<Rightarrow> tool_outcome" where
  "failed_outcome v = \<lparr>to_output = v, to_is_error = True, to_trust = Trusted\<rparr>"

definition refusal :: "string \<Rightarrow> string \<Rightarrow> tool_outcome" where
  "refusal u reason =
     failed_outcome (JObject (bt_insert ''url'' (JString u) (bt_insert ''error'' (JString reason) [])))"

definition is_success :: "nat \<Rightarrow> bool" where
  "is_success status \<longleftrightarrow> 200 \<le> status \<and> status < 300"

definition is_redirection :: "nat \<Rightarrow> bool" where
  "is_redirection status \<longleftrightarrow> 300 \<le> status \<and> status < 400"

definition read_output ::
  "net_lib \<Rightarrow> string \<Rightarrow> target \<Rightarrow> nat \<Rightarrow> string list \<Rightarrow> string \<Rightarrow> read_content \<Rightarrow> tool_outcome" where
  "read_output lib original current status hops content_type text =
     (let fields = bt_insert ''url'' (JString original)
            (bt_insert ''status'' (JNumber (PosInt status))
            (bt_insert ''content_type'' (JString content_type)
            (bt_insert ''content'' (JString (utf8 (rd_content text)))
            (bt_insert ''truncated'' (JBool (rd_truncated text)) []))));
          fields = (if ur_text (tg_url current) \<noteq> original
            then bt_insert ''final_url'' (JString (ur_text (tg_url current))) fields else fields);
          fields = (if hops \<noteq> [] then bt_insert ''redirects'' (JArray (map JString hops)) fields else fields)
      in if is_success status then ok_outcome (JObject fields)
         else failed_outcome (JObject (bt_insert ''error''
           (JString (''the server answered '' @ nl_show_status lib status)) fields)))"

definition read_response ::
  "net_lib \<Rightarrow> net_settings \<Rightarrow> response \<Rightarrow> string \<Rightarrow> target \<Rightarrow> string list \<Rightarrow> tool_outcome result" where
  "read_response lib cfg rp original current hops =
     (let content_type = (case rp_content_type rp of Some v \<Rightarrow> v | None \<Rightarrow> []);
          limit = max_bytes cfg
      in case readable content_type of
        Inl reason \<Rightarrow> Inr (refusal original reason)
      | Inr _ \<Rightarrow>
          if (case rp_content_length rp of Some n \<Rightarrow> n > limit | None \<Rightarrow> False)
          then Inr (refusal original (''the response declares '' @ dec (unat (the (rp_content_length rp)))
                 @ '' bytes, over the '' @ dec (unat limit) @ ''-byte limit''))
          else case read_body (unat limit) (rp_chunks rp) [] of
            Inl message \<Rightarrow>
              Inl (wrap (''reading `'' @ ur_text (tg_url current) @ ''`'') (BoxForeign message None))
          | Inr (body, truncated) \<Rightarrow>
              Inr (read_output lib original current (rp_status rp) hops content_type
                (body_text (unat limit) content_type body truncated)))"

section \<open>Fetching\<close>

text \<open>What the client answers to a request: the addresses it connected to, and the response or
  an error.\<close>

record send_answer =
  sa_lookup :: lookup_answer
  sa_dialled :: "ip_addr list"
  sa_result :: "string + response"

datatype fetch_run =
    FetchDone "tool_outcome result"
  | LookupHost string "lookup_answer \<Rightarrow> fetch_run"
  | SendGet url duration "send_answer \<Rightarrow> fetch_run"
  | AskResource resource_claim "unit result \<Rightarrow> fetch_run"

record web_fetch_tool =
  wf_name :: string
  wf_action :: string
  wf_settings :: net_settings

definition web_fetch_new :: "net_settings \<Rightarrow> web_fetch_tool" where
  "web_fetch_new cfg = \<lparr>wf_name = ''web.fetch'', wf_action = ''web.fetch'', wf_settings = cfg\<rparr>"

definition claims :: "web_fetch_tool \<Rightarrow> target \<Rightarrow> resource_claim list" where
  "claims w t =
     [\<lparr>rc_action = wf_action w, rc_resource = ''host/'' @ tg_host t\<rparr>,
      \<lparr>rc_action = wf_action w, rc_resource = ''url/'' @ target_resource t\<rparr>]"

primrec ask_all :: "resource_claim list \<Rightarrow> (unit result \<Rightarrow> fetch_run) \<Rightarrow> fetch_run" where
  "ask_all [] k = k (Inr ())"
| "ask_all (c # cs) k =
     AskResource c (\<lambda>answer. case answer of Inl e \<Rightarrow> k (Inl e) | Inr _ \<Rightarrow> ask_all cs k)"

text \<open>The part of \<^verbatim>\<open>next_hop\<close> before it asks: the next target or the reason there is none.\<close>

definition hop_target :: "net_lib \<Rightarrow> web_fetch_tool \<Rightarrow> target \<Rightarrow> string \<Rightarrow> string + target" where
  "hop_target lib w from location =
     (case nl_join lib (tg_url from) location of
        None \<Rightarrow> Inl (''`'' @ location @ ''` is not a resolvable redirect'')
      | Some u \<Rightarrow>
          if ur_scheme (tg_url from) = ''https'' \<and> ur_scheme u \<noteq> ''https''
          then Inl (''refusing a redirect from https to `'' @ ur_scheme u @ ''`: a downgrade nobody asked for'')
          else case validate_url (wf_settings w) u of
            Inl e \<Rightarrow> Inl (''refusing the redirect to `'' @ ur_text u @ ''`: '' @ nl_show_error lib e)
          | Inr next \<Rightarrow> Inr next)"

definition next_hop ::
  "net_lib \<Rightarrow> web_fetch_tool \<Rightarrow> target \<Rightarrow> string \<Rightarrow> ((string + target) result \<Rightarrow> fetch_run) \<Rightarrow> fetch_run" where
  "next_hop lib w from location k =
     (case hop_target lib w from location of
        Inl reason \<Rightarrow> k (Inr (Inl reason))
      | Inr next \<Rightarrow>
          ask_all (claims w next) (\<lambda>answer. case answer of Inl e \<Rightarrow> k (Inl e) | Inr _ \<Rightarrow> k (Inr (Inr next))))"

text \<open>What follows a request: an error, the next turn of the loop, \<open>again\<close>, or the response
  read.\<close>

definition after_send ::
  "net_lib \<Rightarrow> web_fetch_tool \<Rightarrow> string \<Rightarrow> target \<Rightarrow> string list \<Rightarrow> send_answer
   \<Rightarrow> (target \<Rightarrow> fetch_run) \<Rightarrow> fetch_run" where
  "after_send lib w original current hops sent again =
     (case sa_result sent of
        Inl message \<Rightarrow>
          FetchDone (Inl (wrap (''fetching `'' @ ur_text (tg_url current) @ ''`'') (BoxForeign message None)))
      | Inr rp \<Rightarrow>
          (case (if is_redirection (rp_status rp) then rp_location rp else None) of
             None \<Rightarrow> FetchDone (read_response lib (wf_settings w) rp original current hops)
           | Some location \<Rightarrow>
               if length hops \<ge> max_redirects (wf_settings w)
               then FetchDone (Inr (refusal original (''more than ''
                 @ dec (max_redirects (wf_settings w)) @ '' redirects; the last was to `''
                 @ location @ ''`'')))
               else next_hop lib w current location (\<lambda>hop.
                 case hop of
                   Inl e \<Rightarrow> FetchDone (Inl e)
                 | Inr (Inl refused) \<Rightarrow> FetchDone (Inr (refusal original refused))
                 | Inr (Inr next) \<Rightarrow> again next)))"

lemma after_send_cong [fundef_cong]:
  assumes "lib = lib'" "w = w'" "original = original'" "current = current'" "hops = hops'" "sent = sent'"
    and "\<And>next. length hops' < max_redirects (wf_settings w') \<Longrightarrow> again next = again' next"
  shows "after_send lib w original current hops sent again =
    after_send lib' w' original' current' hops' sent' again'"
proof (cases "length hops' < max_redirects (wf_settings w')")
  case True
  with assms(7) have "again = again'" by auto
  with assms show ?thesis by simp
next
  case False
  with assms(1-6) show ?thesis by (simp add: after_send_def split: sum.splits option.splits)
qed

function fetch_loop ::
  "net_lib \<Rightarrow> web_fetch_tool \<Rightarrow> duration \<Rightarrow> string \<Rightarrow> target \<Rightarrow> string list \<Rightarrow> fetch_run" where
  "fetch_loop lib w budget original current hops =
     LookupHost (tg_host current) (\<lambda>found.
       case allowed_addresses (tg_host current) (ns_allow_local_addresses (wf_settings w)) found of
         Inl e \<Rightarrow> FetchDone (Inr (refusal original (nl_show_error lib e)))
       | Inr _ \<Rightarrow>
           SendGet (tg_url current) budget (\<lambda>sent.
             after_send lib w original current hops sent (\<lambda>next.
               fetch_loop lib w budget original next (hops @ [ur_text (tg_url next)]))))"
  by pat_completeness auto

termination
  by (relation "measure (\<lambda>(lib, w, budget, original, current, hops). max_redirects (wf_settings w) - length hops)")
    auto

declare fetch_loop.simps [simp del]

text \<open>\<^verbatim>\<open>fetch\<close>, the parse of its arguments, which derives from a structure of one required
  field and so takes an array of one string too, and the operations of the tool.\<close>

definition fetch :: "net_lib \<Rightarrow> web_fetch_tool \<Rightarrow> target \<Rightarrow> duration \<Rightarrow> fetch_run" where
  "fetch lib w requested budget = fetch_loop lib w budget (ur_text (tg_url requested)) requested []"

definition parse_fetch :: "net_lib \<Rightarrow> web_fetch_tool \<Rightarrow> json \<Rightarrow> string result" where
  "parse_fetch lib w arguments =
     (let bad = Inl (InvalidArgument (''invalid arguments for `'' @ wf_name w @ ''`: ''
            @ nl_bad_arguments lib arguments))
      in case arguments of
        JObject [(key, JString u)] \<Rightarrow> if key = ''url'' then Inr u else bad
      | JArray [JString u] \<Rightarrow> Inr u
      | _ \<Rightarrow> bad)"

definition fetch_planned :: "net_lib \<Rightarrow> web_fetch_tool \<Rightarrow> json \<Rightarrow> resource_claim list result" where
  "fetch_planned lib w arguments =
     (case parse_fetch lib w arguments of
        Inl e \<Rightarrow> Inl e
      | Inr raw \<Rightarrow>
          (case validate lib (wf_settings w) raw of Inl e \<Rightarrow> Inl e | Inr t \<Rightarrow> Inr (claims w t)))"

text \<open>The time left to a deadline of whole milliseconds when the clock reads \<open>now\<close> nanoseconds.\<close>

definition fetch_remaining_budget :: "execution_context \<Rightarrow> nat \<Rightarrow> duration \<Rightarrow> duration" where
  "fetch_remaining_budget cx now configured =
     (case cx_deadline cx of
        Some deadline \<Rightarrow> min (from_millis deadline - now) configured
      | None \<Rightarrow> configured)"

definition fetch_invoke ::
  "net_lib \<Rightarrow> web_fetch_tool \<Rightarrow> nat \<Rightarrow> json \<Rightarrow> execution_context \<Rightarrow> fetch_run" where
  "fetch_invoke lib w now arguments cx =
     (case parse_fetch lib w arguments of
        Inl e \<Rightarrow> FetchDone (Inl e)
      | Inr raw \<Rightarrow>
     (case validate lib (wf_settings w) raw of
        Inl e \<Rightarrow> FetchDone (Inl e)
      | Inr t \<Rightarrow>
          if cx_cancelled cx then FetchDone (Inl Cancelled)
          else fetch lib w t (fetch_remaining_budget cx now (fetch_timeout (wf_settings w)))))"

section \<open>What a run does\<close>

datatype net_event =
    Looked string lookup_answer
  | Sent url duration send_answer
  | Asked resource_claim "unit result"

text \<open>A run puts its questions in order and takes the answers it is given; at any question it may
  be cut off by the cancellation that \<^verbatim>\<open>invoke\<close> waits for beside it.\<close>

inductive fetches :: "fetch_run \<Rightarrow> net_event list \<Rightarrow> tool_outcome result \<Rightarrow> bool" where
  returns: "fetches (FetchDone r) [] r"
| cut_off: "fetches run [] (Inl Cancelled)"
| looks: "fetches (k found) tr r \<Longrightarrow> fetches (LookupHost host k) (Looked host found # tr) r"
| sends: "fetches (k sent) tr r \<Longrightarrow> fetches (SendGet u budget k) (Sent u budget sent # tr) r"
| asks: "fetches (k answer) tr r \<Longrightarrow> fetches (AskResource c k) (Asked c answer # tr) r"

inductive_cases fetches_doneE: "fetches (FetchDone x) tr r"
inductive_cases fetches_lookE: "fetches (LookupHost host k) tr r"
inductive_cases fetches_sendE: "fetches (SendGet u budget k) tr r"
inductive_cases fetches_askE: "fetches (AskResource c k) tr r"

definition is_sent :: "net_event \<Rightarrow> bool" where
  "is_sent e \<longleftrightarrow> (case e of Sent _ _ _ \<Rightarrow> True | _ \<Rightarrow> False)"

lemma is_sent_simps [simp]:
  "\<not> is_sent (Looked h f)" "is_sent (Sent u b s)" "\<not> is_sent (Asked c a)"
  by (simp_all add: is_sent_def)

lemma fetches_done: "fetches (FetchDone x) tr r \<Longrightarrow> tr = []"
  by (auto elim: fetches_doneE)

lemma ask_all_trace:
  assumes "fetches (ask_all cs k) tr r" "\<And>e tr. fetches (k (Inl e)) tr r \<Longrightarrow> tr = []"
  obtains (stopped) "\<forall>e \<in> set tr. \<not> is_sent e"
  | (granted) tr' where "tr = map (\<lambda>c. Asked c (Inr ())) cs @ tr'" "fetches (k (Inr ())) tr' r"
proof -
  have "(\<forall>e \<in> set tr. \<not> is_sent e) \<or>
    (\<exists>tr'. tr = map (\<lambda>c. Asked c (Inr ())) cs @ tr' \<and> fetches (k (Inr ())) tr' r)"
    using assms(1)
  proof (induction cs arbitrary: tr)
    case (Cons c cs)
    from Cons.prems consider "tr = []" | answer tr' where "tr = Asked c answer # tr'"
      "fetches (case answer of Inl e \<Rightarrow> k (Inl e) | Inr _ \<Rightarrow> ask_all cs k) tr' r"
      by (auto elim: fetches_askE)
    then show ?case
    proof cases
      case (2 answer tr')
      show ?thesis
      proof (cases answer)
        case (Inl e)
        with 2 have "tr' = []" using assms(2) by simp
        with 2 show ?thesis by simp
      next
        case (Inr u)
        with 2 Cons.IH [of tr'] show ?thesis by auto
      qed
    qed simp
  qed simp
  with stopped granted show ?thesis by blast
qed

lemma hop_target_ok:
  assumes "hop_target lib w from location = Inr nxt"
  shows "validate_url (wf_settings w) (tg_url nxt) = Inr nxt"
    "ur_scheme (tg_url from) = ''https'' \<Longrightarrow> ur_scheme (tg_url nxt) = ''https''"
proof -
  obtain u where u: "validate_url (wf_settings w) u = Inr nxt"
    "ur_scheme (tg_url from) = ''https'' \<Longrightarrow> ur_scheme u = ''https''"
    using assms by (auto simp: hop_target_def split: option.splits if_splits sum.splits)
  then have "tg_url nxt = u"
    by (auto simp: validate_url_def Let_def split: option.splits if_splits)
  with u show "validate_url (wf_settings w) (tg_url nxt) = Inr nxt"
    "ur_scheme (tg_url from) = ''https'' \<Longrightarrow> ur_scheme (tg_url nxt) = ''https''" by auto
qed

lemma after_send_trace:
  assumes "fetches (after_send lib w original current hops sent again) tr r"
  obtains (last) "\<forall>e \<in> set tr. \<not> is_sent e"
  | (hop) tr' location nxt where "tr = map (\<lambda>c. Asked c (Inr ())) (claims w nxt) @ tr'"
      "length hops < max_redirects (wf_settings w)" "hop_target lib w current location = Inr nxt"
      "fetches (again nxt) tr' r"
proof -
  from assms consider "tr = []" | location nxt where
    "length hops < max_redirects (wf_settings w)" "hop_target lib w current location = Inr nxt"
    "fetches (ask_all (claims w nxt)
       (\<lambda>answer. case answer of Inl e \<Rightarrow> FetchDone (Inl e) | Inr _ \<Rightarrow> again nxt)) tr r"
    by (auto simp: after_send_def next_hop_def not_le split: sum.splits option.splits if_splits
        dest: fetches_done cong: sum.case_cong)
  then show ?thesis
  proof cases
    case 1
    then show ?thesis using last by simp
  next
    case (2 location nxt)
    show ?thesis
      by (rule ask_all_trace [OF 2(3)]) (auto intro: last hop [OF _ 2(1,2)] dest: fetches_done)
  qed
qed

text \<open>One turn of the loop, as a trace: nothing is sent; or one request is sent after a lookup
  that found a reachable address, and none after it; or the request was answered by a redirect
  whose claims were all granted, and the rest is the nxt turn.\<close>

lemma fetch_loop_trace:
  assumes "fetches (fetch_loop lib w budget original current hops) tr r"
  obtains (quiet) "\<forall>e \<in> set tr. \<not> is_sent e"
  | (last) found sent tr' as where
      "tr = Looked (tg_host current) found # Sent (tg_url current) budget sent # tr'"
      "allowed_addresses (tg_host current) (ns_allow_local_addresses (wf_settings w)) found = Inr as"
      "\<forall>e \<in> set tr'. \<not> is_sent e"
  | (hop) found sent tr' as location nxt where
      "tr = Looked (tg_host current) found # Sent (tg_url current) budget sent #
         map (\<lambda>c. Asked c (Inr ())) (claims w nxt) @ tr'"
      "allowed_addresses (tg_host current) (ns_allow_local_addresses (wf_settings w)) found = Inr as"
      "length hops < max_redirects (wf_settings w)"
      "hop_target lib w current location = Inr nxt"
      "fetches (fetch_loop lib w budget original nxt (hops @ [ur_text (tg_url nxt)])) tr' r"
proof -
  let ?again = "\<lambda>nxt. fetch_loop lib w budget original nxt (hops @ [ur_text (tg_url nxt)])"
  from assms consider "\<forall>e \<in> set tr. \<not> is_sent e" | found sent tr' as where
    "tr = Looked (tg_host current) found # Sent (tg_url current) budget sent # tr'"
    "allowed_addresses (tg_host current) (ns_allow_local_addresses (wf_settings w)) found = Inr as"
    "fetches (after_send lib w original current hops sent ?again) tr' r"
    unfolding fetch_loop.simps [of lib w budget original current hops]
    by (auto elim!: fetches_lookE fetches_sendE fetches_doneE split: sum.splits)
  then show ?thesis
  proof cases
    case 1
    then show ?thesis by (rule quiet)
  next
    case (2 found sent tr' as)
    show ?thesis
    proof (rule after_send_trace [OF 2(3)])
      assume "\<forall>e \<in> set tr'. \<not> is_sent e"
      then show ?thesis by (rule last [OF 2(1,2)])
    next
      fix tr'' location nxt
      assume a: "tr' = map (\<lambda>c. Asked c (Inr ())) (claims w nxt) @ tr''"
        "length hops < max_redirects (wf_settings w)" "hop_target lib w current location = Inr nxt"
        "fetches (?again nxt) tr'' r"
      show ?thesis using 2(1) by (intro hop [OF _ 2(2) a(2-4)]) (simp add: a(1))
    qed
  qed
qed

text \<open>What has to precede a request for \<open>u\<close>: its URL passes the checks of the deployment, it is
  either the target the tool was given or one whose two claims were granted on the way, the last
  thing done was a lookup of its host that found an address the deployment may reach, and it is
  encrypted if the first target was.\<close>

definition guarded_send :: "web_fetch_tool \<Rightarrow> target \<Rightarrow> net_event list \<Rightarrow> url \<Rightarrow> bool" where
  "guarded_send w first pre u \<longleftrightarrow>
     (\<exists>t. validate_url (wf_settings w) u = Inr t \<and>
        (t = first \<or> (\<forall>c \<in> set (claims w t). Asked c (Inr ()) \<in> set pre)) \<and>
        (\<exists>p found as. pre = p @ [Looked (tg_host t) found] \<and>
           allowed_addresses (tg_host t) (ns_allow_local_addresses (wf_settings w)) found = Inr as)) \<and>
     (ur_scheme (tg_url first) = ''https'' \<longrightarrow> ur_scheme u = ''https'')"

lemma guarded_send_later:
  assumes "guarded_send w nxt pre u" "hop_target lib w first location = Inr nxt"
    "(\<lambda>c. Asked c (Inr ())) ` set (claims w nxt) \<subseteq> set before"
  shows "guarded_send w first (before @ pre) u"
  using assms hop_target_ok(2) [OF assms(2)] unfolding guarded_send_def by (auto 4 3)

lemma skip_unmarked:
  "\<forall>e \<in> set xs. \<not> P e \<Longrightarrow> P y \<Longrightarrow> p @ y # post = xs @ tr \<Longrightarrow> \<exists>p'. p = xs @ p' \<and> tr = p' @ y # post"
proof (induction xs arbitrary: p)
  case (Cons x xs)
  then show ?case by (cases p) auto
qed simp

lemma fetch_loop_guarded:
  "fetches (fetch_loop lib w budget original current hops) tr r \<Longrightarrow>
   validate_url (wf_settings w) (tg_url current) = Inr current \<Longrightarrow>
   tr = pre @ Sent u b sent # post \<Longrightarrow> guarded_send w current pre u"
proof (induction "max_redirects (wf_settings w) - length hops" arbitrary: current hops tr pre rule: less_induct)
  case less
  have one: "guarded_send w current pre u" if "pre = [Looked (tg_host current) found]" "u = tg_url current"
    "allowed_addresses (tg_host current) (ns_allow_local_addresses (wf_settings w)) found = Inr as" for found as
    using that less.prems(2) by (auto simp: guarded_send_def)
  from less.prems(1) show ?case
  proof (cases rule: fetch_loop_trace)
    case quiet
    with less.prems(3) show ?thesis by auto
  next
    case (last found s tr' as)
    from last(1,3) less.prems(3) have "pre = [Looked (tg_host current) found]" "u = tg_url current"
      by (auto simp: append_eq_Cons_conv)
    then show ?thesis using last(2) by (rule one)
  next
    case (hop found s tr' as location nxt)
    let ?before = "Looked (tg_host current) found # Sent (tg_url current) budget s #
      map (\<lambda>c. Asked c (Inr ())) (claims w nxt)"
    have "pre @ Sent u b sent # post = ?before @ tr'" using less.prems(3) hop(1) by simp
    then consider "pre = [Looked (tg_host current) found]" "u = tg_url current"
      | p where "pre = Looked (tg_host current) found # Sent (tg_url current) budget s # p"
        "p @ Sent u b sent # post = map (\<lambda>c. Asked c (Inr ())) (claims w nxt) @ tr'"
      by (auto simp: append_eq_Cons_conv)
    then show ?thesis
    proof cases
      case 1
      then show ?thesis using hop(2) by (rule one)
    next
      case (2 p)
      have "\<exists>pre'. p = map (\<lambda>c. Asked c (Inr ())) (claims w nxt) @ pre' \<and> tr' = pre' @ Sent u b sent # post"
        by (rule skip_unmarked [of _ is_sent, OF _ _ 2(2)]) auto
      then obtain pre' where "pre = ?before @ pre'" "tr' = pre' @ Sent u b sent # post" using 2(1) by auto
      moreover have "guarded_send w nxt pre' u"
        using less.hyps [of "hops @ [ur_text (tg_url nxt)]" nxt tr' pre'] hop(3,5)
          hop_target_ok(1) [OF hop(4)] calculation(2) by simp
      ultimately show ?thesis using guarded_send_later [OF _ hop(4), of pre' u ?before] by auto
    qed
  qed
qed

lemma fetch_loop_sends:
  "fetches (fetch_loop lib w budget original current hops) tr r \<Longrightarrow>
   length (filter is_sent tr) \<le> Suc (max_redirects (wf_settings w) - length hops)"
proof (induction "max_redirects (wf_settings w) - length hops" arbitrary: current hops tr rule: less_induct)
  case less
  from less.prems show ?case
  proof (cases rule: fetch_loop_trace)
    case (hop found s tr' as location nxt)
    have "length (filter is_sent tr') \<le> Suc (max_redirects (wf_settings w) - Suc (length hops))"
      using less.hyps [OF _ hop(5)] hop(3) by simp
    then show ?thesis using hop(1,3) by (simp add: comp_def)
  qed (simp_all add: filter_False)
qed

lemma validate_ok:
  assumes "validate lib cfg raw = Inr t"
  shows "validate_url cfg (tg_url t) = Inr t"
proof -
  obtain u where "validate_url cfg u = Inr t"
    using assms by (auto simp: validate_def split: if_splits sum.splits)
  moreover from this have "tg_url t = u"
    by (auto simp: validate_url_def Let_def split: option.splits if_splits)
  ultimately show ?thesis by simp
qed

lemma fetch_invoke_cases:
  assumes "fetches (fetch_invoke lib w now arguments cx) tr r"
  obtains (nothing) "tr = []"
  | (runs) first budget where "fetch_planned lib w arguments = Inr (claims w first)"
      "validate_url (wf_settings w) (tg_url first) = Inr first"
      "fetches (fetch_loop lib w budget (ur_text (tg_url first)) first []) tr r"
  using assms validate_ok
  by (auto simp: fetch_invoke_def fetch_planned_def fetch_def split: sum.splits if_splits dest!: fetches_done)

lemma fetch_guarded:
  assumes "fetches (fetch_invoke lib w now arguments cx) tr r"
  shows "length (filter is_sent tr) \<le> max_redirects (wf_settings w) + 1"
    "tr = pre @ Sent u b sent # post \<Longrightarrow>
       \<exists>first. fetch_planned lib w arguments = Inr (claims w first) \<and> guarded_send w first pre u"
proof -
  show "length (filter is_sent tr) \<le> max_redirects (wf_settings w) + 1"
    using assms
  proof (cases rule: fetch_invoke_cases)
    case (runs first budget)
    from fetch_loop_sends [OF runs(3)] show ?thesis by simp
  qed simp
  assume tr: "tr = pre @ Sent u b sent # post"
  from assms show "\<exists>first. fetch_planned lib w arguments = Inr (claims w first) \<and> guarded_send w first pre u"
  proof (cases rule: fetch_invoke_cases)
    case (runs first budget)
    from fetch_loop_guarded [OF runs(3,2) tr] runs(1) show ?thesis by blast
  qed (use tr in simp)
qed

section \<open>Where requests end up\<close>

lemma partition_allowed:
  "set (fst (partition_addresses allow_local as)) = {a \<in> set as. is_reachable (classify_address a) allow_local}"
proof (induction as)
  case (Cons a as)
  then show ?case
    by (cases "is_reachable (classify_address a) allow_local") (simp_all add: case_prod_beta Let_def, blast+)
qed simp

lemma allowed_addresses_reachable:
  assumes "allowed_addresses host allow_local found = Inr as"
  obtains all where "found = Inr all" "as \<noteq> []" "set as \<subseteq> set all"
    "\<forall>a \<in> set as. is_reachable (classify_address a) allow_local"
proof (cases "resolve_host host found")
  case (Inr all)
  then have found: "found = Inr all"
    by (simp add: resolve_host_def split: sum.splits io_failure.splits if_splits)
  from assms Inr have "as = fst (partition_addresses allow_local all)" "as \<noteq> []"
    by (simp_all add: allowed_addresses_def split: prod.splits if_splits)
  with partition_allowed [of allow_local all] found show ?thesis by (intro that [of all]) auto
qed (use assms in \<open>simp add: allowed_addresses_def\<close>)

lemma guarded_resolve_reachable:
  assumes "guarded_resolve show_error allow_local host found = Inr as"
  shows "\<forall>a \<in> set as. is_reachable (classify_address a) allow_local"
proof (cases "resolve_host host found")
  case (Inr all)
  with assms have "as = fst (partition_addresses allow_local all)"
    by (simp add: guarded_resolve_def split: prod.splits if_splits)
  with partition_allowed [of allow_local all] show ?thesis by simp
qed (use assms in \<open>simp add: guarded_resolve_def\<close>)

text \<open>What the tool relies on: a lookup of an address in its text form answers that address alone
  (\<^verbatim>\<open>ToSocketAddrs\<close>), and the client connects to the address a URL names, or for a domain
  to an address its resolver returned.\<close>

definition literal_host :: "url \<Rightarrow> ip_addr option" where
  "literal_host u =
     (case ur_host u of Some (HostV4 a) \<Rightarrow> Some (V4 a) | Some (HostV6 a) \<Rightarrow> Some (V6 a) | _ \<Rightarrow> None)"

definition lookup_honest :: "url \<Rightarrow> lookup_answer \<Rightarrow> bool" where
  "lookup_honest u found =
     (case (literal_host u, found) of (Some a, Inr as) \<Rightarrow> list_all (\<lambda>b. b = a) as | _ \<Rightarrow> True)"

definition client_honest :: "net_lib \<Rightarrow> bool \<Rightarrow> url \<Rightarrow> send_answer \<Rightarrow> bool" where
  "client_honest lib allow_local u sent =
     (case ur_host u of
        None \<Rightarrow> sa_dialled sent = []
      | Some (HostDomain d) \<Rightarrow>
          (case guarded_resolve (nl_show_error lib) allow_local d (sa_lookup sent) of
             Inl _ \<Rightarrow> sa_dialled sent = []
           | Inr as \<Rightarrow> list_all (\<lambda>a. a \<in> set as) (sa_dialled sent))
      | Some h \<Rightarrow> list_all (\<lambda>a. Some a = literal_host u) (sa_dialled sent))"

definition surroundings_honest :: "net_lib \<Rightarrow> bool \<Rightarrow> net_event list \<Rightarrow> bool" where
  "surroundings_honest lib allow_local tr \<longleftrightarrow>
     list_all (\<lambda>(e, e'). case (e, e') of
         (Looked h found, Sent u b sent) \<Rightarrow> lookup_honest u found \<and> client_honest lib allow_local u sent
       | _ \<Rightarrow> True) (zip tr (tl tr))"

lemma adjacent_in: "(x, y) \<in> set (zip (p @ x # y # post) (tl (p @ x # y # post)))"
proof (induction p)
  case (Cons e p)
  then show ?case by (cases p) auto
qed simp

lemma surroundings_honest_at:
  assumes "surroundings_honest lib al (p @ Looked h found # Sent u b sent # post)"
  shows "lookup_honest u found" "client_honest lib al u sent"
  using assms adjacent_in [of "Looked h found" "Sent u b sent" p post]
  by (auto simp: surroundings_honest_def list_all_iff)

lemma dialled_reachable_one:
  assumes "guarded_send w first pre u" "surroundings_honest lib (ns_allow_local_addresses (wf_settings w))
      (pre @ Sent u b sent # post)"
  shows "\<forall>a \<in> set (sa_dialled sent). is_reachable (classify_address a) (ns_allow_local_addresses (wf_settings w))"
proof -
  let ?al = "ns_allow_local_addresses (wf_settings w)"
  obtain p and t :: target and found as where pre: "pre = p @ [Looked (tg_host t) found]"
    and ok: "allowed_addresses (tg_host t) ?al found = Inr as"
    using assms(1) [unfolded guarded_send_def, THEN conjunct1] by (elim exE conjE) (rule that)
  have honest: "lookup_honest u found" "client_honest lib ?al u sent"
    using surroundings_honest_at [of lib ?al p "tg_host t" found u b sent post] assms(2) pre by auto
  obtain all where all: "found = Inr all" "as \<noteq> []" "set as \<subseteq> set all"
    "\<forall>a \<in> set as. is_reachable (classify_address a) ?al"
    using ok by (rule allowed_addresses_reachable)
  have literal: "is_reachable (classify_address a) ?al" if "literal_host u = Some a" for a
  proof -
    have "\<forall>x \<in> set all. x = a" using honest(1) that all(1) by (simp add: lookup_honest_def list_all_iff)
    moreover obtain x where "x \<in> set as" using all(2) by (cases as) auto
    ultimately show ?thesis using all(3,4) by (metis subsetD)
  qed
  show ?thesis
  proof (cases "ur_host u")
    case None
    then show ?thesis using honest(2) by (simp add: client_honest_def)
  next
    case (Some h)
    then show ?thesis
      using honest(2) literal guarded_resolve_reachable [of "nl_show_error lib" ?al]
      by (cases h) (auto simp: client_honest_def list_all_iff split: sum.splits)
  qed
qed



lemma read_body_spec:
  "read_body limit chunks body = Inr (b, short) \<Longrightarrow> length body \<le> limit \<Longrightarrow>
   b = take limit (body @ concat (map (case_sum (\<lambda>_. []) id) chunks)) \<and>
   (short \<longleftrightarrow> limit < length (body @ concat (map (case_sum (\<lambda>_. []) id) chunks)))"
proof (induction limit chunks body rule: read_body.induct)
  case (3 limit chunk chunks body)
  then show ?case by (cases "length chunk > limit - length body") (auto simp: Let_def)
qed auto

text \<open>What of a body is kept: at most \<^verbatim>\<open>max_bytes\<close> bytes, the first ones that arrived, and
  the mark of a cut exactly when more arrived; so the subtraction of the source never goes below
  zero.\<close>

lemma read_body_bounded:
  "read_body limit chunks [] = Inr (b, short) \<Longrightarrow> length b \<le> limit \<and> (short \<longrightarrow> length b = limit)"
  using read_body_spec [of limit chunks "[]" b short] by auto

section \<open>An example run\<close>

definition demo_url :: "string \<Rightarrow> url_host \<Rightarrow> url" where
  "demo_url text host =
     \<lparr>ur_scheme = ''https'', ur_username = [], ur_password = None, ur_host = Some host, ur_port = None,
      ur_text = text, ur_trimmed = text\<rparr>"

definition demo_net :: net_lib where
  "demo_net =
     \<lparr>nl_parse = (\<lambda>raw. Inr (demo_url raw (HostDomain ''a.example''))),
      nl_join = (\<lambda>u location. Some (demo_url location (HostDomain ''b.example''))),
      nl_show_error = (\<lambda>e. ''failed''), nl_show_status = dec, nl_bad_arguments = (\<lambda>v. ''bad'')\<rparr>"

definition demo_web :: web_fetch_tool where
  "demo_web = web_fetch_new \<lparr>ns_allow_local_addresses = False, ns_allow_http = False, ns_allow_hosts = [],
     ns_deny_hosts = [], ns_max_bytes = None, ns_timeout_ms = None, ns_max_redirects = None,
     ns_user_agent = None\<rparr>"

definition demo_response :: "nat \<Rightarrow> string option \<Rightarrow> response" where
  "demo_response status location =
     \<lparr>rp_status = status, rp_location = location, rp_content_type = None, rp_content_length = None,
      rp_chunks = []\<rparr>"

definition demo_sent :: "response \<Rightarrow> send_answer" where
  "demo_sent rp =
     \<lparr>sa_lookup = Inr [V4 (v4 8 8 8 8), V4 (v4 10 0 0 1)], sa_dialled = [V4 (v4 8 8 8 8)], sa_result = Inr rp\<rparr>"

text \<open>A redirect from one host to another, both claims of the second granted, and its document.\<close>

definition demo_target :: "string \<Rightarrow> string \<Rightarrow> target" where
  "demo_target text host = \<lparr>tg_url = demo_url text (HostDomain host), tg_host = host\<rparr>"

definition demo_trace :: "net_event list" where
  "demo_trace =
     [Looked ''a.example'' (Inr [V4 (v4 8 8 8 8)]),
      Sent (tg_url (demo_target ''x'' ''a.example'')) default_fetch_timeout (demo_sent (demo_response 302 (Some ''y'')))] @
     map (\<lambda>c. Asked c (Inr ())) (claims demo_web (demo_target ''y'' ''b.example'')) @
     [Looked ''b.example'' (Inr [V4 (v4 8 8 8 8)]),
      Sent (tg_url (demo_target ''y'' ''b.example'')) default_fetch_timeout (demo_sent (demo_response 200 None))]"

definition demo_cx :: execution_context where
  "demo_cx = \<lparr>cx_correlation = ''c'', cx_principal = None, cx_deadline = None, cx_cancelled = False,
     cx_attributes = []\<rparr>"

lemma demo_validated:
  "validate demo_net (wf_settings demo_web) ''x'' = Inr (demo_target ''x'' ''a.example'')"
  "hop_target demo_net demo_web (demo_target ''x'' ''a.example'') ''y'' = Inr (demo_target ''y'' ''b.example'')"
  by code_simp+

lemma demo_classes:
  "classify_v4 (v4 8 8 8 8) = GlobalClass" "\<not> is_reachable (classify_v4 (v4 10 0 0 1)) False"
  by code_simp+

lemma demo_lookups:
  "allowed_addresses host False (Inr [V4 (v4 8 8 8 8)]) = Inr [V4 (v4 8 8 8 8)]"
  "guarded_resolve f False host (Inr [V4 (v4 8 8 8 8), V4 (v4 10 0 0 1)]) = Inr [V4 (v4 8 8 8 8)]"
  by (simp_all add: allowed_addresses_def guarded_resolve_def resolve_host_def Let_def demo_classes)

lemma demo_settings [simp]:
  "ns_allow_local_addresses (wf_settings demo_web) = False" "max_redirects (wf_settings demo_web) = 3"
  "fetch_timeout (wf_settings demo_web) = default_fetch_timeout" "wf_name demo_web = ''web.fetch''"
  by (simp_all add: demo_web_def web_fetch_new_def max_redirects_def fetch_timeout_def default_max_redirects_def)

lemma demo_fetch_run:
  "fetches (fetch_invoke demo_net demo_web 0 (JObject [(''url'', JString ''x'')]) demo_cx) demo_trace
     (read_response demo_net (wf_settings demo_web) (demo_response 200 None) ''x''
       (demo_target ''y'' ''b.example'') [''y''])"
proof -
  have t: "tg_host (demo_target x h) = h" "ur_text (tg_url (demo_target x h)) = x" for x h
    by (simp_all add: demo_target_def demo_url_def)
  have "fetches (fetch_loop demo_net demo_web default_fetch_timeout ''x'' (demo_target ''x'' ''a.example'') [])
    demo_trace (read_response demo_net (wf_settings demo_web) (demo_response 200 None) ''x''
       (demo_target ''y'' ''b.example'') [''y''])"
    by (simp add: fetch_loop.simps after_send_def next_hop_def demo_validated demo_trace_def demo_lookups t
        demo_sent_def demo_response_def is_redirection_def claims_def fetches.intros)
  then show ?thesis
    by (simp add: fetch_invoke_def parse_fetch_def demo_validated demo_cx_def fetch_def t fetch_remaining_budget_def)
qed

lemma demo_honest: "surroundings_honest demo_net False demo_trace"
  by (simp add: surroundings_honest_def demo_trace_def claims_def lookup_honest_def client_honest_def
      literal_host_def demo_target_def demo_url_def demo_sent_def demo_lookups)



end
