(* ===== verification/Aik_Frame.thy ===== *)
theory Aik_Frame
  imports Aik_Address
begin

text \<open>
  The frames of the local protocol (src/crates/ipc/src/frame.rs): four bytes of big-endian length
  and that many bytes of JSON. A stream is the bytes still to be read and how it ends after them,
  closed by the peer or broken by an error. The serializer is a library, a parameter of both
  operations.
\<close>

section \<open>Bytes and streams\<close>

type_synonym byte = "8 word"

definition max_frame_bytes :: nat where
  "max_frame_bytes = 1024 * 1024"

definition length_prefix_bytes :: nat where
  "length_prefix_bytes = 4"

definition to_be_bytes :: "32 word \<Rightarrow> byte list" where
  "to_be_bytes n = map (\<lambda>i. ucast (drop_bit (24 - 8 * i) n)) [0, 1, 2, 3]"

definition from_be_bytes :: "byte list \<Rightarrow> 32 word" where
  "from_be_bytes bs = fold (\<lambda>b acc. push_bit 8 acc + ucast b) bs 0"

datatype stream_end = PeerClosed | Broken string

record stream =
  st_bytes :: "byte list"
  st_end :: stream_end

text \<open>\<^verbatim>\<open>read_exact\<close>: the bytes and what is left, or how the stream ended before there were
  enough.\<close>

definition read_exact :: "nat \<Rightarrow> stream \<Rightarrow> (stream_end + byte list) \<times> stream" where
  "read_exact n s =
     (if n \<le> length (st_bytes s)
      then (Inr (take n (st_bytes s)), s\<lparr>st_bytes := drop n (st_bytes s)\<rparr>)
      else (Inl (st_end s), s\<lparr>st_bytes := []\<rparr>))"

section \<open>Writing and reading\<close>

text \<open>\<open>to_vec\<close> is the serializer. The socket may fail after some bytes of the frame, or when it is
  flushed.\<close>

datatype write_failure = WriteFails nat string | FlushFails string

definition frame_bytes :: "('a \<Rightarrow> box_error + byte list) \<Rightarrow> 'a \<Rightarrow> byte list result" where
  "frame_bytes to_vec v =
     (case to_vec v of
        Inl e \<Rightarrow> Inl (Serialization e)
      | Inr body \<Rightarrow>
          if length body > max_frame_bytes
          then Inl (InvalidArgument (''a '' @ dec (length body) @ ''-byte message is larger than the ''
                 @ dec max_frame_bytes @ ''-byte frame limit''))
          else Inr (to_be_bytes (word_of_nat (length body)) @ body))"

definition frame_write ::
  "('a \<Rightarrow> box_error + byte list) \<Rightarrow> write_failure option \<Rightarrow> 'a \<Rightarrow> byte list \<Rightarrow> unit result \<times> byte list" where
  "frame_write to_vec failure v sent =
     (case frame_bytes to_vec v of
        Inl e \<Rightarrow> (Inl e, sent)
      | Inr bytes \<Rightarrow>
          (case failure of
             Some (WriteFails n message) \<Rightarrow>
               (Inl (wrap ''writing a frame'' (BoxForeign message None)), sent @ take n bytes)
           | Some (FlushFails message) \<Rightarrow>
               (Inl (wrap ''flushing a frame'' (BoxForeign message None)), sent @ bytes)
           | None \<Rightarrow> (Inr (), sent @ bytes)))"

definition show_end :: "stream_end \<Rightarrow> box_error" where
  "show_end e = (case e of PeerClosed \<Rightarrow> BoxForeign ''early eof'' None | Broken message \<Rightarrow> BoxForeign message None)"

definition frame_read ::
  "(byte list \<Rightarrow> box_error + 'a) \<Rightarrow> stream \<Rightarrow> 'a option result \<times> stream" where
  "frame_read from_slice s =
     (case read_exact length_prefix_bytes s of
        (Inl PeerClosed, s1) \<Rightarrow> (Inr None, s1)
      | (Inl (Broken message), s1) \<Rightarrow>
          (Inl (wrap ''reading a frame length'' (BoxForeign message None)), s1)
      | (Inr prefix, s1) \<Rightarrow>
          let len = unat (from_be_bytes prefix) in
          if len = 0
          then (Inl (InvalidArgument ''a frame must carry a message; a zero-length one carries nothing''), s1)
          else if len > max_frame_bytes
          then (Inl (InvalidArgument (''a peer announced a '' @ dec len @ ''-byte frame, over the ''
                 @ dec max_frame_bytes @ ''-byte limit'')), s1)
          else
            (case read_exact len s1 of
               (Inl e, s2) \<Rightarrow> (Inl (wrap ''reading a frame body'' (show_end e)), s2)
             | (Inr body, s2) \<Rightarrow>
                 (case from_slice body of
                    Inl e \<Rightarrow> (Inl (Serialization e), s2)
                  | Inr v \<Rightarrow> (Inr (Some v), s2))))"

lemma read_exact_ok:
  "read_exact n s = (Inr bs, s') \<longleftrightarrow>
   n \<le> length (st_bytes s) \<and> bs = take n (st_bytes s) \<and> s' = s\<lparr>st_bytes := drop n (st_bytes s)\<rparr>"
  by (auto simp: read_exact_def)

lemma frame_read_shorter:
  assumes "frame_read from_slice s = (Inr (Some v), s')"
  shows "length (st_bytes s') < length (st_bytes s)"
proof -
  obtain prefix s1 len body where "read_exact length_prefix_bytes s = (Inr prefix, s1)"
    "read_exact len s1 = (Inr body, s')"
    using assms by (auto simp: frame_read_def Let_def split: prod.splits sum.splits stream_end.splits if_splits)
  then show ?thesis by (auto simp: read_exact_ok length_prefix_bytes_def)
qed

text \<open>A reader that takes frames until there is none or one fails: the messages, and the error.\<close>

function read_all :: "(byte list \<Rightarrow> box_error + 'a) \<Rightarrow> stream \<Rightarrow> 'a list \<times> error option" where
  "read_all from_slice s =
     (case frame_read from_slice s of
        (Inl e, _) \<Rightarrow> ([], Some e)
      | (Inr None, _) \<Rightarrow> ([], None)
      | (Inr (Some v), s') \<Rightarrow> (case read_all from_slice s' of (vs, e) \<Rightarrow> (v # vs, e)))"
  by pat_completeness auto

termination
  by (relation "measure (\<lambda>(f, s). length (st_bytes s))") (auto dest: frame_read_shorter [OF sym])

declare read_all.simps [simp del]

text \<open>A writer that sends messages one after another until one fails.\<close>

fun write_all ::
  "('a \<Rightarrow> box_error + byte list) \<Rightarrow> 'a list \<Rightarrow> byte list \<Rightarrow> unit result \<times> byte list" where
  "write_all to_vec [] sent = (Inr (), sent)"
| "write_all to_vec (v # vs) sent =
     (case frame_write to_vec None v sent of
        (Inl e, sent') \<Rightarrow> (Inl e, sent')
      | (Inr _, sent') \<Rightarrow> write_all to_vec vs sent')"

section \<open>Round trips\<close>

lemma be_bytes_octets: "to_be_bytes n = map (\<lambda>i. octet i n) [0, 1, 2, 3]"
  by (simp add: to_be_bytes_def octet_def)

lemma be_round_trip: "from_be_bytes (to_be_bytes n) = n"
proof -
  obtain A B C D :: nat where n: "unat n = ((A * 256 + B) * 256 + C) * 256 + D"
    and os: "unat (octet 0 n) = A" "unat (octet 1 n) = B" "unat (octet 2 n) = C" "unat (octet 3 n) = D"
    by (rule v4_digits [of n]) blast
  have "ucast (octet i n) = (word_of_nat (unat (octet i n)) :: 32 word)" for i by simp
  then have digits: "ucast (octet 0 n) = (word_of_nat A :: 32 word)" "ucast (octet 1 n) = (word_of_nat B :: 32 word)"
    "ucast (octet 2 n) = (word_of_nat C :: 32 word)" "ucast (octet 3 n) = (word_of_nat D :: 32 word)"
    using os by metis+
  have "n = word_of_nat (unat n)" by simp
  also have "\<dots> = ((word_of_nat A * 256 + word_of_nat B) * 256 + word_of_nat C) * 256 + word_of_nat D"
    unfolding n by simp
  also have "\<dots> = from_be_bytes (to_be_bytes n)"
    unfolding from_be_bytes_def be_bytes_octets
    by (simp add: digits digits(2) [unfolded One_nat_def] push_bit_eq_mult)
  finally show ?thesis by simp
qed

definition framable :: "('a \<Rightarrow> box_error + byte list) \<Rightarrow> (byte list \<Rightarrow> box_error + 'a) \<Rightarrow> 'a \<Rightarrow> bool" where
  "framable to_vec from_slice v \<longleftrightarrow>
     (case to_vec v of
        Inl _ \<Rightarrow> False
      | Inr body \<Rightarrow> body \<noteq> [] \<and> length body \<le> max_frame_bytes \<and> (from_slice body = Inr v))"

lemma frame_round_trip:
  assumes "framable to_vec from_slice v"
  obtains bytes where "frame_write to_vec None v sent = (Inr (), sent @ bytes)"
    "\<And>rest e. frame_read from_slice \<lparr>st_bytes = bytes @ rest, st_end = e\<rparr> =
      (Inr (Some v), \<lparr>st_bytes = rest, st_end = e\<rparr>)"
proof -
  obtain body where body: "to_vec v = Inr body" "body \<noteq> []" "length body \<le> max_frame_bytes" "from_slice body = Inr v"
    using assms by (auto simp: framable_def split: sum.splits)
  let ?len = "word_of_nat (length body) :: 32 word"
  have "length body < 2 ^ 32" using body(3) by (simp add: max_frame_bytes_def)
  then have len: "unat ?len = length body" by (simp add: unsigned_of_nat take_bit_nat_eq_self)
  have prefix: "length (to_be_bytes ?len) = 4" by (simp add: to_be_bytes_def)
  show ?thesis
  proof (rule that [of "to_be_bytes ?len @ body"])
    show "frame_write to_vec None v sent = (Inr (), sent @ to_be_bytes ?len @ body)"
      using body by (simp add: frame_write_def frame_bytes_def)
    show "frame_read from_slice \<lparr>st_bytes = (to_be_bytes ?len @ body) @ rest, st_end = e\<rparr> =
      (Inr (Some v), \<lparr>st_bytes = rest, st_end = e\<rparr>)" for rest e
      using body prefix by (simp add: frame_read_def read_exact_def length_prefix_bytes_def be_round_trip len)
  qed
qed

text \<open>C33. What is written is read: messages that fit a frame and that the serializer gives back,
  written one after another, are read off the stream in the same order, to its clean end, and no
  byte of one is taken for another.\<close>

theorem frames_round_trip:
  assumes "list_all (framable to_vec from_slice) vs"
  shows "\<exists>bytes. write_all to_vec vs [] = (Inr (), bytes) \<and>
    read_all from_slice \<lparr>st_bytes = bytes, st_end = PeerClosed\<rparr> = (vs, None)"
proof -
  have "\<exists>bytes. write_all to_vec vs sent = (Inr (), sent @ bytes) \<and>
    read_all from_slice \<lparr>st_bytes = bytes, st_end = PeerClosed\<rparr> = (vs, None)" for sent
    using assms
  proof (induction vs arbitrary: sent)
    case Nil
    then show ?case
      by (simp add: read_all.simps frame_read_def read_exact_def length_prefix_bytes_def)
  next
    case (Cons v vs)
    then obtain bytes where b: "frame_write to_vec None v sent = (Inr (), sent @ bytes)"
      "\<And>rest e. frame_read from_slice \<lparr>st_bytes = bytes @ rest, st_end = e\<rparr> =
        (Inr (Some v), \<lparr>st_bytes = rest, st_end = e\<rparr>)"
      using frame_round_trip [of to_vec from_slice v sent] by auto
    obtain more where "write_all to_vec vs (sent @ bytes) = (Inr (), (sent @ bytes) @ more)"
      "read_all from_slice \<lparr>st_bytes = more, st_end = PeerClosed\<rparr> = (vs, None)"
      using Cons.IH [of "sent @ bytes"] Cons.prems by auto
    with b show ?case
      by (intro exI [of _ "bytes @ more"]) (simp add: read_all.simps [of _ "\<lparr>st_bytes = bytes @ more, st_end = PeerClosed\<rparr>"])
  qed
  from this [of "[]"] show ?thesis by simp
qed

lemma frames_round_trip_witness:
  "\<exists>bytes. write_all (\<lambda>b. Inr [b]) [7, 9] [] = (Inr (), bytes) \<and>
    read_all (\<lambda>bs. Inr (hd bs)) \<lparr>st_bytes = bytes, st_end = PeerClosed\<rparr> = ([7, 9 :: byte], None)"
  by (rule frames_round_trip) (simp add: framable_def max_frame_bytes_def)

text \<open>What is refused before a body is read: an empty frame, one over the limit, and a stream that
  breaks; a body that ends early is an error. A stream that closes inside the length prefix,
  though, reads as a clean end.\<close>

lemma frame_read_limits:
  assumes "read_exact length_prefix_bytes s = (Inr prefix, s1)"
    "unat (from_be_bytes prefix) = 0 \<or> unat (from_be_bytes prefix) > max_frame_bytes"
  shows "\<exists>message. frame_read from_slice s = (Inl (InvalidArgument message), s1)"
  using assms by (auto simp: frame_read_def Let_def max_frame_bytes_def)

lemma frame_cut_in_body:
  assumes "read_exact length_prefix_bytes s = (Inr prefix, s1)" "0 < unat (from_be_bytes prefix)"
    "unat (from_be_bytes prefix) \<le> max_frame_bytes" "length (st_bytes s1) < unat (from_be_bytes prefix)"
  shows "\<exists>e s'. frame_read from_slice s = (Inl e, s') \<and> kind e = KOther"
  using assms by (auto simp: frame_read_def Let_def read_exact_def wrap_def)

lemma frame_cut_in_prefix:
  "length bs < 4 \<Longrightarrow> frame_read from_slice \<lparr>st_bytes = bs, st_end = PeerClosed\<rparr> =
     (Inr None, \<lparr>st_bytes = [], st_end = PeerClosed\<rparr>)"
  by (simp add: frame_read_def read_exact_def length_prefix_bytes_def)

end
