(* ===== verification/Aik_Recall.thy ===== *)
theory Aik_Recall
  imports Aik_Memory
begin

text \<open>
  The memory store over the embedded database (src/crates/memory/src/persistent.rs): a table of
  encoded records and three indexes, by kind, by expiry and by owner. Every operation is one
  transaction, which takes effect as a whole or, when a step of the database fails, not at all. The
  store refines the in-memory one of \<open>Aik_Memory\<close>: the indexes name exactly the records
  they should, and every answer is the same.
\<close>

section \<open>Rows and tables\<close>

record 'f stored_record =
  sr_owner :: string
  sr_kind :: string
  sr_content :: json
  sr_metadata :: "(string, json) btree_map"
  sr_created_at :: timestamp
  sr_expires_at :: "timestamp option"
  sr_embedding :: "'f list option"

definition from_record :: "'f memory_record \<Rightarrow> memory_id \<times> 'f stored_record" where
  "from_record r =
     (me_id r,
      \<lparr>sr_owner = me_owner r, sr_kind = me_kind r, sr_content = me_content r, sr_metadata = me_metadata r,
       sr_created_at = me_created_at r, sr_expires_at = me_expires_at r, sr_embedding = me_embedding r\<rparr>)"

definition into_record :: "'f stored_record \<Rightarrow> memory_id \<Rightarrow> 'f memory_record" where
  "into_record s i =
     \<lparr>me_id = i, me_owner = sr_owner s, me_kind = sr_kind s, me_content = sr_content s,
      me_metadata = sr_metadata s, me_created_at = sr_created_at s, me_expires_at = sr_expires_at s,
      me_embedding = sr_embedding s\<rparr>"

text \<open>The serializer is a library: \<open>mc_encode\<close> and \<open>mc_decode\<close>, with the errors the source wraps
  theirs into.\<close>

record ('f, 'b) mem_codec =
  mc_encode :: "'f stored_record \<Rightarrow> 'b result"
  mc_decode :: "'b \<Rightarrow> 'f stored_record result"

record 'b mem_tables =
  mt_records :: "(memory_id, 'b) btree_map"
  mt_by_kind :: "(string \<times> memory_id, unit) btree_map"
  mt_by_expiry :: "(timestamp \<times> memory_id, unit) btree_map"
  mt_by_owner :: "(string \<times> memory_id, unit) btree_map"

definition no_tables :: "'b mem_tables" where
  "no_tables = \<lparr>mt_records = [], mt_by_kind = [], mt_by_expiry = [], mt_by_owner = []\<rparr>"

text \<open>A transaction: \<open>fault\<close> is the error of the first step of the database that fails, if one
  does; then nothing is committed.\<close>

definition transaction :: "error option \<Rightarrow> ('b mem_tables \<Rightarrow> 'a result \<times> 'b mem_tables) \<Rightarrow> 'b mem_tables \<Rightarrow> 'a result \<times> 'b mem_tables" where
  "transaction fault body tb =
     (case fault of
        Some e \<Rightarrow> (Inl e, tb)
      | None \<Rightarrow> (case body tb of (Inl e, _) \<Rightarrow> (Inl e, tb) | (Inr x, tb') \<Rightarrow> (Inr x, tb')))"

section \<open>The operations\<close>

definition read_row :: "('f, 'b) mem_codec \<Rightarrow> memory_id \<Rightarrow> 'b mem_tables \<Rightarrow> 'f stored_record option result" where
  "read_row codec key tb =
     (case map_of (mt_records tb) key of None \<Rightarrow> Inr None | Some bs \<Rightarrow> map_sum id Some (mc_decode codec bs))"

definition index_row :: "'x::linorder option \<Rightarrow> memory_id \<Rightarrow> ('x \<times> memory_id, unit) btree_map \<Rightarrow> ('x \<times> memory_id, unit) btree_map" where
  "index_row x key t = (case x of Some v \<Rightarrow> bt_insert (v, key) () t | None \<Rightarrow> t)"

definition unindex_row :: "'x option \<Rightarrow> memory_id \<Rightarrow> ('x \<times> memory_id, unit) btree_map \<Rightarrow> ('x \<times> memory_id, unit) btree_map" where
  "unindex_row x key t = (case x of Some v \<Rightarrow> bt_remove (v, key) t | None \<Rightarrow> t)"

definition put_blocking ::
  "('f, 'b) mem_codec \<Rightarrow> 'f mem_env \<Rightarrow> 'f memory_record \<Rightarrow> principal \<Rightarrow> 'b mem_tables \<Rightarrow> unit result \<times> 'b mem_tables" where
  "put_blocking codec env r who tb =
     (case from_record r of (key, fresh) \<Rightarrow>
        case read_row codec key tb of
          Inl e \<Rightarrow> (Inl e, tb)
        | Inr previous \<Rightarrow>
            (case owner_for env key (map_option sr_owner previous) who of
               Inl e \<Rightarrow> (Inl e, tb)
             | Inr owner \<Rightarrow>
                 let stored = fresh\<lparr>sr_owner := owner\<rparr> in
                 (case mc_encode codec stored of
                    Inl e \<Rightarrow> (Inl e, tb)
                  | Inr bs \<Rightarrow>
                      (Inr (),
                       \<lparr>mt_records = bt_insert key bs (mt_records tb),
                        mt_by_kind = index_row (Some (sr_kind stored)) key
                          (unindex_row (map_option sr_kind previous) key (mt_by_kind tb)),
                        mt_by_expiry = index_row (sr_expires_at stored) key
                          (unindex_row (Option.bind previous sr_expires_at) key (mt_by_expiry tb)),
                        mt_by_owner = (if previous = None
                          then index_row (Some (sr_owner stored)) key (mt_by_owner tb) else mt_by_owner tb)\<rparr>))))"

definition get_blocking ::
  "('f, 'b) mem_codec \<Rightarrow> 'f mem_env \<Rightarrow> memory_id \<Rightarrow> principal \<Rightarrow> 'b mem_tables \<Rightarrow> 'f memory_record option result" where
  "get_blocking codec env key who tb =
     (case read_row codec key tb of
        Inl e \<Rightarrow> Inl e
      | Inr None \<Rightarrow> Inr None
      | Inr (Some s) \<Rightarrow>
          map_sum id (\<lambda>_. Some (into_record s key)) (mem_authorize (mv_show_id env) key (sr_owner s) who))"

text \<open>What a delete and a sweep take out for one record.\<close>

definition remove_row :: "memory_id \<Rightarrow> 'f stored_record \<Rightarrow> 'b mem_tables \<Rightarrow> 'b mem_tables" where
  "remove_row key s tb =
     \<lparr>mt_records = bt_remove key (mt_records tb),
      mt_by_kind = unindex_row (Some (sr_kind s)) key (mt_by_kind tb),
      mt_by_expiry = unindex_row (sr_expires_at s) key (mt_by_expiry tb),
      mt_by_owner = unindex_row (Some (sr_owner s)) key (mt_by_owner tb)\<rparr>"

definition delete_blocking ::
  "('f, 'b) mem_codec \<Rightarrow> 'f mem_env \<Rightarrow> memory_id \<Rightarrow> principal \<Rightarrow> 'b mem_tables \<Rightarrow> bool result \<times> 'b mem_tables" where
  "delete_blocking codec env key who tb =
     (case read_row codec key tb of
        Inl e \<Rightarrow> (Inl e, tb)
      | Inr None \<Rightarrow> (Inr False, tb)
      | Inr (Some s) \<Rightarrow>
          (case mem_authorize (mv_show_id env) key (sr_owner s) who of
             Inl e \<Rightarrow> (Inl e, tb)
           | Inr _ \<Rightarrow> (Inr True, remove_row key s tb)))"

text \<open>\<^verbatim>\<open>kind_range\<close> and \<^verbatim>\<open>owner_range\<close>, and a scan of one, the record of each row
  read through the record table.\<close>

definition index_range :: "'x::linorder \<Rightarrow> ('x \<times> memory_id, unit) btree_map \<Rightarrow> memory_id list" where
  "index_range x t = map (\<lambda>e. snd (fst e)) (filter (\<lambda>e. (x, 0) \<le> fst e \<and> fst e \<le> (x, - 1)) t)"

fun read_rows ::
  "('f, 'b) mem_codec \<Rightarrow> (memory_id \<Rightarrow> error) \<Rightarrow> memory_id list \<Rightarrow> 'b mem_tables \<Rightarrow> 'f memory_record list result" where
  "read_rows codec missing [] tb = Inr []"
| "read_rows codec missing (key # keys) tb =
     (case read_row codec key tb of
        Inl e \<Rightarrow> Inl e
      | Inr None \<Rightarrow> Inl (missing key)
      | Inr (Some s) \<Rightarrow> map_sum id (\<lambda>rs. into_record s key # rs) (read_rows codec missing keys tb))"

definition missing_row :: "'f mem_env \<Rightarrow> string \<Rightarrow> string \<Rightarrow> memory_id \<Rightarrow> error" where
  "missing_row env index named key =
     other (''the memory '' @ index @ '' index names record `'' @ mv_show_id env key @ ''` under '' @ index @ '' `''
       @ named @ ''`, but no record is stored under that id'')"

fun scan ::
  "('f, 'b) mem_codec \<Rightarrow> (string \<Rightarrow> memory_id \<Rightarrow> error) \<Rightarrow> (string \<times> memory_id, unit) btree_map \<Rightarrow> string list
   \<Rightarrow> 'b mem_tables \<Rightarrow> 'f memory_record list result" where
  "scan codec missing t [] tb = Inr []"
| "scan codec missing t (x # xs) tb =
     (case read_rows codec (missing x) (index_range x t) tb of
        Inl e \<Rightarrow> Inl e
      | Inr rs \<Rightarrow> map_sum id (\<lambda>more. rs @ more) (scan codec missing t xs tb))"

definition accessible_owners :: "principal \<Rightarrow> string list" where
  "accessible_owners who =
     p_id who # (case p_on_behalf_of who of
       Some delegator \<Rightarrow> if delegator \<noteq> p_id who then [delegator] else []
     | None \<Rightarrow> [])"

definition query_blocking ::
  "('f, 'd) float_ops \<Rightarrow> ('f, 'b) mem_codec \<Rightarrow> 'f mem_env \<Rightarrow> 'f memory_query \<Rightarrow> 'f query_mode \<Rightarrow> timestamp
   \<Rightarrow> principal \<Rightarrow> 'b mem_tables \<Rightarrow> 'f memory_match list result" where
  "query_blocking fl codec env q mode now who tb =
     (let kinds = requested_kinds q in
      case (if kinds = []
            then scan codec (missing_row env ''owner'') (mt_by_owner tb) (accessible_owners who) tb
            else scan codec (missing_row env ''kind'') (mt_by_kind tb) kinds tb) of
        Inl e \<Rightarrow> Inl e
      | Inr candidates \<Rightarrow>
          Inr (rank_for fl mode
            (filter (\<lambda>r. matches_metadata r (mq_metadata q))
              (filter (\<lambda>r. is_live (me_expires_at r) now)
                (filter (\<lambda>r. may_act_for who (me_owner r)) candidates)))
            (mq_limit q)))"

text \<open>One batch of a sweep: the rows that are due, as many as the limit says and never fewer than
  one, and their removal.\<close>

definition due_rows :: "timestamp \<Rightarrow> nat \<Rightarrow> 'b mem_tables \<Rightarrow> (timestamp \<times> memory_id) list" where
  "due_rows now limit tb = take (max 1 limit) (filter (\<lambda>k. k \<le> (now, - 1)) (map fst (mt_by_expiry tb)))"

fun sweep_rows ::
  "('f, 'b) mem_codec \<Rightarrow> 'f mem_env \<Rightarrow> (timestamp \<times> memory_id) list \<Rightarrow> 'b mem_tables \<Rightarrow> nat result \<times> 'b mem_tables" where
  "sweep_rows codec env [] tb = (Inr 0, tb)"
| "sweep_rows codec env ((at, key) # due) tb =
     (case read_row codec key tb of
        Inl e \<Rightarrow> (Inl e, tb)
      | Inr None \<Rightarrow>
          (Inl (other (''the memory expiry index names record `'' @ mv_show_id env key @ ''` at ''
             @ dec (unat at) @ ''ms, but no record is stored under that id'')), tb)
      | Inr (Some s) \<Rightarrow>
          (case sweep_rows codec env due
             ((remove_row key s tb)\<lparr>mt_by_expiry := bt_remove (at, key) (mt_by_expiry tb)\<rparr>) of
             (Inl e, tb') \<Rightarrow> (Inl e, tb')
           | (Inr n, tb') \<Rightarrow> (Inr (Suc n), tb')))"

definition sweep_batch_blocking ::
  "('f, 'b) mem_codec \<Rightarrow> 'f mem_env \<Rightarrow> timestamp \<Rightarrow> nat \<Rightarrow> 'b mem_tables \<Rightarrow> nat result \<times> 'b mem_tables" where
  "sweep_batch_blocking codec env now limit tb = sweep_rows codec env (due_rows now limit tb) tb"

section \<open>The store\<close>

definition db_put ::
  "('f, 'b) mem_codec \<Rightarrow> 'f mem_env \<Rightarrow> error option \<Rightarrow> 'f memory_record \<Rightarrow> execution_context \<Rightarrow> 'b mem_tables
   \<Rightarrow> unit result \<times> 'b mem_tables" where
  "db_put codec env fault r0 cx tb =
     (case with_embedding env r0 cx of
        Inl e \<Rightarrow> (Inl e, tb)
      | Inr r \<Rightarrow> transaction fault (put_blocking codec env r (principal_or_system cx)) tb)"

definition db_get ::
  "('f, 'b) mem_codec \<Rightarrow> 'f mem_env \<Rightarrow> error option \<Rightarrow> memory_id \<Rightarrow> execution_context \<Rightarrow> 'b mem_tables
   \<Rightarrow> 'f memory_record option result" where
  "db_get codec env fault i cx tb =
     (case fault of Some e \<Rightarrow> Inl e | None \<Rightarrow> get_blocking codec env i (principal_or_system cx) tb)"

definition db_delete ::
  "('f, 'b) mem_codec \<Rightarrow> 'f mem_env \<Rightarrow> error option \<Rightarrow> memory_id \<Rightarrow> execution_context \<Rightarrow> 'b mem_tables
   \<Rightarrow> bool result \<times> 'b mem_tables" where
  "db_delete codec env fault i cx tb =
     transaction fault (delete_blocking codec env i (principal_or_system cx)) tb"

definition db_query ::
  "('f, 'd) float_ops \<Rightarrow> ('f, 'b) mem_codec \<Rightarrow> 'f mem_env \<Rightarrow> error option \<Rightarrow> 'f memory_query \<Rightarrow> execution_context
   \<Rightarrow> timestamp \<Rightarrow> 'b mem_tables \<Rightarrow> 'f memory_match list result" where
  "db_query fl codec env fault q cx now tb =
     (case resolve_mode q (mv_semantic env) cx of
        Inl e \<Rightarrow> Inl e
      | Inr mode \<Rightarrow>
          (case fault of
             Some e \<Rightarrow> Inl e
           | None \<Rightarrow> query_blocking fl codec env q mode now (principal_or_system cx) tb))"

text \<open>\<^verbatim>\<open>sweep_expired\<close>, batch after batch until one is not full; \<open>faults n\<close> is that of the batch with
  \<open>n\<close> turns of fuel left. A batch size of zero is refused by the constructor.\<close>

fun db_sweep ::
  "nat \<Rightarrow> ('f, 'b) mem_codec \<Rightarrow> 'f mem_env \<Rightarrow> (nat \<Rightarrow> error option) \<Rightarrow> nat \<Rightarrow> timestamp \<Rightarrow> nat \<Rightarrow> 'b mem_tables
   \<Rightarrow> (nat result \<times> 'b mem_tables) option" where
  "db_sweep 0 codec env faults batch now so_far tb = None"
| "db_sweep (Suc fuel) codec env faults batch now so_far tb =
     (case transaction (faults fuel) (sweep_batch_blocking codec env now batch) tb of
        (Inl e, tb') \<Rightarrow> Some (Inl e, tb')
      | (Inr removed, tb') \<Rightarrow>
          if removed < batch then Some (Inr (so_far + removed), tb')
          else db_sweep fuel codec env faults batch now (so_far + removed) tb')"

section \<open>Indexes\<close>

text \<open>An index over the records: its rows are the pairs of an attribute and the key of a record that
  has it.\<close>

definition indexes :: "('r \<Rightarrow> 'x option) \<Rightarrow> ('x::linorder \<times> memory_id, unit) btree_map \<Rightarrow> (memory_id \<rightharpoonup> 'r) \<Rightarrow> bool" where
  "indexes f t m \<longleftrightarrow> bt_inv t \<and> (\<forall>x k. (x, k) \<in> fst ` set t \<longleftrightarrow> (\<exists>r. m k = Some r \<and> f r = Some x))"

lemma fst_set_bt_insert: "fst ` set (bt_insert k v t) = insert k (fst ` set t)"
  using bt_insert_keys [of k v t] by (simp add: image_image)

lemma fst_set_bt_remove: "fst ` set (bt_remove k t) = fst ` set t - {k}"
  by (auto simp: bt_remove_def)

lemma index_row_inv: "bt_inv t \<Longrightarrow> bt_inv (index_row x k t)" "bt_inv t \<Longrightarrow> bt_inv (unindex_row x k t)"
  by (auto simp: index_row_def unindex_row_def bt_insert_inv bt_remove_inv split: option.splits)

lemma index_row_set:
  "fst ` set (index_row x k t) = fst ` set t \<union> (\<lambda>v. (v, k)) ` set_option x"
  "fst ` set (unindex_row x k t) = fst ` set t - (\<lambda>v. (v, k)) ` set_option x"
  by (auto simp: index_row_def unindex_row_def fst_set_bt_insert fst_set_bt_remove split: option.splits)

lemma indexes_update:
  assumes "indexes f t m" "old = Option.bind (m k) f"
  shows "indexes f (index_row (f r) k (unindex_row old k t)) (m(k \<mapsto> r))"
    "indexes f (unindex_row old k t) (m(k := None))"
proof -
  have "(x, j) \<in> fst ` set t - (\<lambda>v. (v, k)) ` set_option old \<longleftrightarrow> j \<noteq> k \<and> (x, j) \<in> fst ` set t" for x j
    using assms by (cases "m k") (auto simp: indexes_def)
  note mem = this
  show "indexes f (unindex_row old k t) (m(k := None))"
    using assms(1) mem unfolding indexes_def index_row_set(2) by (auto simp: index_row_inv)
  show "indexes f (index_row (f r) k (unindex_row old k t)) (m(k \<mapsto> r))"
    using assms(1) mem unfolding indexes_def index_row_set by (auto simp: index_row_inv)
qed

lemma index_range_keys:
  assumes "indexes f t m"
  shows "set (index_range x t) = {k. \<exists>r. m k = Some r \<and> f r = Some x}" "distinct (index_range x t)"
proof -
  have range: "(x, 0) \<le> p \<and> p \<le> (x, - 1) \<longleftrightarrow> fst p = x" for p :: "'b \<times> memory_id"
    by (cases p) auto
  have "set (index_range x t) = {k. (x, k) \<in> fst ` set t}"
    unfolding index_range_def range by force
  then show "set (index_range x t) = {k. \<exists>r. m k = Some r \<and> f r = Some x}"
    using assms by (simp add: indexes_def)
  have "distinct (map fst t)" using assms bt_inv_distinct unfolding indexes_def by blast
  then have "distinct (map fst (filter (\<lambda>e. fst (fst e) = x) t))" by (rule distinct_map_filter)
  then show "distinct (index_range x t)"
    unfolding index_range_def range by (force simp: distinct_map inj_on_def prod_eq_iff)
qed

section \<open>Refinement\<close>

text \<open>The relation of the database to the in-memory store: the rows decode to its records, and the
  three indexes are theirs.\<close>

definition decoded :: "('f, 'b) mem_codec \<Rightarrow> 'b mem_tables \<Rightarrow> memory_id \<rightharpoonup> 'f memory_record" where
  "decoded codec tb k =
     Option.bind (map_of (mt_records tb) k) (\<lambda>bs.
       case mc_decode codec bs of Inr s \<Rightarrow> Some (into_record s k) | Inl _ \<Rightarrow> None)"

definition mem_rel :: "('f, 'b) mem_codec \<Rightarrow> 'b mem_tables \<Rightarrow> 'f mem_store \<Rightarrow> bool" where
  "mem_rel codec tb st \<longleftrightarrow>
     bt_inv (mt_records tb) \<and> hm_inv st \<and>
     (\<forall>k bs. map_of (mt_records tb) k = Some bs \<longrightarrow> (\<exists>s. mc_decode codec bs = Inr s)) \<and>
     decoded codec tb = map_of st \<and>
     indexes (Some \<circ> me_kind) (mt_by_kind tb) (map_of st) \<and>
     indexes me_expires_at (mt_by_expiry tb) (map_of st) \<and>
     indexes (Some \<circ> me_owner) (mt_by_owner tb) (map_of st)"

text \<open>What the store relies on of the serializer: every row is encoded and decodes to itself. JSON
  has no form for a number that is not finite, so \<open>'f\<close> stands for the finite ones here.\<close>

definition codec_faithful :: "('f, 'b) mem_codec \<Rightarrow> bool" where
  "codec_faithful codec \<longleftrightarrow> (\<forall>s. \<exists>bs. mc_encode codec s = Inr bs \<and> mc_decode codec bs = Inr s)"

lemma read_row_rel:
  assumes "mem_rel codec tb st"
  shows "map_of st k = None \<Longrightarrow> read_row codec k tb = Inr None"
    "map_of st k = Some r \<Longrightarrow> \<exists>s. read_row codec k tb = Inr (Some s) \<and> r = into_record s k"
proof -
  have d: "decoded codec tb k = map_of st k" using assms by (simp add: mem_rel_def)
  show "map_of st k = None \<Longrightarrow> read_row codec k tb = Inr None"
  proof (cases "map_of (mt_records tb) k")
    case (Some bs)
    assume "map_of st k = None"
    moreover obtain s where "mc_decode codec bs = Inr s" using assms Some by (auto simp: mem_rel_def)
    ultimately show ?thesis using d Some by (simp add: decoded_def)
  qed (simp add: read_row_def)
  show "map_of st k = Some r \<Longrightarrow> \<exists>s. read_row codec k tb = Inr (Some s) \<and> r = into_record s k"
  proof (cases "map_of (mt_records tb) k")
    case (Some bs)
    assume "map_of st k = Some r"
    with d Some show ?thesis by (cases "mc_decode codec bs") (simp_all add: decoded_def read_row_def)
  qed (use d in \<open>simp add: decoded_def\<close>)
qed

lemma into_record_simps [simp]:
  "me_owner (into_record s k) = sr_owner s" "me_kind (into_record s k) = sr_kind s"
  "me_expires_at (into_record s k) = sr_expires_at s" "me_id (into_record s k) = k"
  by (simp_all add: into_record_def)

lemma mem_rel_removed:
  assumes "mem_rel codec tb st" "map_of st k = Some (into_record s k)"
  shows "mem_rel codec (remove_row k s tb) (AList.delete k st)"
proof -
  let ?m = "map_of st"
  have m: "map_of (AList.delete k st) = ?m(k := None)" by (simp add: delete_conv')
  have rel: "indexes (Some \<circ> me_kind) (mt_by_kind tb) ?m" "indexes me_expires_at (mt_by_expiry tb) ?m"
    "indexes (Some \<circ> me_owner) (mt_by_owner tb) ?m" using assms(1) by (simp_all add: mem_rel_def)
  have "indexes (Some \<circ> me_kind) (mt_by_kind (remove_row k s tb)) (?m(k := None))"
    using indexes_update(2) [OF rel(1), of "Some (sr_kind s)" k] assms(2) by (simp add: remove_row_def)
  moreover have "indexes me_expires_at (mt_by_expiry (remove_row k s tb)) (?m(k := None))"
    using indexes_update(2) [OF rel(2), of "sr_expires_at s" k] assms(2) by (simp add: remove_row_def)
  moreover have "indexes (Some \<circ> me_owner) (mt_by_owner (remove_row k s tb)) (?m(k := None))"
    using indexes_update(2) [OF rel(3), of "Some (sr_owner s)" k] assms(2) by (simp add: remove_row_def)
  moreover have "decoded codec (remove_row k s tb) = ?m(k := None)"
  proof -
    have "decoded codec tb = ?m" using assms(1) by (simp add: mem_rel_def)
    then show ?thesis by (auto simp: fun_eq_iff decoded_def remove_row_def bt_remove_get split: if_splits)
  qed
  ultimately show ?thesis
    using assms(1) unfolding mem_rel_def m
    by (auto simp: remove_row_def bt_remove_get bt_remove_inv distinct_delete split: if_splits)
qed

lemma into_from_record:
  "into_record ((snd (from_record r))\<lparr>sr_owner := owner\<rparr>) (me_id r) = r\<lparr>me_owner := owner\<rparr>"
  by (simp add: from_record_def into_record_def)

lemma owner_for_owner: "owner_for env i (Some owner) who = Inr owner' \<Longrightarrow> owner' = owner"
  by (auto simp: owner_for_def mem_authorize_def split: if_splits)

text \<open>A record written over what is there, or beside it, with its rows in the indexes.\<close>

lemma mem_rel_written:
  assumes rel: "mem_rel codec tb st" and code: "mc_decode codec bs = Inr stored"
    and prev: "map_of st k = map_option (\<lambda>s. into_record s k) previous"
    and owner: "\<And>s. previous = Some s \<Longrightarrow> sr_owner stored = sr_owner s"
  shows "mem_rel codec
    \<lparr>mt_records = bt_insert k bs (mt_records tb),
     mt_by_kind = index_row (Some (sr_kind stored)) k (unindex_row (map_option sr_kind previous) k (mt_by_kind tb)),
     mt_by_expiry = index_row (sr_expires_at stored) k
       (unindex_row (Option.bind previous sr_expires_at) k (mt_by_expiry tb)),
     mt_by_owner = (if previous = None then index_row (Some (sr_owner stored)) k (mt_by_owner tb)
       else mt_by_owner tb)\<rparr>
    (AList.update k (into_record stored k) st)"
proof -
  let ?m = "map_of st" and ?r = "into_record stored k"
  have m: "map_of (AList.update k ?r st) = ?m(k \<mapsto> ?r)" by (simp add: update_conv')
  have ix: "indexes (Some \<circ> me_kind) (mt_by_kind tb) ?m" "indexes me_expires_at (mt_by_expiry tb) ?m"
    "indexes (Some \<circ> me_owner) (mt_by_owner tb) ?m" and inv: "bt_inv (mt_records tb)" "hm_inv st"
    and dec: "decoded codec tb = ?m" "\<forall>k bs. map_of (mt_records tb) k = Some bs \<longrightarrow> (\<exists>s. mc_decode codec bs = Inr s)"
    using rel by (simp_all add: mem_rel_def)
  have "indexes (Some \<circ> me_kind)
      (index_row (Some (sr_kind stored)) k (unindex_row (map_option sr_kind previous) k (mt_by_kind tb))) (?m(k \<mapsto> ?r))"
    using indexes_update(1) [OF ix(1), of "map_option sr_kind previous" k ?r] prev by (cases previous) simp_all
  moreover have "indexes me_expires_at (index_row (sr_expires_at stored) k
      (unindex_row (Option.bind previous sr_expires_at) k (mt_by_expiry tb))) (?m(k \<mapsto> ?r))"
    using indexes_update(1) [OF ix(2), of "Option.bind previous sr_expires_at" k ?r] prev by (cases previous) simp_all
  moreover have "indexes (Some \<circ> me_owner) (if previous = None then index_row (Some (sr_owner stored)) k (mt_by_owner tb)
      else mt_by_owner tb) (?m(k \<mapsto> ?r))"
  proof (cases previous)
    case None
    then show ?thesis using indexes_update(1) [OF ix(3), of None k ?r] prev by (simp add: unindex_row_def)
  next
    case (Some s)
    then show ?thesis using ix(3) prev owner [OF Some] by (auto simp: indexes_def)
  qed
  moreover have "decoded codec (tb\<lparr>mt_records := bt_insert k bs (mt_records tb)\<rparr>) = ?m(k \<mapsto> ?r)"
    using dec(1) code inv(1) by (auto simp: fun_eq_iff decoded_def bt_insert_get)
  ultimately show ?thesis
    using dec(2) inv code unfolding mem_rel_def m decoded_def
    by (auto simp: bt_insert_get bt_insert_inv distinct_update)
qed

lemma put_refines:
  assumes "mem_rel codec tb st" "codec_faithful codec" "db_put codec env None r cx tb = (x, tb')"
    "mem_put env r cx st = (y, st')"
  shows "x = y \<and> mem_rel codec tb' st'"
proof (cases "with_embedding env r cx")
  case (Inl e)
  with assms show ?thesis by (simp add: db_put_def mem_put_def)
next
  case (Inr r')
  let ?k = "me_id r'" and ?who = "principal_or_system cx"
  obtain previous where p: "read_row codec ?k tb = Inr previous"
    "map_of st ?k = map_option (\<lambda>s. into_record s ?k) previous"
    using read_row_rel [OF assms(1), of ?k] by (cases "map_of st ?k") auto
  have same: "map_option sr_owner previous = map_option me_owner (map_of st ?k)"
    unfolding p(2) by (cases previous) simp_all
  show ?thesis
  proof (cases "owner_for env ?k (map_option sr_owner previous) ?who")
    case (Inl e)
    with Inr p same assms show ?thesis
      by (simp add: db_put_def mem_put_def transaction_def put_blocking_def from_record_def)
  next
    case (Inr owner)
    obtain fresh where key: "from_record r' = (?k, fresh)" by (simp add: from_record_def)
    define stored where "stored = fresh\<lparr>sr_owner := owner\<rparr>"
    obtain bs where bs: "mc_encode codec stored = Inr bs" "mc_decode codec bs = Inr stored"
      using assms(2) unfolding codec_faithful_def by blast
    have keeps: "sr_owner stored = sr_owner s" if "previous = Some s" for s
      using that Inr owner_for_owner [of env ?k "sr_owner s" ?who owner] by (simp add: stored_def)
    have rec: "into_record stored ?k = r'\<lparr>me_owner := owner\<rparr>" 
      using into_from_record [of owner r'] by (simp add: stored_def key)
    have memory: "y = Inr ()" "st' = AList.update ?k (into_record stored ?k) st"
      using assms(4) \<open>with_embedding env r cx = Inr r'\<close> Inr same unfolding rec by (simp_all add: mem_put_def)
    have "put_blocking codec env r' ?who tb = (Inr (),
      \<lparr>mt_records = bt_insert ?k bs (mt_records tb),
       mt_by_kind = index_row (Some (sr_kind stored)) ?k (unindex_row (map_option sr_kind previous) ?k (mt_by_kind tb)),
       mt_by_expiry = index_row (sr_expires_at stored) ?k
         (unindex_row (Option.bind previous sr_expires_at) ?k (mt_by_expiry tb)),
       mt_by_owner = (if previous = None then index_row (Some (sr_owner stored)) ?k (mt_by_owner tb)
         else mt_by_owner tb)\<rparr>)"
      using p(1) Inr bs(1) by (simp add: put_blocking_def key Let_def stored_def [symmetric])
    with assms(3) \<open>with_embedding env r cx = Inr r'\<close> memory mem_rel_written [OF assms(1) bs(2) p(2) keeps]
    show ?thesis by (simp add: db_put_def transaction_def)
  qed
qed

lemma get_refines:
  assumes "mem_rel codec tb st"
  shows "db_get codec env None i cx tb = mem_get env i cx st"
  using read_row_rel [OF assms, of i]
  by (cases "map_of st i") (auto simp: db_get_def get_blocking_def mem_get_def)

lemma delete_refines:
  assumes "mem_rel codec tb st" "db_delete codec env None i cx tb = (x, tb')" "mem_delete env i cx st = (y, st')"
  shows "x = y \<and> mem_rel codec tb' st'"
proof (cases "map_of st i")
  case None
  with read_row_rel(1) [OF assms(1) None] assms show ?thesis
    by (simp add: db_delete_def delete_blocking_def mem_delete_def transaction_def)
next
  case (Some r)
  with read_row_rel(2) [OF assms(1) Some] obtain s where s: "read_row codec i tb = Inr (Some s)" "r = into_record s i"
    by blast
  have "mem_rel codec (remove_row i s tb) (AList.delete i st)"
    using mem_rel_removed [OF assms(1)] Some s(2) by blast
  with s Some assms show ?thesis
    by (cases "mem_authorize (mv_show_id env) i (sr_owner s) (principal_or_system cx)")
      (auto simp: db_delete_def delete_blocking_def mem_delete_def transaction_def)
qed

section \<open>Queries\<close>

lemma mem_rel_id: "mem_rel codec tb st \<Longrightarrow> map_of st k = Some r \<Longrightarrow> me_id r = k"
  using read_row_rel(2) by fastforce

lemma read_rows_rel:
  assumes "mem_rel codec tb st" "\<forall>k \<in> set keys. map_of st k \<noteq> None"
  shows "read_rows codec missing keys tb = Inr (map (\<lambda>k. the (map_of st k)) keys)"
  using assms(2)
proof (induction keys)
  case (Cons k keys)
  then obtain r where r: "map_of st k = Some r" by auto
  with read_row_rel(2) [OF assms(1) r] obtain s where "read_row codec k tb = Inr (Some s)" "r = into_record s k" by blast
  with Cons r show ?case by simp
qed simp

lemma scan_rel:
  assumes "mem_rel codec tb st" "indexes (Some \<circ> f) t (map_of st)" "distinct xs"
  obtains rs where "scan codec missing t xs tb = Inr rs"
    "set rs = {r. \<exists>k. map_of st k = Some r \<and> f r \<in> set xs}" "distinct (map me_id rs)"
proof -
  let ?get = "\<lambda>k. the (map_of st k)"
  let ?rs = "\<lambda>xs. concat (map (\<lambda>x. map ?get (index_range x t)) xs)"
  note keys = index_range_keys [OF assms(2)]
  have "scan codec missing t ys tb = Inr (?rs ys)" for ys
  proof (induction ys)
    case (Cons y ys)
    have "read_rows codec (missing y) (index_range y t) tb = Inr (map ?get (index_range y t))"
      using keys(1) [of y] by (intro read_rows_rel [OF assms(1)]) auto
    with Cons show ?case by simp
  qed simp
  moreover have "set (?rs xs) = {r. \<exists>k. map_of st k = Some r \<and> f r \<in> set xs}"
  proof -
    have "?get ` {k. \<exists>r. map_of st k = Some r \<and> (Some \<circ> f) r = Some x} = {r. \<exists>k. map_of st k = Some r \<and> f r = x}" for x
      by (force simp: image_iff)
    then have "?get ` set (index_range x t) = {r. \<exists>k. map_of st k = Some r \<and> f r = x}" for x
      unfolding keys(1) .
    then show ?thesis by auto
  qed
  moreover have "distinct (map me_id (?rs ys))" if "distinct ys" for ys
    using that
  proof (induction ys)
    case (Cons y ys)
    have ids: "map me_id (map ?get (index_range x t)) = index_range x t" for x
      using keys(1) [of x] mem_rel_id [OF assms(1)] by (auto intro!: map_idI)
    have "\<forall>x k. x \<noteq> y \<longrightarrow> k \<in> set (index_range y t) \<longrightarrow> k \<notin> set (index_range x t)"
      using keys(1) by auto
    then have apart: "set (index_range y t) \<inter> (\<Union>x \<in> set ys. set (index_range x t)) = {}"
      using Cons.prems by (fastforce simp: disjoint_iff)
    have all: "map me_id (?rs zs) = concat (map (\<lambda>x. index_range x t) zs)" for zs
      unfolding map_concat map_map comp_def using ids by (simp add: comp_def)
    from Cons apart keys(2) [of y] show ?case unfolding all by auto
  qed simp
  ultimately show ?thesis using that assms(3) by blast
qed

lemma sorted_remdups_adj_distinct: "sorted xs \<Longrightarrow> distinct (remdups_adj xs)" for xs :: "'a::linorder list"
  by (induction xs rule: remdups_adj.induct) (auto simp: order_le_less)

lemma accessible_owners_iff: "may_act_for who owner \<longleftrightarrow> owner \<in> set (accessible_owners who)"
  by (auto simp: may_act_for_def accessible_owners_def split: option.splits)

lemma query_refines:
  assumes "mem_rel codec tb st" "score_order fl key"
  shows "db_query fl codec env None q cx now tb = mem_query fl env q cx now st"
proof (cases "resolve_mode q (mv_semantic env) cx")
  case (Inl e)
  then show ?thesis by (simp add: db_query_def mem_query_def)
next
  case (Inr mode)
  let ?who = "principal_or_system cx" and ?kinds = "requested_kinds q"
  let ?P = "\<lambda>r. may_act_for ?who (me_owner r) \<and> (?kinds = [] \<or> me_kind r \<in> set ?kinds) \<and>
    is_live (me_expires_at r) now \<and> matches_metadata r (mq_metadata q)"
  have ix: "indexes (Some \<circ> me_kind) (mt_by_kind tb) (map_of st)" "indexes (Some \<circ> me_owner) (mt_by_owner tb) (map_of st)"
    "hm_inv st" using assms(1) by (simp_all add: mem_rel_def)
  have kinds: "distinct ?kinds" unfolding requested_kinds_def by (intro sorted_remdups_adj_distinct) simp
  have owners: "distinct (accessible_owners ?who)" by (auto simp: accessible_owners_def split: option.splits)
  let ?scan = "if ?kinds = []
    then scan codec (missing_row env ''owner'') (mt_by_owner tb) (accessible_owners ?who) tb
    else scan codec (missing_row env ''kind'') (mt_by_kind tb) ?kinds tb"
  obtain rs where rs: "?scan = Inr rs" "distinct (map me_id rs)"
    "set rs = {r. \<exists>k. map_of st k = Some r \<and>
      (if ?kinds = [] then may_act_for ?who (me_owner r) else me_kind r \<in> set ?kinds)}"
  proof (cases "?kinds = []")
    case True
    show ?thesis
      by (rule scan_rel [OF assms(1) ix(2) owners, of "missing_row env ''owner''"])
        (rule that, auto simp: True accessible_owners_iff)
  next
    case False
    show ?thesis
      by (rule scan_rel [OF assms(1) ix(1) kinds, of "missing_row env ''kind''"])
        (rule that, auto simp: False)
  qed
  let ?db = "filter (\<lambda>r. matches_metadata r (mq_metadata q)) (filter (\<lambda>r. is_live (me_expires_at r) now)
    (filter (\<lambda>r. may_act_for ?who (me_owner r)) rs))"
  let ?mem = "filter (\<lambda>r. matches_metadata r (mq_metadata q)) (filter (\<lambda>r. is_live (me_expires_at r) now)
    (filter (\<lambda>r. ?kinds = [] \<or> me_kind r \<in> set ?kinds) (filter (\<lambda>r. may_act_for ?who (me_owner r)) (map snd st))))"
  have snd_st: "set (map snd st) = {r. \<exists>k. map_of st k = Some r}"
    using ix(3) by (force simp: map_of_eq_Some_iff)
  have fsts: "map me_id (map snd st) = map fst st"
    using mem_rel_id [OF assms(1)] ix(3) by (auto simp: map_of_eq_Some_iff)
  have ids: "distinct (map me_id (map snd st))" unfolding fsts by (rule ix(3))
  have "set ?db = set ?mem" using rs(3) snd_st by auto
  then have "rank_for fl mode ?db (mq_limit q) = rank_for fl mode ?mem (mq_limit q)"
    using rs(2) ids by (intro rank_for_unique [OF assms(2)] distinct_map_filter)
  with Inr rs(1) show ?thesis
    by (simp add: db_query_def mem_query_def query_blocking_def Let_def split: if_splits)
qed

section \<open>Sweeping\<close>

definition due :: "timestamp \<Rightarrow> 'b mem_tables \<Rightarrow> (timestamp \<times> memory_id) list" where
  "due now tb = filter (\<lambda>k. k \<le> (now, - 1)) (map fst (mt_by_expiry tb))"

lemma due_iff:
  assumes "mem_rel codec tb st"
  shows "(at, k) \<in> set (due now tb) \<longleftrightarrow> (\<exists>r. map_of st k = Some r \<and> me_expires_at r = Some at) \<and> at \<le> now"
proof -
  have "(at, k) \<le> (now, - 1) \<longleftrightarrow> at \<le> now" by auto
  moreover have "(at, k) \<in> fst ` set (mt_by_expiry tb) \<longleftrightarrow> (\<exists>r. map_of st k = Some r \<and> me_expires_at r = Some at)"
    using assms by (simp add: mem_rel_def indexes_def)
  ultimately show ?thesis by (auto simp: due_def)
qed

lemma due_distinct: "mem_rel codec tb st \<Longrightarrow> distinct (due now tb)"
  using bt_inv_distinct unfolding mem_rel_def indexes_def due_def by (blast intro: distinct_filter)

text \<open>Removing the first rows that are due leaves the others due, and the records of the rest.\<close>

lemma sweep_rows_rel:
  assumes "mem_rel codec tb st" "due now tb = rows @ rest"
  shows "\<exists>tb' st'. sweep_rows codec env rows tb = (Inr (length rows), tb') \<and> mem_rel codec tb' st' \<and>
    due now tb' = rest \<and> map_of st' = (map_of st) |` (- snd ` set rows)"
  using assms
proof (induction rows arbitrary: tb st)
  case Nil
  then show ?case by (auto simp: restrict_map_def)
next
  case (Cons row rows)
  obtain at k where row: "row = (at, k)" by (cases row)
  have "(at, k) \<in> set (due now tb)" using Cons.prems(2) row by simp
  then obtain r where r: "map_of st k = Some r" "me_expires_at r = Some at"
    using due_iff [OF Cons.prems(1)] by blast
  then obtain s where s: "read_row codec k tb = Inr (Some s)" "r = into_record s k"
    using read_row_rel(2) [OF Cons.prems(1)] by blast
  let ?tb = "(remove_row k s tb)\<lparr>mt_by_expiry := bt_remove (at, k) (mt_by_expiry tb)\<rparr>"
  have "?tb = remove_row k s tb" using r(2) s(2) by (simp add: remove_row_def unindex_row_def)
  then have rel: "mem_rel codec ?tb (AList.delete k st)"
    using mem_rel_removed [OF Cons.prems(1)] r(1) s(2) by simp
  have "due now ?tb = filter (\<lambda>j. j \<noteq> (at, k)) (due now tb)"
    by (simp add: due_def bt_remove_keys conj_commute)
  also have "\<dots> = rows @ rest"
  proof -
    have keep: "filter (\<lambda>j. j \<noteq> (at, k)) xs = xs" if "(at, k) \<notin> set xs" for xs
      using that by (induction xs) auto
    show ?thesis
      using due_distinct [OF Cons.prems(1), of now] Cons.prems(2) row by (simp add: keep)
  qed
  finally obtain tb' st' where "sweep_rows codec env rows ?tb = (Inr (length rows), tb')" "mem_rel codec tb' st'"
    "due now tb' = rest" "map_of st' = (map_of (AList.delete k st)) |` (- snd ` set rows)"
    using Cons.IH [OF rel] by blast
  with s row show ?case
    by (intro exI [of _ tb'] exI [of _ st']) (auto simp: delete_conv' restrict_map_def fun_eq_iff)
qed

lemma sweep_batch_rel:
  assumes "mem_rel codec tb st" "0 < batch"
  obtains tb' st' where
    "transaction None (sweep_batch_blocking codec env now batch) tb = (Inr (min batch (length (due now tb))), tb')"
    "mem_rel codec tb' st'" "due now tb' = drop batch (due now tb)"
    "map_of st' = (map_of st) |` (- snd ` set (take batch (due now tb)))"
proof -
  have rows: "due_rows now batch tb = take batch (due now tb)"
    using assms(2) by (simp add: due_rows_def due_def max_def)
  have "due now tb = take batch (due now tb) @ drop batch (due now tb)" by simp
  from sweep_rows_rel [OF assms(1) this, of env] obtain tb' st' where
    "sweep_rows codec env (take batch (due now tb)) tb = (Inr (length (take batch (due now tb))), tb')"
    "mem_rel codec tb' st'" "due now tb' = drop batch (due now tb)"
    "map_of st' = (map_of st) |` (- snd ` set (take batch (due now tb)))" by blast
  then show ?thesis
    using that [of tb' st'] by (simp add: transaction_def sweep_batch_blocking_def rows min.commute)
qed

lemma db_sweep_rel:
  "mem_rel codec tb st \<Longrightarrow> 0 < batch \<Longrightarrow> length (due now tb) < fuel \<Longrightarrow>
   \<exists>tb' st'. db_sweep fuel codec env (\<lambda>_. None) batch now n tb = Some (Inr (n + length (due now tb)), tb') \<and>
     mem_rel codec tb' st' \<and> map_of st' = (map_of st) |` (- snd ` set (due now tb))"
proof (induction fuel arbitrary: tb st n)
  case (Suc fuel)
  obtain tb1 st1 where b:
    "transaction None (sweep_batch_blocking codec env now batch) tb = (Inr (min batch (length (due now tb))), tb1)"
    "mem_rel codec tb1 st1" "due now tb1 = drop batch (due now tb)"
    "map_of st1 = (map_of st) |` (- snd ` set (take batch (due now tb)))"
    using Suc.prems(1,2) by (rule sweep_batch_rel)
  show ?case
  proof (cases "length (due now tb) < batch")
    case True
    with b show ?thesis by auto
  next
    case False
    with b(3) Suc.prems have "length (due now tb1) < fuel" by simp
    from Suc.IH [OF b(2) Suc.prems(2) this, of "n + batch"] obtain tb' st' where
      "db_sweep fuel codec env (\<lambda>_. None) batch now (n + batch) tb1 = Some (Inr (n + batch + length (due now tb1)), tb')"
      "mem_rel codec tb' st'" "map_of st' = (map_of st1) |` (- snd ` set (due now tb1))" by blast
    moreover have "set (due now tb) = set (take batch (due now tb)) \<union> set (drop batch (due now tb))"
      by (metis append_take_drop_id set_append)
    ultimately show ?thesis using b False by (auto simp: min_def image_Un)
  qed
qed simp

lemma mem_rel_cong:
  "mem_rel codec tb st \<Longrightarrow> map_of st = map_of st' \<Longrightarrow> hm_inv st' \<Longrightarrow> mem_rel codec tb st'"
  by (simp add: mem_rel_def)

lemma due_count:
  assumes "mem_rel codec tb st"
  shows "length (due now tb) = length (filter (\<lambda>e. \<not> is_live (me_expires_at (snd e)) now) st)"
proof -
  let ?old = "filter (\<lambda>e. \<not> is_live (me_expires_at (snd e)) now) st"
  have inv: "hm_inv st" using assms by (simp add: mem_rel_def)
  let ?row = "\<lambda>e. (the (me_expires_at (snd e)), fst e)"
  have "(at, k) \<in> set (map ?row ?old) \<longleftrightarrow> (at, k) \<in> set (due now tb)" for at k
  proof -
    have "(at, k) \<in> set (map ?row ?old) \<longleftrightarrow>
        (\<exists>r. (k, r) \<in> set st \<and> \<not> is_live (me_expires_at r) now \<and> at = the (me_expires_at r))"
      by force
    also have "\<dots> \<longleftrightarrow> (\<exists>r. map_of st k = Some r \<and> me_expires_at r = Some at) \<and> at \<le> now"
    proof -
      have live: "\<not> is_live (me_expires_at r) now \<longleftrightarrow> (\<exists>e. me_expires_at r = Some e \<and> e \<le> now)" for r :: "'a memory_record"
        by (cases "me_expires_at r") (simp_all add: is_live_def not_less)
      show ?thesis unfolding live map_of_eq_Some_iff [OF inv] by auto
    qed
    finally show ?thesis by (simp add: due_iff [OF assms])
  qed
  then have "set (map ?row ?old) = set (due now tb)" by (intro set_eqI) (simp only: split_paired_all)
  moreover have "distinct (map ?row ?old)"
    using inv distinct_map_filter [OF inv, of "\<lambda>e. \<not> is_live (me_expires_at (snd e)) now"]
    by (auto simp: distinct_map inj_on_def)
  ultimately have "length (due now tb) = length (map ?row ?old)"
    using distinct_card [OF due_distinct [OF assms, of now]] distinct_card [of "map ?row ?old"] by presburger
  then show ?thesis by simp
qed

lemma map_of_filter_value:
  "hm_inv st \<Longrightarrow> map_of (filter (\<lambda>(_, r). P r) st) k =
     (case map_of st k of Some r \<Rightarrow> if P r then Some r else None | None \<Rightarrow> None)"
  by (induction st) (force simp: map_of_eq_None_iff split: option.splits)+

lemma sweep_refines:
  assumes "mem_rel codec tb st" "0 < batch"
  shows "\<exists>tb'. db_sweep (Suc (length (mt_by_expiry tb))) codec env (\<lambda>_. None) batch now 0 tb =
      Some (Inr (fst (mem_sweep now st)), tb') \<and> mem_rel codec tb' (snd (mem_sweep now st))"
proof -
  have inv: "hm_inv st" using assms by (simp add: mem_rel_def)
  have "length (due now tb) < Suc (length (mt_by_expiry tb))"
    unfolding due_def using length_filter_le [of _ "map fst (mt_by_expiry tb)"] by (simp add: less_Suc_eq_le)
  from db_sweep_rel [OF assms this, of env 0] obtain tb' st' where
    d: "db_sweep (Suc (length (mt_by_expiry tb))) codec env (\<lambda>_. None) batch now 0 tb = Some (Inr (length (due now tb)), tb')"
    "mem_rel codec tb' st'" "map_of st' = (map_of st) |` (- snd ` set (due now tb))" by auto
  let ?kept = "filter (\<lambda>(_, r). is_live (me_expires_at r) now) st"
  have kept: "hm_inv ?kept" using inv by (rule distinct_map_filter)
  have "map_of st' k = map_of ?kept k" for k
  proof -
    have "map_of ?kept k = (case map_of st k of Some r \<Rightarrow> if is_live (me_expires_at r) now then Some r else None | None \<Rightarrow> None)"
      using inv by (rule map_of_filter_value)
    moreover have "k \<in> snd ` set (due now tb) \<longleftrightarrow> (\<exists>r. map_of st k = Some r \<and> \<not> is_live (me_expires_at r) now)"
      using due_iff [OF assms(1), of _ k now] by (force simp: is_live_def image_iff split: option.splits)
    ultimately show ?thesis unfolding d(3) by (auto simp: restrict_map_def split: option.splits)
  qed
  then have "mem_rel codec tb' ?kept" using mem_rel_cong [OF d(2) _ kept] by blast
  moreover have "length (due now tb) = length st - length ?kept"
    using due_count [OF assms(1), of now] sum_length_filter_compl [of "\<lambda>(_, r). is_live (me_expires_at r) now" st]
    by (simp add: case_prod_beta)
  ultimately show ?thesis using d(1) by (simp add: mem_sweep_def Let_def)
qed

section \<open>Commands\<close>

text \<open>What a caller does with a store, and what it is answered.\<close>

datatype 'f mem_command =
    MemPut "'f memory_record" execution_context
  | MemGet memory_id execution_context
  | MemDelete memory_id execution_context
  | MemQuery "'f memory_query" execution_context timestamp
  | MemSweep timestamp

datatype 'f mem_answer =
    PutAnswer "unit result"
  | GetAnswer "'f memory_record option result"
  | DeleteAnswer "bool result"
  | QueryAnswer "'f memory_match list result"
  | SweepAnswer "nat result option"

fun mem_step ::
  "('f, 'd) float_ops \<Rightarrow> 'f mem_env \<Rightarrow> 'f mem_command \<Rightarrow> 'f mem_store \<Rightarrow> 'f mem_answer \<times> 'f mem_store" where
  "mem_step fl env (MemPut r cx) st = map_prod PutAnswer id (mem_put env r cx st)"
| "mem_step fl env (MemGet i cx) st = (GetAnswer (mem_get env i cx st), st)"
| "mem_step fl env (MemDelete i cx) st = map_prod DeleteAnswer id (mem_delete env i cx st)"
| "mem_step fl env (MemQuery q cx now) st = (QueryAnswer (mem_query fl env q cx now st), st)"
| "mem_step fl env (MemSweep now) st = map_prod (\<lambda>n. SweepAnswer (Some (Inr n))) id (mem_sweep now st)"

text \<open>A sweep is given as many turns as there are rows in the expiry index, and one more.\<close>

fun db_step ::
  "('f, 'd) float_ops \<Rightarrow> ('f, 'b) mem_codec \<Rightarrow> 'f mem_env \<Rightarrow> nat \<Rightarrow> error option \<Rightarrow> 'f mem_command \<Rightarrow> 'b mem_tables
   \<Rightarrow> 'f mem_answer \<times> 'b mem_tables" where
  "db_step fl codec env batch fault (MemPut r cx) tb = map_prod PutAnswer id (db_put codec env fault r cx tb)"
| "db_step fl codec env batch fault (MemGet i cx) tb = (GetAnswer (db_get codec env fault i cx tb), tb)"
| "db_step fl codec env batch fault (MemDelete i cx) tb = map_prod DeleteAnswer id (db_delete codec env fault i cx tb)"
| "db_step fl codec env batch fault (MemQuery q cx now) tb = (QueryAnswer (db_query fl codec env fault q cx now tb), tb)"
| "db_step fl codec env batch fault (MemSweep now) tb =
     (case db_sweep (Suc (length (mt_by_expiry tb))) codec env (\<lambda>_. fault) batch now 0 tb of
        Some (r, tb') \<Rightarrow> (SweepAnswer (Some r), tb')
      | None \<Rightarrow> (SweepAnswer None, tb))"

definition failed_with :: "error \<Rightarrow> 'f mem_answer \<Rightarrow> bool" where
  "failed_with e a \<longleftrightarrow>
     a \<in> {PutAnswer (Inl e), GetAnswer (Inl e), DeleteAnswer (Inl e), QueryAnswer (Inl e), SweepAnswer (Some (Inl e))}"

lemma db_step_refines:
  assumes "mem_rel codec tb st" "codec_faithful codec" "score_order fl key" "0 < batch"
    "db_step fl codec env batch None c tb = (a, tb')" "mem_step fl env c st = (b, st')"
  shows "a = b \<and> mem_rel codec tb' st'"
proof (cases c)
  case (MemPut r cx)
  obtain x tb1 y st1 where e: "db_put codec env None r cx tb = (x, tb1)" "mem_put env r cx st = (y, st1)" by fastforce
  from put_refines [OF assms(1,2) e] e MemPut assms(5,6) show ?thesis by auto
next
  case (MemGet i cx)
  with get_refines [OF assms(1), of env i cx] assms show ?thesis by auto
next
  case (MemDelete i cx)
  obtain x tb1 y st1 where e: "db_delete codec env None i cx tb = (x, tb1)" "mem_delete env i cx st = (y, st1)" by fastforce
  from delete_refines [OF assms(1) e] e MemDelete assms(5,6) show ?thesis by auto
next
  case (MemQuery q cx now)
  with query_refines [OF assms(1,3), of env q cx now] assms show ?thesis by auto
next
  case (MemSweep now)
  with sweep_refines [OF assms(1,4), of env now] assms(5,6) show ?thesis
    by (cases "mem_sweep now st") auto
qed

lemma db_step_faulty:
  assumes "db_step fl codec env batch (Some e) c tb = (a, tb')"
  shows "tb' = tb" "\<exists>e'. failed_with e' a"
  using assms
  by (cases c; auto simp: db_put_def db_get_def db_delete_def db_query_def transaction_def failed_with_def
      split: sum.splits)+

fun db_run where
  "db_run fl codec env batch [] tb = ([], tb)"
| "db_run fl codec env batch ((fault, c) # cs) tb =
     (case db_step fl codec env batch fault c tb of (a, tb') \<Rightarrow>
        map_prod (\<lambda>as. a # as) id (db_run fl codec env batch cs tb'))"

fun mem_run where
  "mem_run fl env [] st = ([], st)"
| "mem_run fl env ((fault, c) # cs) st =
     (if fault = None
      then case mem_step fl env c st of (a, st') \<Rightarrow> map_prod (\<lambda>as. Some a # as) id (mem_run fl env cs st')
      else map_prod (\<lambda>as. None # as) id (mem_run fl env cs st))"

lemma mem_rel_start: "mem_rel codec no_tables []"
  by (auto simp: mem_rel_def no_tables_def indexes_def decoded_def fun_eq_iff)


definition demo_codec :: "(int, int stored_record) mem_codec" where
  "demo_codec = \<lparr>mc_encode = Inr, mc_decode = Inr\<rparr>"

definition demo_commands :: "(error option \<times> int mem_command) list" where
  "demo_commands =
     [(None, MemPut (demo_memory 1 [] 3) (as_user ''ann'')), (None, MemPut (demo_memory 2 [] 4) (as_user ''ann'')),
      (Some Cancelled, MemDelete 1 (as_user ''ann'')), (None, MemQuery demo_question (as_user ''ann'') 5)]"


end
