(* ===== verification/Spec2Isabelle.thy ===== *)
theory Spec2Isabelle
  imports Aik_Kernel Aik_Registry Aik_Config Aik_Policy Aik_Tools Aik_Resilience Aik_Approval Aik_Agent
    Aik_Firings Aik_Runner Aik_Web Aik_Frame Aik_Recall Aik_Summary
begin

text \<open>
  A verification development of AI-kernel, the core of an operating layer for AI agents
  (src/crates). The kernel (crates core and api) knows how components are wired, started and
  stopped; everything else is a component: a registry of tools behind an authorization gate, a
  policy engine, approvals by a human, quotas, retries in front of model providers, the
  transcript of a conversation and the window a model sees of it, the agent loop and a job
  scheduler. The theories follow the crates.

  \<^bold>\<open>How the parts interact.\<close> A kernel is built from descriptors, whose dependency graph gives the
  order in which components are initialised, started and, in reverse, stopped; services reach
  each other through the registry and read their settings from the merged configuration. An
  agent run reads a window of its session from the context store, asks the quota guard, asks a
  model provider (through retries, a circuit breaker and a concurrency limit), appends the reply
  and invokes the tools it calls through the tool registry. The tool registry asks the policy
  engine about every permission a tool declares or plans, asks the approval broker where the
  policy defers to a human, consults the provenance ledger and publishes what happened. The
  scheduler starts firings of jobs over time, on events and after restarts.

  \<^bold>\<open>What models what.\<close>
  \<^item> \<open>Aik_Prelude\<close>: machine integers with saturating operations, durations and instants
    (core/src/clock.rs), the operations of strings, and the dictionary types of the standard
    library behind the locale \<open>dictionary\<close>.
  \<^item> \<open>Aik_Error\<close>: the error type, its kinds and the marker of transient failures
    (core/src/error.rs, api/src/resilience.rs).
  \<^item> \<open>Aik_Api\<close>: JSON values, principals and requests, the execution context and provenance labels
    (api/src/permission.rs, execution.rs, provenance.rs).
  \<^item> \<open>Aik_Graph\<close>: descriptors and the resolution of the start order (core/src/component.rs,
    graph.rs). The order is sound, complete, the same for every registration order, and each error
    names a real fault.
  \<^item> \<open>Aik_Kernel\<close>: the builder with its plugins, and start, rollback and shutdown
    (core/src/kernel.rs, plugin.rs). Components may fail in every phase; each sees its phases at
    most once and in order, after what it depends on and stopped before it.
  \<^item> \<open>Aik_Registry\<close>: the service registry (core/src/registry.rs), a refinement of a finite map.
  \<^item> \<open>Aik_Config\<close>: layered configuration, paths and environment variables (core/src/config.rs).
  \<^item> \<open>Aik_Policy\<close>: patterns, rules, documents and evaluation (crate policy).
  \<^item> \<open>Aik_Trust\<close>, \<open>Aik_Tools\<close>: the provenance ledger and the registry of tools with its authorization
    (crate tools). Tools, the policy engine, the approval sink and catalogues are functions of a
    world that the model passes on, so that a claim holds for whatever they do.
  \<^item> \<open>Aik_Resilience\<close>: backoff, circuit breaker, concurrency limit and the retry loop (crate
    resilience), total with a measure on the attempts that remain.
  \<^item> \<open>Aik_Approval\<close>: the broker of approvals and its gates (crate approval), a step relation over all
    interleavings of requests, answers, timeouts and closing.
  \<^item> \<open>Aik_Quota\<close>: prices, windows of time, the ledger and the guard (crate quota), with costs at 128
    bits and counters at 64.
  \<^item> \<open>Aik_Model\<close>, \<open>Aik_Window\<close>, \<open>Aik_Context\<close>: messages and their token estimate
    (api/src/model.rs, api/src/context.rs, context/src/tokens.rs), the assembly of a window (context/src/window.rs) and the
    in-memory store of sessions with its retention (context/src/store.rs, session.rs,
    retention.rs).
  \<^item> \<open>Aik_Agent\<close>: the agent loop (crate agent), a total function bounded by its limits on turns and
    tool calls.
  \<^item> \<open>Aik_Cron\<close>, \<open>Aik_Scheduler\<close>, \<open>Aik_Firings\<close>, \<open>Aik_Runner\<close>: cron expressions, the job scheduler with its
    durable rows, exclusion slots and recovery, what its runs guarantee, and the run of one firing
    (crate scheduler, api/src/scheduler.rs). The runs are those of a step relation in which the
    process may die and every access to the store may fail.

  \<^bold>\<open>Interfaces.\<close> The locales \<open>dictionary\<close> (both kinds of map), \<open>message_log\<close> (the store an agent
  appends to) and \<open>durable_table\<close> (the store of jobs), and those of the graph, the registry and
  the ledgers, state what a client relies on and are interpreted on the definitions that model
  the code.

  \<^bold>\<open>Conventions.\<close> A fallible operation returns \<open>error + 'a\<close>; a panic is \<open>None\<close> or a
  constructor of its own. An asynchronous operation is cut where it can be suspended, unless the
  code holds a lock throughout. Integers keep their width wherever the code's arithmetic could
  leave it. Loops are structural or have a termination proof; fuel occurs once, in
  \<open>mark_steps\<close> of \<open>Aik_Cron\<close>, with a lemma that it is enough, and the cron search is a partial
  function shown to return.

  \<^bold>\<open>Parameters.\<close> Code outside the repository is a parameter: the date library (records
  \<open>calendar\<close> and \<open>chrono\<close>, with \<open>chrono_laws\<close>), random draws and UUIDs (a supply of
  identifiers, injective where a claim needs it), model providers and tools, and the outcome of
  each transaction of the embedded database.

  \<^bold>\<open>Not modelled.\<close> The translation of requests and replies for each model provider, the terminal
  frontend and the host process, the operating-system side of the file, process and network
  tools, the event bus and task scopes of the asynchronous runtime, and the wiring that reads
  settings and calls the constructors modelled here. The durable variants of the context store
  and the quota ledger differ from the modelled ones in their storage only.
\<close>

end
